(* ===== verification/Nsca_Crypt.thy ===== *)
theory Nsca_Crypt
  imports Nsca_Prelude
begin

text \<open>
  The encryption half of \<open>nsca_utils.cpp\<close>: the method numbers of \<open>nsca_common.h\<close>, the crypt
  instance, \<open>encrypt_init\<close>, \<open>encrypt_buffer\<close>, \<open>decrypt_buffer\<close> and the two generators of the
  transmitted IV. libmcrypt is not part of the repository: it is the parameter \<open>mcrypt\<close>, a
  record of the calls the code makes. The C library's \<open>rand\<close> is a parameter as well.

  The locale \<open>stream_cipher\<close> is the interface between a cipher that works byte by byte and the
  buffer loops over it. The code's own exclusive-or cipher is an instance; for libmcrypt the
  locale predicate is a hypothesis of the theorems that need it.
\<close>

section \<open>Constants\<close>

definition TRANSMITTED_IV_SIZE :: nat where [nsca_consts]: "TRANSMITTED_IV_SIZE = 128"

definition ENCRYPT_NONE :: int where [nsca_consts]: "ENCRYPT_NONE = 0"
definition ENCRYPT_XOR :: int where [nsca_consts]: "ENCRYPT_XOR = 1"
definition ENCRYPT_DES :: int where [nsca_consts]: "ENCRYPT_DES = 2"
definition ENCRYPT_3DES :: int where [nsca_consts]: "ENCRYPT_3DES = 3"
definition ENCRYPT_CAST128 :: int where [nsca_consts]: "ENCRYPT_CAST128 = 4"
definition ENCRYPT_CAST256 :: int where [nsca_consts]: "ENCRYPT_CAST256 = 5"
definition ENCRYPT_XTEA :: int where [nsca_consts]: "ENCRYPT_XTEA = 6"
definition ENCRYPT_3WAY :: int where [nsca_consts]: "ENCRYPT_3WAY = 7"
definition ENCRYPT_BLOWFISH :: int where [nsca_consts]: "ENCRYPT_BLOWFISH = 8"
definition ENCRYPT_TWOFISH :: int where [nsca_consts]: "ENCRYPT_TWOFISH = 9"
definition ENCRYPT_LOKI97 :: int where [nsca_consts]: "ENCRYPT_LOKI97 = 10"
definition ENCRYPT_RC2 :: int where [nsca_consts]: "ENCRYPT_RC2 = 11"
definition ENCRYPT_ARCFOUR :: int where [nsca_consts]: "ENCRYPT_ARCFOUR = 12"
definition ENCRYPT_RIJNDAEL128 :: int where [nsca_consts]: "ENCRYPT_RIJNDAEL128 = 14"
definition ENCRYPT_RIJNDAEL192 :: int where [nsca_consts]: "ENCRYPT_RIJNDAEL192 = 15"
definition ENCRYPT_RIJNDAEL256 :: int where [nsca_consts]: "ENCRYPT_RIJNDAEL256 = 16"
definition ENCRYPT_WAKE :: int where [nsca_consts]: "ENCRYPT_WAKE = 19"
definition ENCRYPT_SERPENT :: int where [nsca_consts]: "ENCRYPT_SERPENT = 20"
definition ENCRYPT_ENIGMA :: int where [nsca_consts]: "ENCRYPT_ENIGMA = 22"
definition ENCRYPT_GOST :: int where [nsca_consts]: "ENCRYPT_GOST = 23"
definition ENCRYPT_SAFER64 :: int where [nsca_consts]: "ENCRYPT_SAFER64 = 24"
definition ENCRYPT_SAFER128 :: int where [nsca_consts]: "ENCRYPT_SAFER128 = 25"
definition ENCRYPT_SAFERPLUS :: int where [nsca_consts]: "ENCRYPT_SAFERPLUS = 26"

definition OK :: int where [nsca_consts]: "OK = 0"
definition ERROR :: int where [nsca_consts]: "ERROR = -1"

text \<open>
  The algorithm names are macros of \<open>mcrypt.h\<close>; only their identity matters here. \<open>Unknown\<close> is
  the literal \<open>"unknown"\<close> of the code.
\<close>

datatype mcrypt_name =
    MCRYPT_DES | MCRYPT_3DES | MCRYPT_CAST_128 | MCRYPT_CAST_256 | MCRYPT_XTEA | MCRYPT_3WAY
  | MCRYPT_BLOWFISH | MCRYPT_TWOFISH | MCRYPT_LOKI97 | MCRYPT_RC2 | MCRYPT_ARCFOUR
  | MCRYPT_RIJNDAEL_128 | MCRYPT_RIJNDAEL_192 | MCRYPT_RIJNDAEL_256 | MCRYPT_WAKE
  | MCRYPT_SERPENT | MCRYPT_ENIGMA | MCRYPT_GOST | MCRYPT_SAFER_SK64 | MCRYPT_SAFER_SK128
  | MCRYPT_SAFERPLUS | Unknown

text \<open>The \<open>switch\<close> of \<open>encrypt_init\<close>.\<close>

definition mcrypt_algorithm_name :: "int \<Rightarrow> mcrypt_name" where
  "mcrypt_algorithm_name encryption_method =
     (if encryption_method = ENCRYPT_DES then MCRYPT_DES
      else if encryption_method = ENCRYPT_3DES then MCRYPT_3DES
      else if encryption_method = ENCRYPT_CAST128 then MCRYPT_CAST_128
      else if encryption_method = ENCRYPT_CAST256 then MCRYPT_CAST_256
      else if encryption_method = ENCRYPT_XTEA then MCRYPT_XTEA
      else if encryption_method = ENCRYPT_3WAY then MCRYPT_3WAY
      else if encryption_method = ENCRYPT_BLOWFISH then MCRYPT_BLOWFISH
      else if encryption_method = ENCRYPT_TWOFISH then MCRYPT_TWOFISH
      else if encryption_method = ENCRYPT_LOKI97 then MCRYPT_LOKI97
      else if encryption_method = ENCRYPT_RC2 then MCRYPT_RC2
      else if encryption_method = ENCRYPT_ARCFOUR then MCRYPT_ARCFOUR
      else if encryption_method = ENCRYPT_RIJNDAEL128 then MCRYPT_RIJNDAEL_128
      else if encryption_method = ENCRYPT_RIJNDAEL192 then MCRYPT_RIJNDAEL_192
      else if encryption_method = ENCRYPT_RIJNDAEL256 then MCRYPT_RIJNDAEL_256
      else if encryption_method = ENCRYPT_WAKE then MCRYPT_WAKE
      else if encryption_method = ENCRYPT_SERPENT then MCRYPT_SERPENT
      else if encryption_method = ENCRYPT_ENIGMA then MCRYPT_ENIGMA
      else if encryption_method = ENCRYPT_GOST then MCRYPT_GOST
      else if encryption_method = ENCRYPT_SAFER64 then MCRYPT_SAFER_SK64
      else if encryption_method = ENCRYPT_SAFER128 then MCRYPT_SAFER_SK128
      else if encryption_method = ENCRYPT_SAFERPLUS then MCRYPT_SAFERPLUS
      else Unknown)"

section \<open>libmcrypt and the crypt instance\<close>

record 'td mcrypt =
  mcrypt_module_open :: "mcrypt_name \<Rightarrow> string \<Rightarrow> 'td option"
  mcrypt_enc_get_iv_size :: "'td \<Rightarrow> nat"
  mcrypt_enc_get_key_size :: "'td \<Rightarrow> nat"
  mcrypt_generic_init :: "'td \<Rightarrow> byte list \<Rightarrow> nat \<Rightarrow> byte list \<Rightarrow> 'td"
  mcrypt_generic :: "'td \<Rightarrow> byte \<Rightarrow> byte \<times> 'td"
  mdecrypt_generic :: "'td \<Rightarrow> byte \<Rightarrow> byte \<times> 'td"
  mcrypt_enc_get_state :: "'td \<Rightarrow> byte list"
  mcrypt_enc_set_state :: "'td \<Rightarrow> byte list \<Rightarrow> 'td"

text \<open>
  \<open>struct crypt_instance\<close>. A pointer or a descriptor that \<open>malloc\<close> left uninitialised, and a
  failed \<open>mcrypt_module_open\<close>, are \<open>None\<close>. (\<open>block_buffer\<close> is never used by the code.)
\<close>

record 'td crypt_instance =
  transmitted_iv :: "byte list"
  td :: "'td option"
  key :: "byte list option"
  IV :: "byte list option"
  blocksize :: int
  keysize :: nat
  mcrypt_algorithm :: "mcrypt_name option"
  mcrypt_mode :: "string option"
  iv_size :: nat

section \<open>Generators of the transmitted IV\<close>

text \<open>The static state of \<open>xorshf96\<close>, on 64-bit \<open>unsigned long\<close>s, and its initial value.\<close>

record rnd =
  local_rnd_x :: u64
  local_rnd_y :: u64
  local_rnd_z :: u64

definition rnd_initial :: rnd where
  "rnd_initial = \<lparr>local_rnd_x = 123456789, local_rnd_y = 362436069, local_rnd_z = 521288629\<rparr>"

definition xorshf96 :: "rnd \<Rightarrow> u64 \<times> rnd" where
  "xorshf96 r =
     (let x1 = local_rnd_x r XOR push_bit 16 (local_rnd_x r);
          x2 = x1 XOR drop_bit 5 x1;
          t = x2 XOR push_bit 1 x2;
          x = local_rnd_y r;
          y = local_rnd_z r;
          z = t XOR x XOR y
      in (z, \<lparr>local_rnd_x = x, local_rnd_y = y, local_rnd_z = z\<rparr>))"

primrec generate_iv_loop :: "nat \<Rightarrow> rnd \<Rightarrow> byte list \<times> rnd" where
  "generate_iv_loop 0 r = ([], r)"
| "generate_iv_loop (Suc n) r =
     (let (v, r') = xorshf96 r; (bs, r'') = generate_iv_loop n r'
      in (ucast (v AND 0xFF) # bs, r''))"

definition generate_transmitted_iv :: "rnd \<Rightarrow> byte list \<times> rnd" where
  "generate_transmitted_iv r = generate_iv_loop TRANSMITTED_IV_SIZE r"

text \<open>
  \<open>generate_transmitted_iv_secure\<close>: the seed is one \<open>fgetc\<close> of \<open>/dev/urandom\<close> (\<open>None\<close>: the
  file cannot be opened), else the time. \<open>rand\<close> is the C library's sequence for a seed, values
  \<open>0..RAND_MAX\<close> with \<open>RAND_MAX = 2 ^ 31 - 1\<close>; then \<open>256.0 * rand () / (RAND_MAX + 1.0)\<close> is exact
  in a \<open>double\<close> and its conversion to \<open>int\<close> truncates.
\<close>

definition generate_transmitted_iv_secure ::
    "(int \<Rightarrow> nat \<Rightarrow> nat) \<Rightarrow> int option \<Rightarrow> int \<Rightarrow> byte list" where
  "generate_transmitted_iv_secure rand urandom time =
     (let seed = (case urandom of Some c \<Rightarrow> c | None \<Rightarrow> c_int time)
      in map (\<lambda>x. word_of_nat (256 * rand seed x div 2 ^ 31)) [0..<TRANSMITTED_IV_SIZE])"

section \<open>Initialisation\<close>

datatype alloc_site = Alloc_CI | Alloc_IV | Alloc_key

text \<open>
  \<open>encrypt_init\<close>: the result code and what \<open>*CIptr\<close> holds afterwards. \<open>mem s\<close> says whether the
  allocation at \<open>s\<close> succeeds. \<open>received_iv = None\<close> is the null pointer.
\<close>

definition crypt_key :: "nat \<Rightarrow> string \<Rightarrow> byte list" where
  "crypt_key ksize password =
     (let p = bytes_of (c_str password); n = (if ksize < length p then ksize else length p)
      in take n p @ replicate (ksize - n) 0)"

definition encrypt_init ::
    "'td mcrypt \<Rightarrow> (alloc_site \<Rightarrow> bool) \<Rightarrow> string \<Rightarrow> int \<Rightarrow> byte list option \<Rightarrow> rnd \<Rightarrow>
     int \<times> 'td crypt_instance option \<times> rnd" where
  "encrypt_init lib mem password encryption_method received_iv r =
     (if \<not> mem Alloc_CI then (ERROR, None, r)
      else
        let (iv, r1) = (case received_iv of
              None \<Rightarrow> generate_transmitted_iv r
            | Some v \<Rightarrow> (take TRANSMITTED_IV_SIZE v, r));
            CI = \<lparr>transmitted_iv = iv, td = None, key = None, IV = None, blocksize = 1,
                  keysize = 7, mcrypt_algorithm = None, mcrypt_mode = None, iv_size = 0\<rparr>
        in if encryption_method = ENCRYPT_NONE \<or> encryption_method = ENCRYPT_XOR
           then (OK, Some CI, r1)
           else
             let CI1 = CI\<lparr>mcrypt_algorithm := Some (mcrypt_algorithm_name encryption_method),
                          mcrypt_mode := Some ''cfb''\<rparr>
             in (case mcrypt_module_open lib (mcrypt_algorithm_name encryption_method) ''cfb'' of
                   None \<Rightarrow> (ERROR, Some CI1, r1)
                 | Some t \<Rightarrow>
                     let CI2 = CI1\<lparr>td := Some t\<rparr>; ivs = mcrypt_enc_get_iv_size lib t
                     in if TRANSMITTED_IV_SIZE < ivs then (ERROR, Some CI2, r1)
                        else if \<not> mem Alloc_IV then (ERROR, Some (CI2\<lparr>iv_size := ivs\<rparr>), r1)
                        else
                          let IVb = take ivs iv;
                              ks = mcrypt_enc_get_key_size lib t;
                              CI3 = CI2\<lparr>iv_size := ivs, IV := Some IVb, keysize := ks\<rparr>
                          in if \<not> mem Alloc_key then (ERROR, Some CI3, r1)
                             else
                               let k = crypt_key ks password
                               in (OK,
                                   Some (CI3\<lparr>key := Some k,
                                             td := Some (mcrypt_generic_init lib t k ks IVb)\<rparr>),
                                   r1)))"

section \<open>Buffers\<close>

text \<open>
  The rotating exclusive or: \<open>x\<close> runs along the key and returns to 0 when it reaches \<open>lim\<close>. For
  the password \<open>lim\<close> is its length and the key includes the terminating NUL, which is what the
  code reads when the password is empty.
\<close>

definition xor_step :: "byte list \<Rightarrow> nat \<Rightarrow> nat \<Rightarrow> byte \<Rightarrow> byte \<times> nat" where
  "xor_step k lim x b = (let x' = (if lim \<le> x then 0 else x) in (b XOR k ! x', Suc x'))"

text \<open>A loop over the bytes of a buffer, with the cipher's state passed along.\<close>

fun crypt_bytes :: "('st \<Rightarrow> byte \<Rightarrow> byte \<times> 'st) \<Rightarrow> 'st \<Rightarrow> byte list \<Rightarrow> byte list \<times> 'st" where
  "crypt_bytes f s [] = ([], s)"
| "crypt_bytes f s (b # bs) =
     (let (c, s') = f s b; (cs, s'') = crypt_bytes f s' bs in (c # cs, s''))"

definition xor_buffer :: "byte list \<Rightarrow> string \<Rightarrow> byte list \<Rightarrow> byte list" where
  "xor_buffer iv password buffer =
     (let b1 = fst (crypt_bytes (xor_step iv TRANSMITTED_IV_SIZE) 0 buffer);
          p = bytes_of (c_str password)
      in fst (crypt_bytes (xor_step (p @ [0]) (length p)) 0 b1))"

text \<open>
  \<open>encrypt_buffer\<close> and \<open>decrypt_buffer\<close> on the first \<open>buffer_size\<close> bytes. The result is the
  buffer and the crypt instance (its descriptor advances); \<open>None\<close> is the undefined behaviour of a
  call of libmcrypt on a descriptor that was never opened.
\<close>

definition encrypt_buffer ::
    "'td mcrypt \<Rightarrow> byte list \<Rightarrow> nat \<Rightarrow> string \<Rightarrow> int \<Rightarrow> 'td crypt_instance option \<Rightarrow>
     (byte list \<times> 'td crypt_instance option) option" where
  "encrypt_buffer lib buffer buffer_size password encryption_method CI =
     (case CI of
        None \<Rightarrow> Some (buffer, CI)
      | Some ci \<Rightarrow>
          if encryption_method = ENCRYPT_NONE then Some (buffer, CI)
          else if encryption_method = ENCRYPT_XOR then
            Some (xor_buffer (transmitted_iv ci) password (take buffer_size buffer)
                    @ drop buffer_size buffer, CI)
          else (case td ci of
                  None \<Rightarrow> None
                | Some t \<Rightarrow>
                    let (bs, t') = crypt_bytes (mcrypt_generic lib) t (take buffer_size buffer)
                    in Some (bs @ drop buffer_size buffer, Some (ci\<lparr>td := Some t'\<rparr>))))"

definition decrypt_buffer ::
    "'td mcrypt \<Rightarrow> byte list \<Rightarrow> nat \<Rightarrow> string \<Rightarrow> int \<Rightarrow> 'td crypt_instance option \<Rightarrow>
     (byte list \<times> 'td crypt_instance option) option" where
  "decrypt_buffer lib buffer buffer_size password encryption_method CI =
     (case CI of
        None \<Rightarrow> Some (buffer, CI)
      | Some ci \<Rightarrow>
          if encryption_method = ENCRYPT_NONE then Some (buffer, CI)
          else if encryption_method = ENCRYPT_XOR then
            encrypt_buffer lib buffer buffer_size password encryption_method CI
          else (case td ci of
                  None \<Rightarrow> None
                | Some t \<Rightarrow>
                    let (bs, t') = crypt_bytes (mdecrypt_generic lib) t (take buffer_size buffer)
                    in Some (bs @ drop buffer_size buffer, Some (ci\<lparr>td := Some t'\<rparr>))))"

section \<open>Clean-up\<close>

text \<open>
  \<open>encrypt_cleanup\<close>: what it releases, in order; \<open>initialized\<close> is the flag \<open>mcrypt_initialized\<close>
  that the first successful \<open>encrypt_init\<close> of a process sets. \<open>None\<close> is the undefined behaviour of
  passing a pointer to \<open>free\<close> that was never assigned. \<open>encrypt_init\<close> assigns \<open>key\<close> last: when the
  allocation of \<open>IV\<close> has not been reached or has failed, \<open>key\<close> is uninitialised; when only that of
  \<open>key\<close> has failed, it is null, which \<open>free\<close> accepts.
\<close>

datatype cleanup_call = Mcrypt_end | Free_key | Free_IV | Free_algorithm | Free_mode | Free_CI

definition encrypt_cleanup :: "bool \<Rightarrow> int \<Rightarrow> 'td crypt_instance option \<Rightarrow> cleanup_call list option" where
  "encrypt_cleanup initialized encryption_method CI =
     (case CI of
        None \<Rightarrow> Some []
      | Some ci \<Rightarrow>
          if encryption_method \<noteq> ENCRYPT_NONE \<and> encryption_method \<noteq> ENCRYPT_XOR
          then (if IV ci = None then None
                else Some ((if initialized then [Mcrypt_end] else [])
                           @ [Free_key, Free_IV, Free_algorithm, Free_mode, Free_CI]))
          else Some [Free_CI])"

section \<open>Byte-wise ciphers\<close>

text \<open>
  What the buffer loops need of a cipher: run from the same state, decryption inverts encryption
  of a byte and both sides move to the same next state.
\<close>

locale stream_cipher =
  fixes enc :: "'st \<Rightarrow> byte \<Rightarrow> byte \<times> 'st"
    and dec :: "'st \<Rightarrow> byte \<Rightarrow> byte \<times> 'st"
  assumes dec_enc: "dec s (fst (enc s b)) = (b, snd (enc s b))"
begin

lemma crypt_bytes_inverse:
  "crypt_bytes dec s (fst (crypt_bytes enc s bs)) = (bs, snd (crypt_bytes enc s bs))"
proof (induction bs arbitrary: s)
  case Nil
  then show ?case by simp
next
  case (Cons b bs)
  then show ?case using dec_enc [of s b] by (simp add: case_prod_beta Let_def)
qed

end

lemma length_crypt_bytes [simp]: "length (fst (crypt_bytes f s bs)) = length bs"
  by (induction bs arbitrary: s) (simp_all add: case_prod_beta Let_def)

lemma crypt_bytes_append:
  "crypt_bytes f s (as @ bs) =
     (fst (crypt_bytes f s as) @ fst (crypt_bytes f (snd (crypt_bytes f s as)) bs),
      snd (crypt_bytes f (snd (crypt_bytes f s as)) bs))"
  by (induction as arbitrary: s) (simp_all add: case_prod_beta Let_def)

interpretation xor_cipher: stream_cipher "xor_step k lim" "xor_step k lim" for k lim
  by unfold_locales (simp add: xor_step_def Let_def xor.assoc)

text \<open>The exclusive-or cipher uses only the position, so its two loops commute.\<close>

lemma xor_loop_nth:
  assumes "0 < lim" "x \<le> lim" "i < length bs"
  shows "fst (crypt_bytes (xor_step k lim) x bs) ! i = bs ! i XOR k ! ((x + i) mod lim)"
  using assms
proof (induction bs arbitrary: x i)
  case Nil
  then show ?case by simp
next
  case (Cons b bs)
  let ?x = "if lim \<le> x then 0 else x"
  have m: "x mod lim = ?x" using Cons.prems by auto
  show ?case
  proof (cases i)
    case 0
    with m show ?thesis by (simp add: xor_step_def Let_def case_prod_beta)
  next
    case (Suc j)
    have "(Suc ?x + j) mod lim = (x + i) mod lim"
      using Cons.prems(2) Suc by (cases "x = lim") (simp_all flip: add_Suc_right)
    moreover have "Suc ?x \<le> lim" using Cons.prems by auto
    ultimately show ?thesis
      using Cons.IH [of "Suc ?x" j] Cons.prems Suc
      by (simp add: xor_step_def Let_def case_prod_beta)
  qed
qed

lemma xor_loop_lim0:
  "k ! 0 = 0 \<Longrightarrow> fst (crypt_bytes (xor_step k 0) x bs) = bs"
  by (induction bs arbitrary: x) (simp_all add: xor_step_def Let_def case_prod_beta)

lemma length_xor_buffer [simp]: "length (xor_buffer iv p bs) = length bs"
  by (simp add: xor_buffer_def Let_def)

text \<open>Closed form of the exclusive-or cipher.\<close>

definition password_byte :: "string \<Rightarrow> nat \<Rightarrow> byte" where
  "password_byte p i =
     (if c_str p = [] then 0 else bytes_of (c_str p) ! (i mod length (c_str p)))"

lemma xor_buffer_nth:
  assumes "i < length bs"
  shows "xor_buffer iv p bs ! i = bs ! i XOR iv ! (i mod TRANSMITTED_IV_SIZE) XOR password_byte p i"
proof -
  let ?p = "bytes_of (c_str p)"
  let ?b = "fst (crypt_bytes (xor_step iv TRANSMITTED_IV_SIZE) 0 bs)"
  have b: "?b ! i = bs ! i XOR iv ! (i mod TRANSMITTED_IV_SIZE)"
    using xor_loop_nth [of TRANSMITTED_IV_SIZE 0 i bs iv] assms by (simp add: nsca_consts)
  show ?thesis
  proof (cases "c_str p = []")
    case True
    then have "bytes_of (c_str p) = []" by (simp add: bytes_of_def)
    then show ?thesis using True b xor_loop_lim0 [of "[0]"]
      by (simp add: xor_buffer_def Let_def password_byte_def)
  next
    case False
    then have "0 < length ?p" by simp
    with xor_loop_nth [of "length ?p" 0 i ?b "?p @ [0]"] assms False b show ?thesis
      by (simp add: xor_buffer_def Let_def password_byte_def nth_append xor.assoc)
  qed
qed

lemma xor_buffer_involution [simp]: "xor_buffer iv p (xor_buffer iv p bs) = bs"
  by (rule nth_equalityI) (simp_all add: xor_buffer_nth xor.assoc xor.left_commute [of _ "iv ! _"])

section \<open>The buffer routines\<close>

lemma length_encrypt_buffer:
  "encrypt_buffer lib buf n pw m CI = Some (c, CI') \<Longrightarrow> length c = length buf"
  by (auto simp: encrypt_buffer_def Let_def case_prod_beta split: option.splits if_splits)

lemma length_decrypt_buffer:
  "decrypt_buffer lib buf n pw m CI = Some (c, CI') \<Longrightarrow> length c = length buf"
  by (auto simp: decrypt_buffer_def Let_def case_prod_beta length_encrypt_buffer
      split: option.splits if_splits)

lemma take_append_drop_same: "length as = length (take n xs) \<Longrightarrow> take n (as @ drop n xs) = as"
  by (cases "n \<le> length xs") simp_all

lemma drop_append_drop_same: "length as = length (take n xs) \<Longrightarrow> drop n (as @ drop n xs) = drop n xs"
  by (cases "n \<le> length xs") simp_all

lemma encrypt_buffer_xor:
  "encrypt_buffer lib buf n pw ENCRYPT_XOR (Some ci) =
     Some (xor_buffer (transmitted_iv ci) pw (take n buf) @ drop n buf, Some ci)"
  by (simp add: encrypt_buffer_def nsca_consts)

lemma decrypt_buffer_xor:
  "decrypt_buffer lib buf n pw ENCRYPT_XOR (Some ci) =
     Some (xor_buffer (transmitted_iv ci) pw (take n buf) @ drop n buf, Some ci)"
  by (simp add: decrypt_buffer_def encrypt_buffer_def nsca_consts)

section \<open>Initialisation\<close>

lemma length_crypt_key [simp]: "length (crypt_key ks pw) = ks"
  by (simp add: crypt_key_def Let_def)

lemma take_cong_le: "take n xs = take n ys \<Longrightarrow> m \<le> n \<Longrightarrow> take m xs = take m ys"
  by (metis min.absorb1 take_take)

lemma encrypt_init_xor_none:
  "m = ENCRYPT_NONE \<or> m = ENCRYPT_XOR \<Longrightarrow> mem Alloc_CI \<Longrightarrow>
   encrypt_init lib mem pw m (Some iv) r =
     (OK, Some \<lparr>transmitted_iv = take TRANSMITTED_IV_SIZE iv, td = None, key = None, IV = None,
        blocksize = 1, keysize = 7, mcrypt_algorithm = None, mcrypt_mode = None, iv_size = 0\<rparr>, r)"
  by (simp add: encrypt_init_def)

text \<open>What a successful initialisation of a libmcrypt method leaves behind.\<close>

lemma encrypt_init_mcrypt_ok:
  assumes "encrypt_init lib mem pw m (Some iv) r = (OK, CI, r')"
    and "m \<noteq> ENCRYPT_NONE" "m \<noteq> ENCRYPT_XOR"
  obtains ci t0 where
    "CI = Some ci" "r' = r" "transmitted_iv ci = take TRANSMITTED_IV_SIZE iv"
    "mcrypt_module_open lib (mcrypt_algorithm_name m) ''cfb'' = Some t0"
    "iv_size ci = mcrypt_enc_get_iv_size lib t0" "iv_size ci \<le> TRANSMITTED_IV_SIZE"
    "IV ci = Some (take (iv_size ci) (transmitted_iv ci))"
    "keysize ci = mcrypt_enc_get_key_size lib t0"
    "key ci = Some (crypt_key (keysize ci) pw)"
    "td ci = Some (mcrypt_generic_init lib t0 (crypt_key (keysize ci) pw) (keysize ci)
       (take (iv_size ci) (transmitted_iv ci)))"
proof -
  from assms show thesis
    by (intro that [of "the CI" "the (mcrypt_module_open lib (mcrypt_algorithm_name m) ''cfb'')"])
      (auto simp: encrypt_init_def Let_def OK_def ERROR_def split: if_splits option.splits)
qed

lemma encrypt_init_no_module:
  "m \<noteq> ENCRYPT_NONE \<Longrightarrow> m \<noteq> ENCRYPT_XOR \<Longrightarrow> mem Alloc_CI \<Longrightarrow>
   mcrypt_module_open lib (mcrypt_algorithm_name m) ''cfb'' = None \<Longrightarrow>
   \<exists>ci. encrypt_init lib mem pw m (Some iv) r = (ERROR, Some ci, r) \<and> td ci = None"
  by (simp add: encrypt_init_def Let_def)

section \<open>The generator\<close>

lemma xor_push_bit_eq_0:
  assumes "(x :: 'a::len word) XOR push_bit n x = 0" "0 < n"
  shows "x = 0"
proof -
  have "x = push_bit n x" using assms(1) by (simp only: word_xor_eq_0)
  then have eq: "bit x i = bit (push_bit n x) i" for i by (rule arg_cong)
  have "\<not> bit x i" for i
  proof (induction i rule: less_induct)
    case (less i)
    then show ?case using eq [of i] assms(2) by (auto simp: bit_simps)
  qed
  then show ?thesis by (intro bit_word_eqI) simp
qed

lemma xor_drop_bit_eq_0:
  assumes "(x :: 'a::len word) XOR drop_bit n x = 0" "0 < n"
  shows "x = 0"
proof -
  have "x = drop_bit n x" using assms(1) by (simp only: word_xor_eq_0)
  then have eq: "bit x i = bit x (n + i)" for i
    using bit_drop_bit_eq [of n x] by (metis comp_apply)
  have "\<not> bit x i" for i
  proof (induction "LENGTH('a) - i" arbitrary: i rule: less_induct)
    case less
    show ?case
    proof (cases "i < LENGTH('a)")
      case True
      then have "LENGTH('a) - (n + i) < LENGTH('a) - i" using assms(2) by simp
      then show ?thesis using less [of "n + i"] eq [of i] by simp
    next
      case False
      then show ?thesis using bit_imp_le_length by auto
    qed
  qed
  then show ?thesis by (intro bit_word_eqI) simp
qed

definition rnd_zero :: rnd where
  "rnd_zero = \<lparr>local_rnd_x = 0, local_rnd_y = 0, local_rnd_z = 0\<rparr>"

text \<open>The all-zero state, from which only zeros are drawn, is never entered.\<close>

lemma xorshf96_nonzero: "r \<noteq> rnd_zero \<Longrightarrow> snd (xorshf96 r) \<noteq> rnd_zero"
proof
  assume r: "r \<noteq> rnd_zero" and z: "snd (xorshf96 r) = rnd_zero"
  let ?x1 = "local_rnd_x r XOR push_bit 16 (local_rnd_x r)"
  let ?x2 = "?x1 XOR drop_bit 5 ?x1"
  define u where "u = ?x2 XOR push_bit 1 ?x2"
  have "xorshf96 r = (u XOR local_rnd_y r XOR local_rnd_z r, \<lparr>local_rnd_x = local_rnd_y r,
      local_rnd_y = local_rnd_z r, local_rnd_z = u XOR local_rnd_y r XOR local_rnd_z r\<rparr>)"
    by (simp only: xorshf96_def Let_def u_def xor.assoc)
  then have y: "local_rnd_y r = 0" "local_rnd_z r = 0" and "u = 0"
    using z by (auto simp: rnd_zero_def)
  then have t: "?x2 XOR push_bit 1 ?x2 = 0" by (simp only: u_def)
  have "?x2 = 0" by (rule xor_push_bit_eq_0 [OF t]) simp
  then have "?x1 = 0" by (rule xor_drop_bit_eq_0) simp
  then have "local_rnd_x r = 0" by (rule xor_push_bit_eq_0) simp
  with y r show False by (cases r) (simp add: rnd_zero_def)
qed

lemma generate_iv_loop_nonzero: "r \<noteq> rnd_zero \<Longrightarrow> snd (generate_iv_loop n r) \<noteq> rnd_zero"
proof (induction n arbitrary: r)
  case 0
  then show ?case by simp
next
  case (Suc n)
  then show ?case using xorshf96_nonzero [of r] by (simp add: case_prod_beta Let_def)
qed

lemma length_generate_iv_loop [simp]: "length (fst (generate_iv_loop n r)) = n"
  by (induction n arbitrary: r) (simp_all add: case_prod_beta Let_def)

lemma length_generate_transmitted_iv [simp]:
  "length (fst (generate_transmitted_iv r)) = TRANSMITTED_IV_SIZE"
  by (simp add: generate_transmitted_iv_def)

lemma length_generate_transmitted_iv_secure [simp]:
  "length (generate_transmitted_iv_secure rand u t) = TRANSMITTED_IV_SIZE"
  by (simp add: generate_transmitted_iv_secure_def)

section \<open>A cipher for examples\<close>

text \<open>
  A cipher feedback of one byte, as a concrete instance of the library: the state is the previous
  byte of cipher text. It is used in the examples that show that hypotheses can hold.
\<close>

definition feedback_cipher :: "byte mcrypt" where
  "feedback_cipher =
     \<lparr>mcrypt_module_open = (\<lambda>name mode. if name = Unknown then None else Some 0),
      mcrypt_enc_get_iv_size = (\<lambda>t. 1), mcrypt_enc_get_key_size = (\<lambda>t. 1),
      mcrypt_generic_init = (\<lambda>t k n iv. hd iv),
      mcrypt_generic = (\<lambda>t b. (b XOR t, b XOR t)),
      mdecrypt_generic = (\<lambda>t c. (c XOR t, c)),
      mcrypt_enc_get_state = (\<lambda>t. [t]),
      mcrypt_enc_set_state = (\<lambda>t s. hd s)\<rparr>"

lemma feedback_cipher_stream: "stream_cipher (mcrypt_generic feedback_cipher) (mdecrypt_generic feedback_cipher)"
  by unfold_locales (simp add: feedback_cipher_def xor.assoc)

section \<open>Properties\<close>

text \<open>C11: Decrypting an encrypted buffer with the crypt instance in the state the encryption started
  from gives the buffer back, and leaves the instance in the state the encryption left; for the
  methods of libmcrypt this needs that its byte operations are inverse to each other.\<close>

theorem decrypt_encrypt_buffer:
  assumes "m \<notin> {ENCRYPT_NONE, ENCRYPT_XOR} \<Longrightarrow> stream_cipher (mcrypt_generic lib) (mdecrypt_generic lib)"
    and enc: "encrypt_buffer lib buf n pw m CI = Some (c, CI')"
  shows "decrypt_buffer lib c n pw m CI = Some (buf, CI')"
proof (cases "CI = None \<or> m = ENCRYPT_NONE")
  case True
  with enc show ?thesis
    by (auto simp: encrypt_buffer_def decrypt_buffer_def split: option.splits)
next
  case False
  then obtain ci where ci: "CI = Some ci" "m \<noteq> ENCRYPT_NONE" by auto
  show ?thesis
  proof (cases "m = ENCRYPT_XOR")
    case True
    with enc ci show ?thesis
      by (auto simp: encrypt_buffer_xor decrypt_buffer_xor take_append_drop_same drop_append_drop_same
          simp del: take_append drop_append)
  next
    case False
    then have cipher: "stream_cipher (mcrypt_generic lib) (mdecrypt_generic lib)"
      using assms(1) ci by simp
    from enc ci False obtain t where t: "td ci = Some t"
      and c: "c = fst (crypt_bytes (mcrypt_generic lib) t (take n buf)) @ drop n buf"
      and ci': "CI' = Some (ci\<lparr>td := Some (snd (crypt_bytes (mcrypt_generic lib) t (take n buf)))\<rparr>)"
      by (auto simp: encrypt_buffer_def Let_def case_prod_beta split: option.splits)
    then show ?thesis
      using ci False stream_cipher.crypt_bytes_inverse [OF cipher, of t "take n buf"]
      by (simp add: decrypt_buffer_def take_append_drop_same drop_append_drop_same
          del: take_append drop_append)
  qed
qed


lemma decrypt_encrypt_buffer_witness:
  "\<exists>c CI'. encrypt_buffer feedback_cipher [1, 2, 3] 3 ''pw'' 3
       (Some \<lparr>transmitted_iv = [7], td = Some 7, key = None, IV = Some [7], blocksize = 1, keysize = 1,
          mcrypt_algorithm = Some MCRYPT_3DES, mcrypt_mode = Some ''cfb'', iv_size = 1\<rparr>) = Some (c, CI')
     \<and> c = [6, 4, 7] \<and> decrypt_buffer feedback_cipher c 3 ''pw'' 3
       (Some \<lparr>transmitted_iv = [7], td = Some 7, key = None, IV = Some [7], blocksize = 1, keysize = 1,
          mcrypt_algorithm = Some MCRYPT_3DES, mcrypt_mode = Some ''cfb'', iv_size = 1\<rparr>) = Some ([1, 2, 3], CI')"
  (is "\<exists>c CI'. ?enc = Some (c, CI') \<and> _ \<and> _")
proof -
  obtain c CI' where e: "?enc = Some (c, CI')" and c: "c = [6, 4, 7]"
    by (simp add: encrypt_buffer_def nsca_consts feedback_cipher_def)
  from decrypt_encrypt_buffer [OF feedback_cipher_stream e] e c show ?thesis by blast
qed

text \<open>The exclusive-or method changes byte \<open>i\<close> of the first \<open>n\<close> bytes by the IV's byte at
  \<open>i\<close> modulo 128 and by the password's byte at \<open>i\<close> modulo its length (an empty password changes
  nothing), and leaves the rest alone.\<close>

theorem decrypt_buffer_xor_bytes:
  assumes "decrypt_buffer lib buf n pw ENCRYPT_XOR (Some ci) = Some (out, CI')" "i < length buf"
  shows "out ! i = (if i < n then buf ! i XOR transmitted_iv ci ! (i mod 128) XOR password_byte pw i
                    else buf ! i)"
  using assms xor_buffer_nth [of i "take n buf" "transmitted_iv ci" pw]
  by (auto simp: decrypt_buffer_xor nth_append TRANSMITTED_IV_SIZE_def min_def)

lemma decrypt_buffer_xor_bytes_witness:
  "case decrypt_buffer feedback_cipher [1, 2] 1 ''b'' ENCRYPT_XOR
       (Some \<lparr>transmitted_iv = replicate 128 4, td = None, key = None, IV = None, blocksize = 1,
          keysize = 7, mcrypt_algorithm = None, mcrypt_mode = None, iv_size = 0\<rparr>) of
     None \<Rightarrow> False | Some (out, _) \<Rightarrow> out ! 0 = 1 XOR 4 XOR password_byte ''b'' 0 \<and> out ! 1 = 2"
  (is "case ?d of None \<Rightarrow> False | Some (out, _) \<Rightarrow> _ out")
proof -
  obtain out CI' where d: "?d = Some (out, CI')" by (simp add: decrypt_buffer_xor)
  show ?thesis
    using decrypt_buffer_xor_bytes [OF d, of 0] decrypt_buffer_xor_bytes [OF d, of 1] d by simp
qed

text \<open>\<open>encrypt_init\<close> succeeds exactly when the instance can be allocated and the method is one
  of the two built in, or libmcrypt has the algorithm, its IV is not longer than the transmitted
  one, and the two buffers can be allocated.\<close>

theorem encrypt_init_ok_iff:
  "fst (encrypt_init lib mem pw m iv r) = OK \<longleftrightarrow>
     mem Alloc_CI \<and> (m = ENCRYPT_NONE \<or> m = ENCRYPT_XOR
       \<or> (\<exists>t. mcrypt_module_open lib (mcrypt_algorithm_name m) ''cfb'' = Some t
            \<and> mcrypt_enc_get_iv_size lib t \<le> TRANSMITTED_IV_SIZE \<and> mem Alloc_IV \<and> mem Alloc_key))"
  by (auto simp: encrypt_init_def Let_def case_prod_beta OK_def ERROR_def split: option.split)

text \<open>
  An instance that \<open>encrypt_init\<close> made can be cleaned up when the call succeeded; when the cipher
  could not be opened it cannot.
\<close>

lemma encrypt_cleanup_after_init:
  "encrypt_init lib mem pw m iv r = (OK, CIp, r') \<Longrightarrow> encrypt_cleanup initialized m CIp \<noteq> None"
  by (auto simp: encrypt_init_def encrypt_cleanup_def Let_def case_prod_beta nsca_consts
      split: option.splits if_splits)

lemma encrypt_init_unopened:
  assumes "mcrypt_module_open lib (mcrypt_algorithm_name m) ''cfb'' = None"
    and "m \<noteq> ENCRYPT_NONE" "m \<noteq> ENCRYPT_XOR" "mem Alloc_CI"
    and "encrypt_init lib mem pw m iv r = (rc, CIp, r')"
  obtains ci where "rc = ERROR" "CIp = Some ci" "td ci = None" "IV ci = None"
    "encrypt_cleanup initialized m CIp = None"
  using assms by (auto simp: encrypt_init_def encrypt_cleanup_def Let_def case_prod_beta)

text \<open>The methods that \<open>nsca_common.h\<close> marks as unused have no algorithm.\<close>

lemma unused_methods:
  "m \<in> {13, 17, 18, 21} \<Longrightarrow> mcrypt_algorithm_name m = Unknown"
  by (auto simp: mcrypt_algorithm_name_def nsca_consts)

end
