(* ===== verification/Nsca_Crc32.thy ===== *)
theory Nsca_Crc32
  imports Nsca_Prelude
begin

text \<open>
  The checksum of \<open>nsca_utils.cpp\<close>: \<open>generate_crc32_table\<close> and \<open>calculate_crc32\<close> on 64-bit
  \<open>unsigned long\<close> values, as the code has them; a bit-serial CRC-32 on 32-bit words as their
  specification; the equivalence of the two; and the error detection the packet check relies on
  (a change confined to four consecutive bytes always changes the checksum).
\<close>

section \<open>The code\<close>

definition crc_poly :: u64 where
  "crc_poly = 0xEDB88320"

text \<open>The body of the inner loop of \<open>generate_crc32_table\<close>, and the loop \<open>for (j = 8; j > 0; j--)\<close>.\<close>

definition crc_shift :: "u64 \<Rightarrow> u64" where
  "crc_shift crc =
     (if crc AND 1 \<noteq> 0 then drop_bit 1 crc XOR crc_poly else drop_bit 1 crc)"

primrec crc_loop :: "nat \<Rightarrow> u64 \<Rightarrow> u64" where
  "crc_loop 0 crc = crc"
| "crc_loop (Suc j) crc = crc_loop j (crc_shift crc)"

definition generate_crc32_table :: "u64 list" where
  "generate_crc32_table = map (\<lambda>i. crc_loop 8 (word_of_nat i)) [0..<256]"

text \<open>
  One iteration of \<open>calculate_crc32\<close>. \<open>char\<close> is signed, so \<open>this_char\<close> is the sign extension of
  the byte; it is widened to \<open>unsigned long\<close> by the exclusive or.
\<close>

definition crc_step :: "u64 list \<Rightarrow> u64 \<Rightarrow> byte \<Rightarrow> u64" where
  "crc_step crc32_table crc c =
     (let this_char = (scast c :: u64)
      in (drop_bit 8 crc AND 0x00FFFFFF) XOR
         crc32_table ! unat ((crc XOR this_char) AND 0xFF))"

definition calculate_crc32 :: "u64 list \<Rightarrow> byte list option \<Rightarrow> int \<Rightarrow> u64" where
  "calculate_crc32 crc32_table buffer buffer_size =
     (case buffer of
        None \<Rightarrow> 0
      | Some buf \<Rightarrow>
          foldl (\<lambda>crc current_index. crc_step crc32_table crc (buf ! current_index))
            0xFFFFFFFF [0..<nat buffer_size] XOR 0xFFFFFFFF)"

section \<open>Specification: bit-serial CRC-32\<close>

definition spec_shift :: "u32 \<Rightarrow> u32" where
  "spec_shift c = (if bit c 0 then drop_bit 1 c XOR 0xEDB88320 else drop_bit 1 c)"

text \<open>One input bit enters at the low end of the register.\<close>

definition spec_bit :: "u32 \<Rightarrow> bool \<Rightarrow> u32" where
  "spec_bit c b = spec_shift (c XOR (if b then 1 else 0))"

definition spec_byte :: "u32 \<Rightarrow> byte \<Rightarrow> u32" where
  "spec_byte c b = foldl spec_bit c (map (bit b) [0..<8])"

definition crc32_spec :: "byte list \<Rightarrow> u32" where
  "crc32_spec bs = NOT (foldl spec_byte (NOT 0) bs)"

section \<open>Linearity and injectivity of the register\<close>

lemma bit_0xFF: "bit (0xFF :: 'a::len word) n \<longleftrightarrow> n < LENGTH('a) \<and> n < 8"
proof -
  have "(0xFF :: 'a word) = mask 8" by (simp add: mask_eq_exp_minus_1)
  then show ?thesis by (simp only: bit_mask_iff possible_bit_word)
qed

lemma bit_0xFFFFFF: "bit (0xFFFFFF :: 'a::len word) n \<longleftrightarrow> n < LENGTH('a) \<and> n < 24"
proof -
  have "(0xFFFFFF :: 'a word) = mask 24" by (simp add: mask_eq_exp_minus_1)
  then show ?thesis by (simp only: bit_mask_iff possible_bit_word)
qed

lemma and_one_neq_0: "(x :: 'a::len word) AND 1 \<noteq> 0 \<longleftrightarrow> bit x 0"
  by (simp add: bit_0 and_one_eq odd_iff_mod_2_eq_one)

lemma ucast_xor: "(ucast (x XOR y) :: 'b::len word) = ucast x XOR ucast (y :: 'a::len word)"
  by (rule bit_word_eqI) (auto simp: bit_simps)

lemma spec_shift_xor: "spec_shift (x XOR y) = spec_shift x XOR spec_shift y"
  by (rule bit_word_eqI) (auto simp: spec_shift_def bit_simps)

lemma spec_shift_0 [simp]: "spec_shift 0 = 0"
  by (simp add: spec_shift_def)

lemma bit_31_poly: "bit (0xEDB88320 :: u32) 31"
  by (simp add: bit_numeral_rec)

lemma spec_shift_eq_0: "spec_shift x = 0 \<Longrightarrow> x = 0"
proof -
  assume z: "spec_shift x = 0"
  have "\<not> bit x 0"
  proof
    assume b: "bit x 0"
    have "bit (spec_shift x) 31" using b bit_31_poly
      by (auto simp: spec_shift_def bit_simps dest: bit_imp_le_length)
    with z show False by simp
  qed
  then have e: "\<not> bit x 0" "drop_bit 1 x = 0" using z by (auto simp: spec_shift_def)
  show "x = 0"
  proof (rule bit_word_eqI)
    fix n assume "n < LENGTH(32)"
    show "bit x n = bit (0 :: u32) n"
    proof (cases n)
      case 0
      with e show ?thesis by simp
    next
      case (Suc m)
      have "bit (drop_bit 1 x) m = bit x n" using Suc by (simp add: bit_simps)
      with e show ?thesis by simp
    qed
  qed
qed

abbreviation spec_shifts :: "nat \<Rightarrow> u32 \<Rightarrow> u32" where
  "spec_shifts n \<equiv> spec_shift ^^ n"

lemma spec_shifts_xor: "spec_shifts n (x XOR y) = spec_shifts n x XOR spec_shifts n y"
  by (induction n) (simp_all add: spec_shift_xor)

lemma spec_shifts_0 [simp]: "spec_shifts n 0 = 0"
  by (induction n) simp_all

lemma spec_shifts_eq_0: "spec_shifts n x = 0 \<Longrightarrow> x = 0"
  by (induction n) (auto dest: spec_shift_eq_0)

text \<open>A register whose low bits are zero is only shifted.\<close>

lemma spec_shifts_low: "(\<forall>i < n. \<not> bit x i) \<Longrightarrow> spec_shifts n x = drop_bit n x"
proof (induction n)
  case 0
  then show ?case by simp
next
  case (Suc n)
  then have "spec_shifts n x = drop_bit n x" and "\<not> bit x n" by auto
  then have "spec_shifts (Suc n) x = drop_bit 1 (drop_bit n x)"
    by (simp add: spec_shift_def bit_simps)
  then show ?case by (simp add: drop_bit_drop_bit)
qed

text \<open>Eight bits entered one by one are one exclusive or followed by eight shifts.\<close>

definition low_bit :: "nat \<Rightarrow> bool \<Rightarrow> u32" where
  "low_bit n b = (if b then push_bit n 1 else 0)"

lemma spec_shifts_low_bit: "n < 32 \<Longrightarrow> spec_shifts n (low_bit n b) = (if b then 1 else 0)"
proof -
  assume n: "n < 32"
  have "spec_shifts n (low_bit n b) = drop_bit n (low_bit n b)"
    by (rule spec_shifts_low) (auto simp: low_bit_def bit_simps)
  also have "\<dots> = (if b then 1 else 0)"
    using n by (auto intro!: bit_word_eqI simp: low_bit_def bit_simps)
  finally show ?thesis .
qed

lemma take_bit_ucast_Suc:
  "n < 8 \<Longrightarrow> take_bit (Suc n) (ucast (b :: byte) :: u32) = take_bit n (ucast b) XOR low_bit n (bit b n)"
  by (rule bit_word_eqI) (auto simp: low_bit_def bit_simps less_Suc_eq)

lemma foldl_spec_bit:
  "n \<le> 8 \<Longrightarrow> foldl spec_bit c (map (bit (b :: byte)) [0..<n]) = spec_shifts n (c XOR take_bit n (ucast b))"
proof (induction n)
  case 0
  then show ?case by simp
next
  case (Suc n)
  then have "foldl spec_bit c (map (bit b) [0..<n]) = spec_shifts n (c XOR take_bit n (ucast b))"
    by simp
  then have "foldl spec_bit c (map (bit b) [0..<Suc n])
      = spec_shift (spec_shifts n (c XOR take_bit n (ucast b)) XOR spec_shifts n (low_bit n (bit b n)))"
    using Suc.prems by (simp add: spec_bit_def spec_shifts_low_bit)
  also have "\<dots> = spec_shifts (Suc n) (c XOR take_bit (Suc n) (ucast b))"
    using Suc.prems by (simp add: take_bit_ucast_Suc xor.assoc flip: spec_shifts_xor)
  finally show ?case .
qed

lemma spec_byte_shifts: "spec_byte c b = spec_shifts 8 (c XOR ucast b)"
proof -
  have "take_bit 8 (ucast b :: u32) = ucast b"
    by (rule bit_word_eqI) (auto simp: bit_simps dest: bit_imp_le_length)
  then show ?thesis by (simp add: spec_byte_def foldl_spec_bit)
qed

lemma spec_byte_xor: "spec_byte (c XOR d) (b XOR e) = spec_byte c b XOR spec_byte d e"
proof -
  have "(c XOR d) XOR (ucast b XOR ucast e) = (c XOR ucast b) XOR (d XOR (ucast e :: u32))"
    by (simp add: xor.assoc xor.left_commute)
  then show ?thesis by (simp add: spec_byte_shifts ucast_xor spec_shifts_xor)
qed

lemma spec_byte_eq_0: "spec_byte c 0 = 0 \<Longrightarrow> c = 0"
  by (auto simp: spec_byte_shifts dest: spec_shifts_eq_0)

section \<open>The table-driven code meets the specification\<close>

lemma crc_shift_ucast: "crc_shift (ucast c) = ucast (spec_shift c)"
proof -
  have "((ucast c :: u64) AND 1 \<noteq> 0) = bit c 0"
    by (simp add: and_one_neq_0 bit_simps)
  moreover have "drop_bit 1 (ucast c :: u64) = ucast (drop_bit 1 c)"
    by (rule bit_word_eqI) (auto simp: bit_simps dest: bit_imp_le_length)
  moreover have "crc_poly = ucast (0xEDB88320 :: u32)" by (simp add: crc_poly_def)
  ultimately show ?thesis by (simp add: crc_shift_def spec_shift_def ucast_xor)
qed

lemma crc_loop_ucast: "crc_loop j (ucast c) = ucast (spec_shifts j c)"
  by (induction j arbitrary: c) (simp_all add: crc_shift_ucast funpow_swap1)

lemma generate_crc32_table_nth:
  "i < 256 \<Longrightarrow> generate_crc32_table ! i = ucast (spec_shifts 8 (word_of_nat i))"
proof -
  assume i: "i < 256"
  then have "(word_of_nat i :: u64) = ucast (word_of_nat i :: u32)"
    by (simp add: unsigned_of_nat take_bit_nat_eq_self)
  with i show ?thesis by (simp add: generate_crc32_table_def crc_loop_ucast)
qed

lemma length_generate_crc32_table [simp]: "length generate_crc32_table = 256"
  by (simp add: generate_crc32_table_def)

text \<open>The low byte of the register selects the table entry; the rest is only shifted.\<close>

lemma spec_byte_split:
  "spec_byte c b = drop_bit 8 c XOR spec_shifts 8 ((c XOR ucast b) AND 0xFF)"
proof -
  let ?x = "c XOR (ucast b :: u32)"
  have "?x = (?x AND NOT 0xFF) XOR (?x AND 0xFF)"
    by (rule bit_word_eqI) (simp add: bit_simps bit_0xFF, blast)
  then have "spec_byte c b = spec_shifts 8 (?x AND NOT 0xFF) XOR spec_shifts 8 (?x AND 0xFF)"
    unfolding spec_byte_shifts by (metis spec_shifts_xor)
  moreover have "spec_shifts 8 (?x AND NOT 0xFF) = drop_bit 8 (?x AND NOT 0xFF)"
    by (rule spec_shifts_low) (simp only: bit_and_iff bit_not_iff bit_0xFF, simp)
  moreover have "drop_bit 8 (?x AND NOT 0xFF) = drop_bit 8 c"
    by (rule bit_word_eqI)
      (simp only: bit_drop_bit_eq bit_and_iff bit_xor_iff bit_not_iff bit_0xFF bit_unsigned_iff o_def,
        auto dest: bit_imp_le_length)
  ultimately show ?thesis by simp
qed

lemma table_index:
  "((ucast c :: u64) XOR scast (b :: byte)) AND 0xFF = ucast ((c XOR ucast b) AND 0xFF :: u32)"
proof (rule bit_word_eqI)
  fix n assume "n < LENGTH(64)"
  show "bit (((ucast c :: u64) XOR scast b) AND 0xFF) n
      = bit (ucast ((c XOR ucast b) AND 0xFF :: u32) :: u64) n"
  proof (cases "n < 8")
    case True
    then have "min (LENGTH(8) - 1) n = n" by simp
    with True show ?thesis by (simp add: bit_simps bit_0xFF bit_signed_iff)
  next
    case False
    then show ?thesis by (simp only: bit_and_iff bit_0xFF bit_unsigned_iff) simp
  qed
qed

lemma drop_bit_8_masked: "drop_bit 8 (ucast (c :: u32) :: u64) AND 0x00FFFFFF = ucast (drop_bit 8 c)"
proof (rule bit_word_eqI)
  fix n assume "n < LENGTH(64)"
  moreover have "bit c (8 + n) \<Longrightarrow> n < 24" using bit_imp_le_length [of c "8 + n"] by simp
  ultimately show "bit (drop_bit 8 (ucast c :: u64) AND 0x00FFFFFF) n = bit (ucast (drop_bit 8 c) :: u64) n"
    by (simp only: bit_and_iff bit_0xFFFFFF) (auto simp: bit_simps)
qed

lemma crc_step_spec:
  "crc_step generate_crc32_table (ucast c) b = ucast (spec_byte c b)"
proof -
  let ?i = "(c XOR ucast b) AND 0xFF :: u32"
  have "?i = take_bit 8 ?i"
    by (rule bit_word_eqI) (auto simp only: bit_and_iff bit_take_bit_iff bit_0xFF)
  then have "unat ?i = unat (take_bit 8 ?i)" by (rule arg_cong)
  then have "unat ?i = take_bit 8 (unat ?i)" by (simp only: unsigned_take_bit_eq)
  then have i: "unat ?i < 256" using take_bit_nat_less_exp [of 8 "unat ?i"] by simp
  have "generate_crc32_table ! unat ?i = ucast (spec_shifts 8 ?i)"
    using generate_crc32_table_nth [OF i] by simp
  moreover have "drop_bit 8 (ucast c :: u64) AND 0x00FFFFFF = ucast (drop_bit 8 c)"
    by (rule drop_bit_8_masked)
  moreover have "unat (ucast ?i :: u64) = unat ?i"
    using i by (simp add: unsigned_ucast_eq take_bit_nat_eq_self)
  ultimately show ?thesis
    by (simp add: crc_step_def Let_def table_index spec_byte_split ucast_xor)
qed

lemma foldl_crc_step:
  "foldl (crc_step generate_crc32_table) (ucast c) bs = ucast (foldl spec_byte c bs)"
  by (induction bs arbitrary: c) (simp_all add: crc_step_spec)

lemma calculate_crc32_foldl:
  "n \<le> length buf \<Longrightarrow>
   calculate_crc32 generate_crc32_table (Some buf) (int n) = ucast (crc32_spec (take n buf))"
proof -
  assume n: "n \<le> length buf"
  have "(NOT 0 :: u32) = 0xFFFFFFFF" by simp
  then have "(0xFFFFFFFF :: u64) = ucast (NOT 0 :: u32)" by (simp only:) simp
  then have "calculate_crc32 generate_crc32_table (Some buf) (int n)
      = ucast (foldl spec_byte (NOT 0) (take n buf)) XOR ucast (NOT 0 :: u32)"
    using n by (simp only: calculate_crc32_def option.case nat_int foldl_nth_take foldl_crc_step)
  also have "\<dots> = ucast (crc32_spec (take n buf))"
    by (simp add: crc32_spec_def flip: ucast_xor)
  finally show ?thesis .
qed

text \<open>The checksum fits in 32 bits, although the code computes it in an \<open>unsigned long\<close>.\<close>

lemma ucast_ucast_same: "ucast (ucast (w :: u32) :: u64) = w"
  by (rule bit_word_eqI) (auto simp: bit_simps)

section \<open>Error detection\<close>

lemma foldl_spec_byte_xor:
  "length bs = length es \<Longrightarrow>
   foldl spec_byte (c XOR d) (map2 (XOR) bs es) = foldl spec_byte c bs XOR foldl spec_byte d es"
  by (induction bs es arbitrary: c d rule: list_induct2) (simp_all add: spec_byte_xor)

lemma foldl_spec_byte_zeros: "foldl spec_byte c (replicate n 0) = 0 \<Longrightarrow> c = 0"
  by (induction n arbitrary: c) (auto dest: spec_byte_eq_0)

lemma foldl_spec_byte_zero: "foldl spec_byte 0 (replicate n 0) = 0"
  by (induction n) (simp_all add: spec_byte_shifts)

text \<open>Up to four bytes entering an empty register are their little-endian word, shifted through.\<close>

primrec pack :: "byte list \<Rightarrow> u32" where
  "pack [] = 0"
| "pack (b # bs) = ucast b XOR push_bit 8 (pack bs)"

lemma bit_pack: "bit (pack bs) i \<Longrightarrow> i < 8 * length bs"
proof (induction bs arbitrary: i)
  case Nil
  then show ?case by simp
next
  case (Cons b bs)
  from Cons.prems consider "bit (ucast b :: u32) i" | "bit (push_bit 8 (pack bs)) i"
    by (auto simp: bit_xor_iff)
  then show ?case
  proof cases
    case 1
    then show ?thesis by (auto simp: bit_simps dest: bit_imp_le_length)
  next
    case 2
    then have "8 \<le> i" and "bit (pack bs) (i - 8)" by (auto simp: bit_simps)
    with Cons.IH [of "i - 8"] show ?thesis by simp
  qed
qed

lemma foldl_spec_byte_pack:
  "length ds \<le> 4 \<Longrightarrow> foldl spec_byte c ds = spec_shifts (8 * length ds) (c XOR pack ds)"
proof (induction ds arbitrary: c)
  case Nil
  then show ?case by simp
next
  case (Cons d ds)
  have lo: "spec_shifts 8 (push_bit 8 (pack ds)) = drop_bit 8 (push_bit 8 (pack ds))"
    by (rule spec_shifts_low) (simp add: bit_simps)
  also have "\<dots> = pack ds"
    using Cons.prems bit_pack [of ds] by (fastforce intro: bit_word_eqI simp: bit_simps)
  finally have "foldl spec_byte c (d # ds)
      = spec_shifts (8 * length ds) (spec_shifts 8 (c XOR ucast d) XOR spec_shifts 8 (push_bit 8 (pack ds)))"
    using Cons.IH Cons.prems spec_byte_shifts [of c d] by simp
  also have "\<dots> = spec_shifts (8 * length ds) (spec_shifts 8 (c XOR pack (d # ds)))"
    by (simp add: xor.assoc flip: spec_shifts_xor)
  also have "\<dots> = spec_shifts (8 * length (d # ds)) (c XOR pack (d # ds))"
    by (simp add: add.commute flip: funpow_add [THEN fun_cong, unfolded o_def])
  finally show ?case .
qed

lemma pack_eq_0: "length ds \<le> 4 \<Longrightarrow> pack ds = 0 \<Longrightarrow> ds = replicate (length ds) 0"
proof (induction ds)
  case Nil
  then show ?case by simp
next
  case (Cons d ds)
  have e: "(ucast d :: u32) = push_bit 8 (pack ds)"
    using Cons.prems(2) by (simp add: word_xor_eq_0)
  have "d = 0"
  proof (rule bit_word_eqI)
    fix i assume i: "i < LENGTH(8)"
    then have "bit d i = bit (ucast d :: u32) i" by (simp add: bit_simps)
    with i show "bit d i = bit (0 :: byte) i" unfolding e by (simp add: bit_simps)
  qed
  moreover from this have p: "push_bit 8 (pack ds) = 0" using Cons.prems by simp
  have "pack ds = 0"
  proof (rule bit_word_eqI)
    fix i assume "i < LENGTH(32)"
    have "\<not> bit (push_bit 8 (pack ds)) (i + 8)" using p by simp
    then show "bit (pack ds) i = bit (0 :: u32) i"
      using Cons.prems(1) bit_pack [of ds i] by (auto simp: bit_simps)
  qed
  ultimately show ?case using Cons by simp
qed

lemma map2_xor_eq_0:
  "length bs = length cs \<Longrightarrow> map2 (XOR) bs cs = replicate n 0 \<Longrightarrow> bs = (cs :: 'a::len word list)"
  by (induction bs cs arbitrary: n rule: list_induct2) (auto simp: Cons_replicate_eq word_xor_eq_0)

lemma map2_xor_self: "map2 (XOR) bs bs = replicate (length bs) (0 :: 'a::len word)"
  by (induction bs) simp_all

lemma crc32_spec_burst:
  assumes "length w = length w'" "length w \<le> 4" "w \<noteq> w'"
  shows "crc32_spec (p @ w @ s) \<noteq> crc32_spec (p @ w' @ s)"
proof
  assume eq: "crc32_spec (p @ w @ s) = crc32_spec (p @ w' @ s)"
  let ?d = "map2 (XOR) w w'"
  have "foldl spec_byte (NOT 0) (p @ w @ s) = foldl spec_byte (NOT 0) (p @ w' @ s)"
    using eq by (simp add: crc32_spec_def)
  moreover have "foldl spec_byte (NOT 0 XOR NOT 0) (map2 (XOR) (p @ w @ s) (p @ w' @ s))
      = foldl spec_byte (NOT 0) (p @ w @ s) XOR foldl spec_byte (NOT 0) (p @ w' @ s)"
    using assms(1) by (intro foldl_spec_byte_xor) simp
  ultimately have "foldl spec_byte 0 (replicate (length p) 0 @ ?d @ replicate (length s) 0) = 0"
    using assms(1) by (simp add: map2_xor_self)
  then have "foldl spec_byte 0 ?d = 0"
    by (simp add: foldl_spec_byte_zero) (rule foldl_spec_byte_zeros)
  then have "pack ?d = 0"
    using assms(1,2) by (simp add: foldl_spec_byte_pack) (rule spec_shifts_eq_0)
  then have "?d = replicate (length ?d) 0" using assms(1,2) by (intro pack_eq_0) simp
  then show False using assms(1,3) map2_xor_eq_0 by blast
qed

section \<open>Properties\<close>

text \<open>C12: The table-driven routine on 64-bit words computes the bit-serial CRC-32 of the first
  \<open>n\<close> bytes, widened to 64 bits with zeros, although it sign-extends every byte.\<close>

theorem crc32_code_refines_spec:
  assumes "n \<le> length buf"
  shows "calculate_crc32 generate_crc32_table (Some buf) (int n) = ucast (crc32_spec (take n buf))
    \<and> drop_bit 32 (calculate_crc32 generate_crc32_table (Some buf) (int n)) = 0"
  using assms
  by (simp add: calculate_crc32_foldl, intro bit_word_eqI) (auto simp: bit_simps dest: bit_imp_le_length)

lemma crc32_code_refines_spec_witness:
  "calculate_crc32 generate_crc32_table (Some [0x31, 0x32, 0x33, 0x34, 0x35, 0x36, 0x37, 0x38, 0x39]) 9
     = 0xCBF43926"
proof -
  have "crc32_spec [0x31, 0x32, 0x33, 0x34, 0x35, 0x36, 0x37, 0x38, 0x39] = 0xCBF43926" by code_simp
  then show ?thesis
    using crc32_code_refines_spec [of 9 "[0x31, 0x32, 0x33, 0x34, 0x35, 0x36, 0x37, 0x38, 0x39]"] by simp
qed

text \<open>A change confined to at most four neighbouring bytes changes the checksum the code
  computes.\<close>

theorem crc32_code_detects_burst:
  assumes "length w = length w'" "length w \<le> 4" "w \<noteq> w'"
  shows "calculate_crc32 generate_crc32_table (Some (p @ w @ s)) (int (length (p @ w @ s)))
       \<noteq> calculate_crc32 generate_crc32_table (Some (p @ w' @ s)) (int (length (p @ w' @ s)))"
proof -
  have inj: "(ucast (a :: u32) :: u64) = ucast b \<Longrightarrow> a = b" for a b
    by (metis ucast_ucast_same)
  show ?thesis
    using crc32_spec_burst [OF assms, of p s] inj
      calculate_crc32_foldl [of "length (p @ w @ s)" "p @ w @ s"]
      calculate_crc32_foldl [of "length (p @ w' @ s)" "p @ w' @ s"] by auto
qed

lemma crc32_code_detects_burst_witness:
  "calculate_crc32 generate_crc32_table (Some [7, 1, 2, 3, 4, 9]) 6
     \<noteq> calculate_crc32 generate_crc32_table (Some [7, 5, 2, 3, 6, 9]) 6"
  using crc32_code_detects_burst [of "[1, 2, 3, 4]" "[5, 2, 3, 6]" "[7]" "[9]"] by simp

end
