(* ===== verification/Nsca_Packet.thy ===== *)
theory Nsca_Packet
  imports Nsca_Crc32
begin

text \<open>
  The packet of \<open>nsca_common.h\<close>: its constants, the layout of \<open>struct data_packet_struct\<close> on
  the x86-64 ABI (the two 32-bit fields are aligned to 4, so two bytes of padding follow the
  version and two follow the output), access to the fields of a packet that lies in a byte
  buffer, and the codec between such a buffer and the record of its fields.
\<close>

section \<open>Constants and layout\<close>

definition MAX_HOSTNAME_LENGTH :: nat where [nsca_consts]: "MAX_HOSTNAME_LENGTH = 64"
definition MAX_DESCRIPTION_LENGTH :: nat where [nsca_consts]: "MAX_DESCRIPTION_LENGTH = 128"
definition MAX_PLUGINOUTPUT_LENGTH :: nat where [nsca_consts]: "MAX_PLUGINOUTPUT_LENGTH = 4096"
definition OLD_PLUGINOUTPUT_LENGTH :: nat where [nsca_consts]: "OLD_PLUGINOUTPUT_LENGTH = 512"
definition NSCA_PACKET_VERSION_3 :: u16 where [nsca_consts]: "NSCA_PACKET_VERSION_3 = 3"

text \<open>Offsets of the members, and \<open>sizeof (data_packet)\<close>.\<close>

definition off_version :: nat where [nsca_consts]: "off_version = 0"
definition off_crc32 :: nat where [nsca_consts]: "off_crc32 = 4"
definition off_timestamp :: nat where [nsca_consts]: "off_timestamp = 8"
definition off_return_code :: nat where [nsca_consts]: "off_return_code = 12"
definition off_host :: nat where [nsca_consts]: "off_host = 14"
definition off_svc :: nat where [nsca_consts]: "off_svc = off_host + MAX_HOSTNAME_LENGTH"
definition off_output :: nat where [nsca_consts]: "off_output = off_svc + MAX_DESCRIPTION_LENGTH"
definition sizeof_data_packet :: nat where [nsca_consts]:
  "sizeof_data_packet = off_output + MAX_PLUGINOUTPUT_LENGTH + 2"

definition OLD_PACKET_LENGTH :: nat where [nsca_consts]:
  "OLD_PACKET_LENGTH = sizeof_data_packet - (MAX_PLUGINOUTPUT_LENGTH - OLD_PLUGINOUTPUT_LENGTH)"

lemma sizeof_data_packet_value: "sizeof_data_packet = 4304"
  by (simp add: nsca_consts)

lemma OLD_PACKET_LENGTH_value: "OLD_PACKET_LENGTH = 720"
  by (simp add: nsca_consts)

text \<open>The members, in host byte order.\<close>

record data_packet =
  packet_version :: u16
  crc32_value :: u32
  timestamp :: u32
  return_code :: u16
  host_name :: "byte list"
  svc_description :: "byte list"
  plugin_output :: "byte list"

definition packet_wf :: "data_packet \<Rightarrow> bool" where
  "packet_wf p \<longleftrightarrow> length (host_name p) = MAX_HOSTNAME_LENGTH
     \<and> length (svc_description p) = MAX_DESCRIPTION_LENGTH
     \<and> length (plugin_output p) = MAX_PLUGINOUTPUT_LENGTH"

section \<open>Members of a packet in a buffer\<close>

text \<open>\<open>ntohs\<close> and \<open>ntohl\<close> of a member: the bytes are read most significant first.\<close>

definition be16 :: "byte list \<Rightarrow> nat \<Rightarrow> u16" where
  "be16 bs i = push_bit 8 (ucast (bs ! i)) OR ucast (bs ! (i + 1))"

definition be32 :: "byte list \<Rightarrow> nat \<Rightarrow> u32" where
  "be32 bs i = push_bit 24 (ucast (bs ! i)) OR push_bit 16 (ucast (bs ! (i + 1)))
     OR push_bit 8 (ucast (bs ! (i + 2))) OR ucast (bs ! (i + 3))"

definition field_at :: "nat \<Rightarrow> nat \<Rightarrow> 'a list \<Rightarrow> 'a list" where
  "field_at i n xs = take n (drop i xs)"

definition packet_of_bytes :: "byte list \<Rightarrow> data_packet" where
  "packet_of_bytes bs =
     \<lparr>packet_version = be16 bs off_version, crc32_value = be32 bs off_crc32,
      timestamp = be32 bs off_timestamp, return_code = be16 bs off_return_code,
      host_name = field_at off_host MAX_HOSTNAME_LENGTH bs,
      svc_description = field_at off_svc MAX_DESCRIPTION_LENGTH bs,
      plugin_output = field_at off_output MAX_PLUGINOUTPUT_LENGTH bs\<rparr>"

text \<open>\<open>receive_packet->crc32_value = 0L\<close>.\<close>

definition clear_crc32 :: "byte list \<Rightarrow> byte list" where
  "clear_crc32 bs = take off_crc32 bs @ replicate 4 0 @ drop (off_crc32 + 4) bs"

lemma length_clear_crc32 [simp]: "8 \<le> length bs \<Longrightarrow> length (clear_crc32 bs) = length bs"
  by (simp add: clear_crc32_def nsca_consts)

section \<open>The sender's side\<close>

text \<open>
  What a \<open>send_nsca\<close> client puts on the wire: the encoding of the record, with the checksum of
  the packet (taken while the checksum member is zero) stored in it. These definitions belong to
  the specification; the repository holds only the receiver.
\<close>

definition to_be16 :: "u16 \<Rightarrow> byte list" where
  "to_be16 w = [ucast (drop_bit 8 w), ucast w]"

definition to_be32 :: "u32 \<Rightarrow> byte list" where
  "to_be32 w = [ucast (drop_bit 24 w), ucast (drop_bit 16 w), ucast (drop_bit 8 w), ucast w]"

text \<open>The packet the server sends first: the IV and its time, in network byte order.\<close>

record init_packet =
  init_iv :: "byte list"
  init_timestamp :: u32

definition bytes_of_init_packet :: "init_packet \<Rightarrow> byte list" where
  "bytes_of_init_packet p = init_iv p @ to_be32 (init_timestamp p)"

definition bytes_of_packet :: "data_packet \<Rightarrow> byte list" where
  "bytes_of_packet p =
     to_be16 (packet_version p) @ [0, 0] @ to_be32 (crc32_value p) @ to_be32 (timestamp p)
     @ to_be16 (return_code p) @ host_name p @ svc_description p @ plugin_output p @ [0, 0]"

definition seal_packet :: "data_packet \<Rightarrow> byte list" where
  "seal_packet p =
     bytes_of_packet (p\<lparr>crc32_value := crc32_spec (bytes_of_packet (p\<lparr>crc32_value := 0\<rparr>))\<rparr>)"

lemma be16_to_be16: "push_bit 8 (ucast (ucast (drop_bit 8 w) :: byte)) OR ucast (ucast w :: byte) = (w :: u16)"
  (is "?l = w")
proof (rule bit_word_eqI)
  fix n assume "n < LENGTH(16)"
  then show "bit ?l n = bit w n"
    by (cases "n < 8") (auto simp: bit_simps)
qed

lemma be32_to_be32:
  "push_bit 24 (ucast (ucast (drop_bit 24 w) :: byte)) OR push_bit 16 (ucast (ucast (drop_bit 16 w) :: byte))
     OR push_bit 8 (ucast (ucast (drop_bit 8 w) :: byte)) OR ucast (ucast w :: byte) = (w :: u32)"
  (is "?l = w")
proof (rule bit_word_eqI)
  fix n assume n: "n < LENGTH(32)"
  consider "n < 8" | "8 \<le> n" "n < 16" | "16 \<le> n" "n < 24" | "24 \<le> n" "n < 32" using n by fastforce
  then show "bit ?l n = bit w n"
    by cases (auto simp: bit_simps)
qed

lemma length_to_be16 [simp]: "length (to_be16 w) = 2"
  by (simp add: to_be16_def)

lemma length_to_be32 [simp]: "length (to_be32 w) = 4"
  by (simp add: to_be32_def)

lemma be16_at: "be16 (xs @ to_be16 w @ ys) (length xs) = w"
  by (simp add: be16_def to_be16_def nth_append be16_to_be16)

lemma be32_at: "be32 (xs @ to_be32 w @ ys) (length xs) = w"
  by (simp add: be32_def to_be32_def nth_append be32_to_be32)

lemma field_at_at: "length ys = n \<Longrightarrow> field_at (length xs) n (xs @ ys @ zs) = ys"
  by (simp add: field_at_def)

lemma length_bytes_of_packet [simp]: "packet_wf p \<Longrightarrow> length (bytes_of_packet p) = sizeof_data_packet"
  by (simp add: bytes_of_packet_def packet_wf_def nsca_consts)

text \<open>Decoding an encoded packet gives the packet back.\<close>

lemma packet_of_bytes_of_packet [simp]:
  assumes "packet_wf p"
  shows "packet_of_bytes (bytes_of_packet p) = p"
proof -
  let ?v = "to_be16 (packet_version p)" and ?c = "to_be32 (crc32_value p)"
  let ?t = "to_be32 (timestamp p)" and ?r = "to_be16 (return_code p)"
  let ?h = "host_name p" and ?s = "svc_description p" and ?o = "plugin_output p"
  let ?bs = "bytes_of_packet p"
  have l: "length ?h = 64" "length ?s = 128" "length ?o = 4096"
    using assms by (simp_all add: packet_wf_def nsca_consts)
  have "be16 ?bs 0 = packet_version p"
    using be16_at [of "[]" "packet_version p"] by (simp add: bytes_of_packet_def)
  moreover have "be32 ?bs 4 = crc32_value p"
    using be32_at [of "?v @ [0, 0]" "crc32_value p"] by (simp add: bytes_of_packet_def)
  moreover have "be32 ?bs 8 = timestamp p"
    using be32_at [of "?v @ [0, 0] @ ?c" "timestamp p"] by (simp add: bytes_of_packet_def)
  moreover have "be16 ?bs 12 = return_code p"
    using be16_at [of "?v @ [0, 0] @ ?c @ ?t" "return_code p"] by (simp add: bytes_of_packet_def)
  moreover have "field_at 14 64 ?bs = ?h"
    using field_at_at [OF l(1), of "?v @ [0, 0] @ ?c @ ?t @ ?r"] by (simp add: bytes_of_packet_def)
  moreover have "field_at 78 128 ?bs = ?s"
    using field_at_at [OF l(2), of "?v @ [0, 0] @ ?c @ ?t @ ?r @ ?h"] l by (simp add: bytes_of_packet_def)
  moreover have "field_at 206 4096 ?bs = ?o"
    using field_at_at [OF l(3), of "?v @ [0, 0] @ ?c @ ?t @ ?r @ ?h @ ?s"] l
    by (simp add: bytes_of_packet_def)
  ultimately show ?thesis by (simp add: packet_of_bytes_def nsca_consts)
qed

lemma packet_wf_crc32 [simp]: "packet_wf (p\<lparr>crc32_value := c\<rparr>) = packet_wf p"
  by (simp add: packet_wf_def)

lemma clear_crc32_bytes_of_packet:
  "clear_crc32 (bytes_of_packet p) = bytes_of_packet (p\<lparr>crc32_value := 0\<rparr>)"
  by (simp add: clear_crc32_def bytes_of_packet_def to_be16_def to_be32_def nsca_consts numeral_eq_Suc)

lemma length_seal_packet [simp]: "packet_wf p \<Longrightarrow> length (seal_packet p) = sizeof_data_packet"
  by (simp add: seal_packet_def)

lemma packet_of_seal_packet:
  "packet_wf p \<Longrightarrow> packet_of_bytes (seal_packet p) =
     p\<lparr>crc32_value := crc32_spec (bytes_of_packet (p\<lparr>crc32_value := 0\<rparr>))\<rparr>"
  by (simp add: seal_packet_def)

lemma clear_crc32_seal_packet: "clear_crc32 (seal_packet p) = bytes_of_packet (p\<lparr>crc32_value := 0\<rparr>)"
  by (simp add: seal_packet_def clear_crc32_bytes_of_packet)

text \<open>The code's checksum of a sealed packet, its checksum member cleared, is the stored one.\<close>

lemma calculate_crc32_seal_packet:
  assumes "packet_wf p"
  shows "ucast (calculate_crc32 generate_crc32_table (Some (clear_crc32 (seal_packet p)))
           (int sizeof_data_packet)) = crc32_value (packet_of_bytes (seal_packet p))"
  using assms
  by (simp add: clear_crc32_seal_packet calculate_crc32_foldl packet_of_seal_packet ucast_ucast_same)

end
