(* ===== verification/Nsca_World.thy ===== *)
theory Nsca_World
  imports Nsca_Packet
begin

text \<open>
  What the program changes outside its own memory: the bytes it has put into the command FIFO,
  the files of the spool directory and the process's file mode mask. The outcomes of system calls
  are inputs of the operations (records named \<open>..._env\<close> in the component theories), so that a
  theorem about an operation holds whatever the system answers.
\<close>

datatype errno = ENXIO | ENOENT | EACCES | EPIPE | EAGAIN | Errno int

record spool_file =
  file_mode :: u32
  file_data :: string

record world =
  pipe :: string
  fs :: "string \<rightharpoonup> spool_file"
  umask :: u32

definition nl :: string where
  "nl = [CHR 0x0A]"

definition newline_free :: "string \<Rightarrow> bool" where
  "newline_free s \<longleftrightarrow> CHR 0x0A \<notin> set s"

lemma length_nl [simp]: "length nl = 1"
  by (simp add: nl_def)

lemma newline_free_append [simp]: "newline_free (s @ t) \<longleftrightarrow> newline_free s \<and> newline_free t"
  by (auto simp: newline_free_def)

lemma newline_free_Nil [simp]: "newline_free []"
  by (simp add: newline_free_def)

lemma newline_free_Cons [simp]: "newline_free (c # s) \<longleftrightarrow> c \<noteq> CHR 0x0A \<and> newline_free s"
  by (auto simp: newline_free_def)

lemma digit_not_newline: "is_digit c \<Longrightarrow> c \<noteq> CHR 0x0A"
  by (auto simp: is_digit_def)

lemma newline_free_show_nat [simp]: "newline_free (show_nat n)"
  using show_nat_digits [of n] digit_not_newline by (auto simp: newline_free_def)

lemma newline_free_show_int [simp]: "newline_free (show_int i)"
  by (simp add: show_int_def)

lemma newline_free_show_ulong [simp]: "newline_free (show_ulong i)"
  by (simp add: show_ulong_def)

text \<open>
  A check result as it is handed to the two back ends: host, service, return code and output.
\<close>

type_synonym check = "string \<times> string \<times> int \<times> string"

text \<open>
  What the members of a packet guarantee of a check: the strings fit their arrays with the NUL
  the code stores in the last place, and the return code is an unsigned 16-bit number. \<open>c_str\<close>
  strings hold no NUL. A check on one line has no newline in its strings.
\<close>

definition check_bounded :: "check \<Rightarrow> bool" where
  "check_bounded = (\<lambda>(h, s, r, out). length h < MAX_HOSTNAME_LENGTH
     \<and> length s < MAX_DESCRIPTION_LENGTH \<and> length out < MAX_PLUGINOUTPUT_LENGTH
     \<and> 0 \<le> r \<and> r < 65536)"

definition check_nul_free :: "check \<Rightarrow> bool" where
  "check_nul_free = (\<lambda>(h, s, r, out). nul_free h \<and> nul_free s \<and> nul_free out)"

definition check_one_line :: "check \<Rightarrow> bool" where
  "check_one_line = (\<lambda>(h, s, r, out). newline_free h \<and> newline_free s \<and> newline_free out)"

lemma length_show_int_u16: "0 \<le> r \<Longrightarrow> r < 65536 \<Longrightarrow> length (show_int r) \<le> 5"
  using length_show_nat [of "nat r" 4] by (simp add: show_int_def)

lemma length_c_str_le: "length (c_str s) \<le> length s"
  by (simp add: c_str_def length_takeWhile_le)

section \<open>The contract of a result back end\<close>

text \<open>
  A back end delivers a check result and answers 0, or answers another code. \<open>emitted\<close> is what
  the monitoring core can see of it. A refused result leaves no trace there.
\<close>

locale result_sink =
  fixes deliver :: "'env \<Rightarrow> check \<Rightarrow> 'st \<Rightarrow> int \<times> 'st"
    and emitted :: "'st \<Rightarrow> 'out"
    and env_ok :: "'env \<Rightarrow> bool"
    and inv :: "'st \<Rightarrow> bool"
  assumes refused: "inv s \<Longrightarrow> env_ok e \<Longrightarrow> fst (deliver e c s) \<noteq> 0 \<Longrightarrow>
      emitted (snd (deliver e c s)) = emitted s"
    and inv_deliver: "inv s \<Longrightarrow> env_ok e \<Longrightarrow> inv (snd (deliver e c s))"
begin

text \<open>A run of deliveries, all of them refused, leaves no trace either.\<close>

fun deliver_all :: "('env \<times> check) list \<Rightarrow> 'st \<Rightarrow> int list \<times> 'st" where
  "deliver_all [] s = ([], s)"
| "deliver_all ((e, c) # ecs) s =
     (let (rc, s') = deliver e c s; (rcs, s'') = deliver_all ecs s' in (rc # rcs, s''))"

lemma deliver_all_refused:
  "inv s \<Longrightarrow> \<forall>(e, c) \<in> set ecs. env_ok e \<Longrightarrow> 0 \<notin> set (fst (deliver_all ecs s)) \<Longrightarrow>
   emitted (snd (deliver_all ecs s)) = emitted s"
proof (induction ecs arbitrary: s)
  case Nil
  then show ?case by simp
next
  case (Cons ec ecs)
  obtain e c where ec: "ec = (e, c)" by (cases ec)
  with Cons.prems have "fst (deliver e c s) \<noteq> 0" "env_ok e"
    by (auto simp: case_prod_beta Let_def)
  with Cons.prems(1) have "emitted (snd (deliver e c s)) = emitted s" "inv (snd (deliver e c s))"
    by (auto simp: refused inv_deliver)
  with Cons.IH [of "snd (deliver e c s)"] Cons.prems ec show ?case
    by (simp add: case_prod_beta Let_def)
qed

end

text \<open>
  Two back ends in the order the code tries them: the second only sees what the first refused.
\<close>

locale fallback_sinks =
  first: result_sink deliver1 emitted1 env_ok1 inv1 +
  second: result_sink deliver2 emitted2 env_ok2 inv2
  for deliver1 :: "'env1 \<Rightarrow> check \<Rightarrow> 'st \<Rightarrow> int \<times> 'st" and emitted1 :: "'st \<Rightarrow> 'out1"
    and env_ok1 inv1
    and deliver2 :: "'env2 \<Rightarrow> check \<Rightarrow> 'st \<Rightarrow> int \<times> 'st" and emitted2 :: "'st \<Rightarrow> 'out2"
    and env_ok2 inv2 +
  assumes emitted1_2: "emitted1 (snd (deliver2 e c s)) = emitted1 s"
    and emitted2_1: "emitted2 (snd (deliver1 e' c s)) = emitted2 s"
    and inv2_1: "inv2 s \<Longrightarrow> inv2 (snd (deliver1 e' c s))"
    and inv1_2: "inv1 s \<Longrightarrow> inv1 (snd (deliver2 e c s))"
begin

definition deliver_either :: "'env1 \<Rightarrow> 'env2 \<Rightarrow> check \<Rightarrow> 'st \<Rightarrow> bool \<times> 'st" where
  "deliver_either e1 e2 c s =
     (let (rc1, s1) = deliver1 e1 c s
      in if rc1 = 0 then (True, s1)
         else let (rc2, s2) = deliver2 e2 c s1 in (rc2 = 0, s2))"

lemma either_failed:
  assumes "inv1 s" "inv2 s" "env_ok1 e1" "env_ok2 e2" "\<not> fst (deliver_either e1 e2 c s)"
  shows "emitted1 (snd (deliver_either e1 e2 c s)) = emitted1 s
       \<and> emitted2 (snd (deliver_either e1 e2 c s)) = emitted2 s"
  using assms first.refused [of s e1 c] second.refused [of "snd (deliver1 e1 c s)" e2 c]
  by (auto simp: deliver_either_def Let_def case_prod_beta emitted1_2 emitted2_1 inv2_1
      split: if_splits)

lemma either_exclusive:
  assumes "inv1 s" "env_ok1 e1"
  shows "emitted1 (snd (deliver_either e1 e2 c s)) = emitted1 s
       \<or> emitted2 (snd (deliver_either e1 e2 c s)) = emitted2 s"
  using assms first.refused [of s e1 c]
  by (auto simp: deliver_either_def Let_def case_prod_beta emitted1_2 emitted2_1)

lemma either_inv:
  assumes "inv1 s" "inv2 s" "env_ok1 e1" "env_ok2 e2"
  shows "inv1 (snd (deliver_either e1 e2 c s)) \<and> inv2 (snd (deliver_either e1 e2 c s))"
  using assms first.inv_deliver [of s e1 c] second.inv_deliver [of "snd (deliver1 e1 c s)" e2 c]
  by (auto simp: deliver_either_def Let_def case_prod_beta inv1_2 inv2_1)

end

end
