(* ===== verification/Nsca_Fifo.thy ===== *)
theory Nsca_Fifo
  imports Nsca_World
begin

text \<open>
  \<open>fifo_client.cpp\<close>: the writer of the command FIFO. Its reference to the \<open>network\<close> object is
  used for the current time only, which is an argument here. The answers of \<open>stat\<close>, \<open>open\<close>,
  \<open>fdopen\<close> and \<open>write\<close> are the record \<open>fifo_env\<close>; what \<open>write\<close> accepts is appended to the
  \<open>pipe\<close> of the world.
\<close>

section \<open>State and environment\<close>

text \<open>\<open>fp\<close> says whether the stream pointer is non-null.\<close>

record fifo_client =
  fd :: int
  fp :: bool
  fifo_path :: string
  block_fifo_until :: int

text \<open>
  \<open>fe_stat\<close>: \<open>None\<close> when \<open>stat\<close> fails, else whether the file is a FIFO; \<open>fe_open\<close>: the error or
  the descriptor; \<open>fe_fdopen\<close>: whether it succeeds; \<open>fe_write\<close>: the error, or the number of
  bytes accepted.
\<close>

record fifo_env =
  fe_stat :: "bool option"
  fe_open :: "errno + nat"
  fe_fdopen :: bool
  fe_write :: "errno + nat"

definition new_fifo_client :: "string \<Rightarrow> fifo_client" where
  "new_fifo_client command_file =
     \<lparr>fd = -1, fp = False, fifo_path = command_file, block_fifo_until = 0\<rparr>"

section \<open>Operations\<close>

definition fifo_init_events :: "fifo_env \<Rightarrow> int \<Rightarrow> fifo_client \<Rightarrow> int \<times> fifo_client" where
  "fifo_init_events e now c =
     (if 0 \<le> fd c then (-1, c)
      else if fifo_path c = [] then (0, c)
      else (case fe_stat e of
              None \<Rightarrow> (-1, c\<lparr>block_fifo_until := now + 60\<rparr>)
            | Some is_fifo \<Rightarrow>
                if \<not> is_fifo then (-1, c\<lparr>block_fifo_until := now + 60\<rparr>)
                else (case fe_open e of
                        Inl err \<Rightarrow>
                          (let c1 = c\<lparr>fd := -1\<rparr>
                           in (-1, (case err of
                                      ENXIO \<Rightarrow> c1\<lparr>block_fifo_until := now + 3\<rparr>
                                    | ENOENT \<Rightarrow> c1\<lparr>block_fifo_until := now + 10\<rparr>
                                    | EACCES \<Rightarrow> c1\<lparr>block_fifo_until := now + 10\<rparr>
                                    | _ \<Rightarrow> c1)))
                      | Inr n \<Rightarrow>
                          (0, c\<lparr>fd := int n, fp := fe_fdopen e, block_fifo_until := 0\<rparr>))))"

text \<open>The line of the external command interface.\<close>

definition fifo_line :: "int \<Rightarrow> check \<Rightarrow> string" where
  "fifo_line now = (\<lambda>(hostname, service, return_code, plugin_output).
     (if service \<noteq> []
      then ''['' @ show_ulong now @ ''] PROCESS_SERVICE_CHECK_RESULT;'' @ c_str hostname @ '';''
             @ c_str service @ '';'' @ show_int return_code @ '';'' @ c_str plugin_output @ nl
      else ''['' @ show_ulong now @ ''] PROCESS_HOST_CHECK_RESULT;'' @ c_str hostname @ '';''
             @ show_int return_code @ '';'' @ c_str plugin_output @ nl))"

definition fifo_maxlen :: nat where
  "fifo_maxlen = MAX_HOSTNAME_LENGTH + MAX_DESCRIPTION_LENGTH + MAX_PLUGINOUTPUT_LENGTH + 256"

definition fifo_command ::
    "fifo_env \<Rightarrow> int \<Rightarrow> check \<Rightarrow> fifo_client \<times> world \<Rightarrow> int \<times> fifo_client \<times> world" where
  "fifo_command e now chk = (\<lambda>(c, w).
     if now < block_fifo_until c then (-1, c, w)
     else
       let c1 = snd (fifo_init_events e now c)
       in if fp c1 then
            (let line = fifo_line now chk;
                 tmpbuf = snprintf fifo_maxlen line;
                 wlen = (if fifo_maxlen \<le> length line then fifo_maxlen - 1 else length line)
             in (case fe_write e of
                   Inl err \<Rightarrow>
                     (-1, (if err = EPIPE then c1\<lparr>fp := False, fd := -1\<rparr> else c1), w)
                 | Inr n \<Rightarrow>
                     let wsize = min n wlen
                     in ((if 0 < wsize then 0 else -1), c1,
                         w\<lparr>pipe := pipe w @ take wsize tmpbuf\<rparr>)))
          else (-1, c1, w))"

text \<open>The destructor.\<close>

definition delete_fifo_client :: "fifo_client \<Rightarrow> fifo_client" where
  "delete_fifo_client c = (if fp c then c\<lparr>fp := False, fd := -1\<rparr> else c)"

section \<open>Invariant\<close>

text \<open>An open stream has its descriptor.\<close>

definition fifo_inv :: "fifo_client \<Rightarrow> bool" where
  "fifo_inv c \<longleftrightarrow> (fp c \<longrightarrow> 0 \<le> fd c)"

lemma fifo_inv_new [simp]: "fifo_inv (new_fifo_client p)"
  by (simp add: fifo_inv_def new_fifo_client_def)

lemma fifo_inv_init_events: "fifo_inv c \<Longrightarrow> fifo_inv (snd (fifo_init_events e now c))"
  by (auto simp: fifo_inv_def fifo_init_events_def Let_def
      split: option.splits sum.splits errno.splits)

lemma fifo_inv_command:
  "fifo_inv c \<Longrightarrow> fifo_command e now chk (c, w) = (rc, c', w') \<Longrightarrow> fifo_inv c'"
  using fifo_inv_init_events [of c e now]
  by (auto simp: fifo_command_def Let_def fifo_inv_def split: if_splits sum.splits)

section \<open>The line that is written\<close>

lemma length_fifo_line: "check_bounded chk \<Longrightarrow> length (fifo_line now chk) < fifo_maxlen"
proof -
  obtain h s r out where c: "chk = (h, s, r, out)" by (cases chk)
  assume "check_bounded chk"
  then have "length h < 64" "length s < 128" "length out < 4096" "length (show_int r) \<le> 5"
    by (simp_all add: c check_bounded_def nsca_consts length_show_int_u16)
  then show ?thesis
    using length_c_str_le [of h] length_c_str_le [of s] length_c_str_le [of out]
      length_show_ulong [of now]
    by (simp add: c fifo_line_def fifo_maxlen_def nsca_consts)
qed

text \<open>What a call adds to the pipe: nothing when it answers -1, else a prefix of the line.\<close>

lemma fifo_command_pipe:
  assumes "fifo_command e now chk (c, w) = (rc, c', w')"
  shows "rc \<in> {0, -1}" "fs w' = fs w" "umask w' = umask w"
    "rc \<noteq> 0 \<Longrightarrow> pipe w' = pipe w"
    "rc = 0 \<Longrightarrow> \<exists>n. fe_write e = Inr n \<and> 0 < n
       \<and> pipe w' = pipe w @ take n (snprintf fifo_maxlen (fifo_line now chk))"
proof -
  have tk: "take (min n (length s)) s = take n s" for n :: nat and s :: string
    by (simp add: min_def)
  have wl: "length (snprintf fifo_maxlen s) = (if fifo_maxlen \<le> length s then fifo_maxlen - 1 else length s)"
    for s by (simp add: snprintf_def fifo_maxlen_def)
  show "rc \<in> {0, -1}" "fs w' = fs w" "umask w' = umask w" "rc \<noteq> 0 \<Longrightarrow> pipe w' = pipe w"
    using assms by (auto simp: fifo_command_def Let_def split: if_splits sum.splits)
  show "\<exists>n. fe_write e = Inr n \<and> 0 < n
       \<and> pipe w' = pipe w @ take n (snprintf fifo_maxlen (fifo_line now chk))" if "rc = 0"
    using assms that tk [of _ "snprintf fifo_maxlen (fifo_line now chk)"]
    by (auto simp: fifo_command_def Let_def wl split: if_splits sum.splits)
qed

lemma fifo_command_refused:
  "fst (fifo_command e now chk s) \<noteq> 0 \<Longrightarrow> pipe (snd (snd (fifo_command e now chk s))) = pipe (snd s)"
  by (metis fifo_command_pipe(4) prod.collapse)

lemma fifo_command_fs [simp]: "fs (snd (snd (fifo_command e now chk s))) = fs (snd s)"
  by (metis fifo_command_pipe(2) prod.collapse)

lemma fifo_command_umask [simp]: "umask (snd (snd (fifo_command e now chk s))) = umask (snd s)"
  by (metis fifo_command_pipe(3) prod.collapse)

lemma fifo_command_inv: "fifo_inv (fst s) \<Longrightarrow> fifo_inv (fst (snd (fifo_command e now chk s)))"
  by (metis fifo_inv_command prod.collapse)

interpretation fifo_sink: result_sink
  "\<lambda>(e, now) chk. fifo_command e now chk" "\<lambda>s. pipe (snd s)" "\<lambda>_. True" "\<lambda>s. fifo_inv (fst s)"
  by unfold_locales (auto simp: fifo_command_refused fifo_command_inv split: prod.splits)

section \<open>A client that is stuck\<close>

text \<open>
  When \<open>fdopen\<close> fails, \<open>init_events\<close> closes the descriptor but keeps its number, so later calls
  take the early return and never try again.
\<close>

definition fifo_stuck :: "fifo_client \<Rightarrow> bool" where
  "fifo_stuck c \<longleftrightarrow> 0 \<le> fd c \<and> \<not> fp c"

lemma fifo_command_stuck:
  "fifo_stuck c \<Longrightarrow> fifo_command e now chk (c, w) = (-1, c, w)"
  by (simp add: fifo_command_def fifo_stuck_def fifo_init_events_def)

section \<open>Properties\<close>

text \<open>C23: The command for a result whose strings fit a packet is never cut by the client's buffer: a
  call that answers 0 has appended a non-empty prefix of the line to the FIFO, the whole line when
  \<open>write\<close> takes it all; any other call answers -1 and appends nothing. No file is touched.\<close>

theorem fifo_command_line:
  assumes "fifo_command e t chk (c, w) = (rc, c', w')" "check_bounded chk"
  shows "(if rc = 0 then \<exists>n > 0. fe_write e = Inr n \<and> pipe w' = pipe w @ take n (fifo_line t chk)
          else rc = -1 \<and> pipe w' = pipe w) \<and> fs w' = fs w"
  using fifo_command_pipe [OF assms(1)] length_fifo_line [OF assms(2), of t] by auto

definition example_fifo :: fifo_client where
  "example_fifo = \<lparr>fd = 5, fp = True, fifo_path = ''/nagios.cmd'', block_fifo_until = 0\<rparr>"

definition example_fifo_env :: "nat \<Rightarrow> fifo_env" where
  "example_fifo_env n = \<lparr>fe_stat = Some True, fe_open = Inr 5, fe_fdopen = True, fe_write = Inr n\<rparr>"

definition empty_world :: world where
  "empty_world = \<lparr>pipe = [], fs = Map.empty, umask = 0x12\<rparr>"

lemma fifo_command_line_witness:
  "case fifo_command (example_fifo_env 100) 7 (''web'', ''disk'', 2, ''full'') (example_fifo, empty_world) of
     (rc, c', w') \<Rightarrow> rc = 0 \<and> pipe w' = ''[7] PROCESS_SERVICE_CHECK_RESULT;web;disk;2;full'' @ nl"
  (is "case ?r of (rc, c', w') \<Rightarrow> _")
proof -
  let ?chk = "(''web'', ''disk'', 2, ''full'') :: check"
  obtain rc c' w' where r: "?r = (rc, c', w')" by (cases ?r)
  have l: "fifo_line 7 ?chk = ''[7] PROCESS_SERVICE_CHECK_RESULT;web;disk;2;full'' @ nl"
    by code_simp
  have m: "fifo_maxlen = 4544" by (simp add: fifo_maxlen_def nsca_consts)
  have len: "length (fifo_line 7 ?chk) = 49" by (simp add: l)
  define line where "line = fifo_line 7 ?chk"
  have "rc = 0"
    using r len by (simp add: fifo_command_def fifo_init_events_def example_fifo_def m
      example_fifo_env_def Let_def flip: line_def)
  moreover have "check_bounded ?chk" by (simp add: check_bounded_def nsca_consts)
  ultimately have "pipe w' = take 100 (fifo_line 7 ?chk)"
    using fifo_command_line [OF r] by (auto simp: example_fifo_env_def empty_world_def)
  with \<open>rc = 0\<close> r l show ?thesis by (simp add: nl_def)
qed

text \<open>When \<open>fdopen\<close> fails after a successful \<open>open\<close>, the client is left with a descriptor number
  but no stream, and from then on it refuses every result without asking the system again.\<close>

theorem fifo_client_stuck:
  assumes "fd c < 0" "\<not> fp c" "fifo_path c \<noteq> []" "block_fifo_until c \<le> t"
    and "fe_stat e = Some True" "fe_open e = Inr n" "\<not> fe_fdopen e"
  shows "\<exists>c'. fifo_command e t chk (c, w) = (-1, c', w)
    \<and> (\<forall>e' t' chk' w'. fifo_command e' t' chk' (c', w') = (-1, c', w'))"
proof -
  have "fifo_command e t chk (c, w) = (-1, snd (fifo_init_events e t c), w)"
      "fifo_stuck (snd (fifo_init_events e t c))"
    using assms by (simp_all add: fifo_command_def fifo_init_events_def fifo_stuck_def)
  then show ?thesis using fifo_command_stuck by blast
qed

lemma fifo_client_stuck_witness:
  "\<exists>c'. fifo_command \<lparr>fe_stat = Some True, fe_open = Inr 5, fe_fdopen = False, fe_write = Inr 9\<rparr> 0
      (''h'', ''s'', 0, ''o'') (new_fifo_client ''/nagios.cmd'', empty_world) = (-1, c', empty_world)
    \<and> (\<forall>e' t' chk' w'. fifo_command e' t' chk' (c', w') = (-1, c', w'))"
  by (rule fifo_client_stuck) (simp_all add: new_fifo_client_def)

text \<open>C37: A result whose strings hold no newline is one line of the external command interface. A
  newline in the plugin output starts another line: what follows it reaches the monitoring core as
  a command of its own.\<close>

theorem fifo_line_lines:
  assumes "nul_free outp" "nul_free cmd"
  shows "(check_one_line (h, s, r, outp) \<longrightarrow> (\<exists>l. fifo_line t (h, s, r, outp) = l @ nl \<and> newline_free l))
    \<and> fifo_line t (h, s, r, outp @ nl @ cmd) = fifo_line t (h, s, r, outp) @ cmd @ nl"
proof -
  have nf: "newline_free (c_str x)" if "newline_free x" for x
    using that by (auto simp: newline_free_def c_str_def dest: set_takeWhileD)
  have "nul_free (outp @ nl @ cmd)" using assms by (simp add: nul_free_def nl_def)
  with assms nf [of h] nf [of s] show ?thesis
    by (auto simp: fifo_line_def check_one_line_def)
qed

lemma fifo_line_lines_witness:
  "fifo_line 1 (''h'', ''s'', 0, ''ok'' @ nl @ ''[1] SHUTDOWN_PROGRAM'')
     = ''[1] PROCESS_SERVICE_CHECK_RESULT;h;s;0;ok'' @ nl @ ''[1] SHUTDOWN_PROGRAM'' @ nl"
proof -
  have "fifo_line 1 (''h'', ''s'', 0, ''ok'') = ''[1] PROCESS_SERVICE_CHECK_RESULT;h;s;0;ok'' @ nl"
    by code_simp
  then show ?thesis
    using fifo_line_lines [of "''ok''" "''[1] SHUTDOWN_PROGRAM''" "''h''" "''s''" 0 1]
    by (simp add: nul_free_def)
qed

end
