(* ===== verification/Nsca_Result_Writer.thy ===== *)
theory Nsca_Result_Writer
  imports Nsca_World
begin

text \<open>
  The writer of check result files: \<open>write_result_path\<close> of \<open>result_path_writer.cpp\<close>, whose body
  \<open>result_path_client::write_result\<close> repeats after its own guard. A result is a file
  \<open><check_result_path>/cXXXXXX\<close> and an empty marker \<open><file>.ok\<close>; the monitoring core looks for
  the marker. Files live in \<open>fs\<close> of the world, and the mode mask is part of it.
\<close>

section \<open>Environment\<close>

text \<open>
  Answers of the system, in the order the code asks: the three \<open>calloc\<close>s, the descriptor and the
  six characters chosen by \<open>mkstemp\<close> (a negative descriptor: failure), \<open>fdopen\<close>, the items
  written by \<open>fwrite\<close>, the number of bytes that have reached the file when \<open>fclose\<close> returns, and
  whether the marker can be opened.
\<close>

record result_env =
  re_calloc_file :: bool
  re_calloc_ok :: bool
  re_calloc_tmpbuf :: bool
  re_mkstemp_fd :: int
  re_mkstemp_suffix :: string
  re_fdopen :: bool
  re_fwrite :: nat
  re_flushed :: nat
  re_open_ok :: bool

definition FILENAME_MAX :: nat where [nsca_consts]: "FILENAME_MAX = 4096"
definition tmpbuf_size_max :: nat where [nsca_consts]: "tmpbuf_size_max = 4096 + 512"

section \<open>The text of a result file\<close>

definition tmpbuf_line :: "string \<Rightarrow> string" where
  "tmpbuf_line s = snprintf tmpbuf_size_max s"

definition result_lines :: "int \<Rightarrow> string \<Rightarrow> check \<Rightarrow> string list" where
  "result_lines now cnow = (\<lambda>(hostname, service, return_code, plugin_output).
     [''### NSCA Passive Check Result ###'' @ nl,
      ''# Time: '' @ c_str cnow,
      ''file_time='' @ show_int now @ nl @ nl,
      ''### '' @ (if service \<noteq> [] then ''Service'' else ''Host'') @ '' Check Result ###'' @ nl,
      ''host_name='' @ c_str hostname @ nl]
     @ (if service \<noteq> [] then [''service_description='' @ c_str service @ nl] else [])
     @ [''check_type=1'' @ nl,
        ''scheduled_check=0'' @ nl,
        ''reschedule_check=0'' @ nl,
        ''latency=0'' @ nl,
        ''start_time='' @ show_ulong now @ ''.'' @ show_ulong 0 @ nl,
        ''finish_time='' @ show_ulong now @ ''.'' @ show_ulong 0 @ nl,
        ''return_code='' @ show_int return_code @ nl,
        ''output='' @ (if plugin_output \<noteq> [] then c_str plugin_output else []) @ nl,
        nl])"

definition result_text :: "int \<Rightarrow> string \<Rightarrow> check \<Rightarrow> string" where
  "result_text now cnow chk = concat (map tmpbuf_line (result_lines now cnow chk))"

section \<open>Writing\<close>

text \<open>\<open>mkstemp\<close> replaces the last six characters of its template and creates the file, mode 0600.\<close>

definition mkstemp_name :: "string \<Rightarrow> string \<Rightarrow> string" where
  "mkstemp_name path suffix =
     (let t = snprintf FILENAME_MAX (c_str path @ ''/cXXXXXX'') in take (length t - 6) t @ suffix)"

definition ok_name :: "string \<Rightarrow> string" where
  "ok_name file = snprintf FILENAME_MAX (file @ ''.ok'')"

definition open_trunc :: "string \<Rightarrow> world \<Rightarrow> world" where
  "open_trunc name w =
     w\<lparr>fs := (fs w)(name \<mapsto>
        (case fs w name of
           None \<Rightarrow> \<lparr>file_mode = 0x1B6 AND NOT (umask w), file_data = []\<rparr>
         | Some f \<Rightarrow> f\<lparr>file_data := []\<rparr>))\<rparr>"

definition unlink :: "string \<Rightarrow> world \<Rightarrow> world" where
  "unlink name w = w\<lparr>fs := (fs w)(name := None)\<rparr>"

definition writer_cleanup :: "u32 \<Rightarrow> int \<Rightarrow> world \<Rightarrow> int \<times> world" where
  "writer_cleanup old_umask rc w = (rc, w\<lparr>umask := old_umask\<rparr>)"

text \<open>What is done between the two calls of \<open>umask\<close>, with the return value.\<close>

definition writer_body ::
    "result_env \<Rightarrow> string \<Rightarrow> int \<Rightarrow> string \<Rightarrow> check \<Rightarrow> world \<Rightarrow> int \<times> world" where
  "writer_body e check_result_path now cnow chk w1 =
     (if \<not> re_calloc_file e \<or> \<not> re_calloc_ok e \<or> \<not> re_calloc_tmpbuf e then (0, w1)
      else if re_mkstemp_fd e < 0 then (-1, w1)
      else
        let name = mkstemp_name check_result_path (re_mkstemp_suffix e);
            w2 = w1\<lparr>fs := (fs w1)(name \<mapsto> \<lparr>file_mode = 0x180 AND NOT (umask w1), file_data = []\<rparr>)\<rparr>
        in if re_mkstemp_fd e = 0 then (-4, w2)
           else if \<not> re_fdopen e then (-2, w2)
           else
             let fbuf = result_text now cnow chk;
                 w3 = w2\<lparr>fs := (fs w2)(name \<mapsto>
                        (the (fs w2 name))\<lparr>file_data := take (re_flushed e) fbuf\<rparr>)\<rparr>
             in if re_fwrite e \<noteq> 1 then (0, unlink name w3)
                else if re_open_ok e then (0, open_trunc (ok_name name) w3)
                else (0, unlink name w3))"

definition write_result_path ::
    "result_env \<Rightarrow> string \<Rightarrow> int \<Rightarrow> string \<Rightarrow> check \<Rightarrow> world \<Rightarrow> int \<times> world" where
  "write_result_path e check_result_path now cnow chk w =
     (let old_umask = umask w;
          (rc, w') = writer_body e check_result_path now cnow chk (w\<lparr>umask := 0x3F\<rparr>)
      in writer_cleanup old_umask rc w')"

lemmas write_result_path_defs = write_result_path_def writer_body_def

section \<open>Effects on the spool directory\<close>

text \<open>What the monitoring core picks up: the markers.\<close>

definition is_marker :: "string \<Rightarrow> bool" where
  "is_marker name \<longleftrightarrow> 3 \<le> length name \<and> drop (length name - 3) name = ''.ok''"

definition markers :: "world \<Rightarrow> string \<rightharpoonup> spool_file" where
  "markers w = (\<lambda>name. if is_marker name then fs w name else None)"

text \<open>\<open>mkstemp\<close> draws its characters from the letters and digits.\<close>

definition suffix_ok :: "string \<Rightarrow> bool" where
  "suffix_ok s \<longleftrightarrow> length s = 6 \<and> CHR ''.'' \<notin> set s"

lemma drop_append_ge: "n \<le> length ys \<Longrightarrow> drop (length xs + length ys - n) (xs @ ys) = drop (length ys - n) ys"
  by simp

lemma mkstemp_name_not_marker:
  assumes "suffix_ok s"
  shows "\<not> is_marker (mkstemp_name path s)"
proof
  assume m: "is_marker (mkstemp_name path s)"
  define t where "t = snprintf FILENAME_MAX (c_str path @ ''/cXXXXXX'')"
  have n: "mkstemp_name path s = take (length t - 6) t @ s" by (simp add: mkstemp_name_def t_def Let_def)
  have "drop (length (take (length t - 6) t) + length s - 3) (take (length t - 6) t @ s) = drop (length s - 3) s"
    using assms by (intro drop_append_ge) (simp add: suffix_ok_def)
  with m n have "drop (length s - 3) s = ''.ok''" by (simp add: is_marker_def)
  then have "CHR ''.'' \<in> set s" by (metis in_set_dropD list.set_intros(1))
  with assms show False by (simp add: suffix_ok_def)
qed

lemma umask_restored: "umask (snd (write_result_path e path now cnow chk w)) = umask w"
  by (simp add: write_result_path_defs writer_cleanup_def Let_def)

lemma writer_pipe [simp]: "pipe (snd (write_result_path e path now cnow chk w)) = pipe w"
  by (simp add: write_result_path_defs writer_cleanup_def Let_def unlink_def open_trunc_def)

lemma markers_simps [simp]:
  "markers (w\<lparr>umask := u\<rparr>) = markers w"
  "\<not> is_marker n \<Longrightarrow> markers (w\<lparr>fs := (fs w)(n := x)\<rparr>) = markers w"
  "\<not> is_marker n \<Longrightarrow> markers (unlink n w) = markers w"
  by (auto simp: markers_def unlink_def fun_eq_iff)

lemma write_result_path_refused:
  "suffix_ok (re_mkstemp_suffix e) \<Longrightarrow> fst (write_result_path e path now cnow chk w) \<noteq> 0 \<Longrightarrow>
   markers (snd (write_result_path e path now cnow chk w)) = markers w"
  using mkstemp_name_not_marker [of "re_mkstemp_suffix e" path]
  by (auto simp: write_result_path_defs writer_cleanup_def Let_def split: if_splits)

interpretation result_writer: result_sink
  "\<lambda>(e, path, now, cnow) chk. write_result_path e path now cnow chk" markers
  "\<lambda>(e, path, now, cnow). suffix_ok (re_mkstemp_suffix e)" "\<lambda>_. True"
  by unfold_locales (auto simp: write_result_path_refused)

section \<open>A complete run\<close>

text \<open>Answers under which nothing fails and all bytes of the file reach the disk.\<close>

definition env_good :: "result_env \<Rightarrow> string \<Rightarrow> bool" where
  "env_good e text \<longleftrightarrow> re_calloc_file e \<and> re_calloc_ok e \<and> re_calloc_tmpbuf e \<and> 0 < re_mkstemp_fd e
     \<and> suffix_ok (re_mkstemp_suffix e) \<and> re_fdopen e \<and> re_fwrite e = 1 \<and> length text \<le> re_flushed e
     \<and> re_open_ok e"

lemma length_mkstemp_name:
  "length path + 8 < FILENAME_MAX \<Longrightarrow> suffix_ok s \<Longrightarrow> length (mkstemp_name path s) \<le> length path + 8"
proof -
  assume a: "length path + 8 < FILENAME_MAX" "suffix_ok s"
  have "length (c_str path) \<le> length path" by (simp add: c_str_def length_takeWhile_le)
  with a show ?thesis by (simp add: mkstemp_name_def Let_def suffix_ok_def snprintf_def)
qed

lemma ok_name_append: "length name + 3 < FILENAME_MAX \<Longrightarrow> ok_name name = name @ ''.ok''"
  by (simp add: ok_name_def)

lemma is_marker_ok [simp]: "is_marker (name @ ''.ok'')"
  by (simp add: is_marker_def)

lemma umask_077: "(0x180 :: u32) AND NOT 0x3F = 0x180" "(0x1B6 :: u32) AND NOT 0x3F = 0x180"
  by simp_all

section \<open>Reading a result file back\<close>

text \<open>
  A reader as the monitoring core has it: the lines of the file, and the value of the first line
  that starts with \<open>key=\<close>.
\<close>

fun split_lines :: "string \<Rightarrow> string list" where
  "split_lines [] = [[]]"
| "split_lines (c # s) =
     (if c = CHR 0x0A then [] # split_lines s
      else (case split_lines s of l # ls \<Rightarrow> (c # l) # ls | [] \<Rightarrow> [[c]]))"

definition strip_prefix :: "string \<Rightarrow> string \<Rightarrow> string option" where
  "strip_prefix k l = (if take (length k) l = k then Some (drop (length k) l) else None)"

fun first_value :: "string \<Rightarrow> string list \<Rightarrow> string option" where
  "first_value k [] = None"
| "first_value k (l # ls) = (case strip_prefix (k @ ''='') l of None \<Rightarrow> first_value k ls | v \<Rightarrow> v)"

definition read_value :: "string \<Rightarrow> string \<Rightarrow> string option" where
  "read_value k text = first_value k (split_lines text)"

lemma split_lines_line: "newline_free a \<Longrightarrow> split_lines (a @ nl @ b) = a # split_lines b"
  by (induction a) (auto simp: nl_def)

lemma strip_prefix_append [simp]: "strip_prefix k (k @ v) = Some v"
  by (simp add: strip_prefix_def)

text \<open>The text as lines, for fields that fit and hold no NUL.\<close>

definition result_records :: "int \<Rightarrow> string \<Rightarrow> check \<Rightarrow> string list" where
  "result_records now t = (\<lambda>(h, s, r, out).
     [''### NSCA Passive Check Result ###'', ''# Time: '' @ t, ''file_time='' @ show_int now, [],
      ''### '' @ (if s \<noteq> [] then ''Service'' else ''Host'') @ '' Check Result ###'',
      ''host_name='' @ h]
     @ (if s \<noteq> [] then [''service_description='' @ s] else [])
     @ [''check_type=1'', ''scheduled_check=0'', ''reschedule_check=0'', ''latency=0'',
        ''start_time='' @ show_ulong now @ ''.0'', ''finish_time='' @ show_ulong now @ ''.0'',
        ''return_code='' @ show_int r, ''output='' @ out, []])"

lemma show_ulong_0: "show_ulong 0 = ''0''"
  by code_simp

lemma length_show_int_time: "\<bar>now\<bar> < 2 ^ 63 \<Longrightarrow> length (show_int now) \<le> 20"
proof -
  assume "\<bar>now\<bar> < 2 ^ 63"
  then have "nat now < 10 ^ Suc 18" "nat (- now) < 10 ^ Suc 18" by simp_all
  then have "length (show_nat (nat now)) \<le> 19" "length (show_nat (nat (- now))) \<le> 19"
    using length_show_nat [of _ 18] by simp_all
  then show ?thesis by (simp add: show_int_def)
qed

lemma result_text_records:
  assumes "check_bounded chk" "check_nul_free chk" "nul_free t" "length t < 100" "\<bar>now\<bar> < 2 ^ 63"
  shows "result_text now (t @ nl) chk = concat (map (\<lambda>l. l @ nl) (result_records now t chk))"
proof -
  obtain h s r out where c: "chk = (h, s, r, out)" by (cases chk)
  have r5: "length (show_int r) \<le> 5"
    using assms(1) by (simp add: c check_bounded_def length_show_int_u16)
  have t: "nul_free (t @ nl)" using assms(3) by (simp add: nul_free_def nl_def)
  have "\<forall>l \<in> set (result_lines now (t @ nl) chk). length l < tmpbuf_size_max"
    using assms r5 t length_show_ulong [of now] length_show_int_time [OF assms(5)]
    by (auto simp: c result_lines_def check_bounded_def check_nul_free_def nsca_consts show_ulong_0)
  then have "map tmpbuf_line (result_lines now (t @ nl) chk) = result_lines now (t @ nl) chk"
    by (intro map_idI) (simp add: tmpbuf_line_def)
  then show ?thesis
    using assms(2) t
    by (simp add: c result_text_def result_lines_def result_records_def check_nul_free_def show_ulong_0)
qed

lemma split_lines_records:
  "\<forall>l \<in> set ls. newline_free l \<Longrightarrow> split_lines (concat (map (\<lambda>l. l @ nl) ls)) = ls @ [[]]"
  by (induction ls) (simp_all add: split_lines_line)

section \<open>Properties\<close>

text \<open>C21: When nothing fails, the call answers 0 and adds exactly two files, both readable by their
  owner only: the result under the name \<open>mkstemp\<close> chose, complete, and its empty marker; the mode
  mask is as before.\<close>

theorem write_result_path_good:
  assumes good: "env_good e (result_text now cnow chk)" and len: "length path + 11 < FILENAME_MAX"
  defines "name \<equiv> mkstemp_name path (re_mkstemp_suffix e)"
  assumes fresh: "fs w (name @ ''.ok'') = None"
  shows "write_result_path e path now cnow chk w =
    (0, w\<lparr>fs := (fs w)(name \<mapsto> \<lparr>file_mode = 0x180, file_data = result_text now cnow chk\<rparr>,
                      name @ ''.ok'' \<mapsto> \<lparr>file_mode = 0x180, file_data = []\<rparr>)\<rparr>)"
proof -
  have s: "suffix_ok (re_mkstemp_suffix e)" using good by (simp add: env_good_def)
  then have "length name \<le> length path + 8" using len length_mkstemp_name by (simp add: name_def)
  then have ok: "ok_name name = name @ ''.ok''" using len by (intro ok_name_append) simp
  show ?thesis
    using good fresh ok umask_077
    by (simp add: write_result_path_defs env_good_def open_trunc_def writer_cleanup_def Let_def
        name_def)
qed


definition example_result_env :: result_env where
  "example_result_env =
     \<lparr>re_calloc_file = True, re_calloc_ok = True, re_calloc_tmpbuf = True, re_mkstemp_fd = 7,
      re_mkstemp_suffix = ''Ab12Cd'', re_fdopen = True, re_fwrite = 1, re_flushed = 100000,
      re_open_ok = True\<rparr>"

definition spool_world :: world where
  "spool_world = \<lparr>pipe = [], fs = Map.empty, umask = 0x12\<rparr>"

lemma length_snprintf: "0 < n \<Longrightarrow> length (snprintf n s) \<le> n"
  by (simp add: snprintf_def)

lemma example_env_good: "env_good example_result_env (result_text t ct chk)"
proof -
  have "length (result_text t ct chk) \<le> 15 * tmpbuf_size_max"
  proof -
    obtain h s r out where c: "chk = (h, s, r, out)" by (cases chk)
    have line: "length (tmpbuf_line x) \<le> tmpbuf_size_max" for x
      unfolding tmpbuf_line_def by (rule length_snprintf) (simp add: nsca_consts)
    have "sum_list (map (\<lambda>x. length (tmpbuf_line x)) xs) \<le> length xs * tmpbuf_size_max" for xs
      using line by (induction xs) (auto intro: add_mono)
    moreover have "length (result_lines t ct chk) \<le> 15" by (simp add: c result_lines_def)
    ultimately show ?thesis
      by (auto simp: result_text_def length_concat comp_def intro: order_trans mult_le_mono1)
  qed
  then show ?thesis
    by (simp add: env_good_def example_result_env_def suffix_ok_def nsca_consts)
qed

lemma write_result_path_good_witness:
  "write_result_path example_result_env ''/spool'' 1600000000 ''now'' (''web'', ''disk'', 2, ''full'') spool_world
   = (0, spool_world\<lparr>fs := [''/spool/cAb12Cd'' \<mapsto> \<lparr>file_mode = 0x180,
        file_data = result_text 1600000000 ''now'' (''web'', ''disk'', 2, ''full'')\<rparr>,
      ''/spool/cAb12Cd.ok'' \<mapsto> \<lparr>file_mode = 0x180, file_data = []\<rparr>]\<rparr>)"
proof -
  have n: "mkstemp_name ''/spool'' ''Ab12Cd'' = ''/spool/cAb12Cd''" by code_simp
  have s: "re_mkstemp_suffix example_result_env = ''Ab12Cd''" "fs spool_world = Map.empty"
    by (simp_all add: example_result_env_def spool_world_def)
  show ?thesis
    using write_result_path_good [of example_result_env 1600000000 "''now''" "(''web'', ''disk'', 2, ''full'')"
        "''/spool''" spool_world] example_env_good n s by (simp add: nsca_consts)
qed

text \<open>Whatever fails on the way, a file that the call leaves behind where there was none is
  readable by its owner only, the mode mask is restored, and the FIFO is not touched.\<close>

theorem write_result_path_modes:
  assumes "write_result_path e path t ct chk w = (rc, w')" "fs w n = None" "fs w' n = Some f"
  shows "file_mode f = 0x180 \<and> umask w' = umask w \<and> pipe w' = pipe w"
proof -
  have "file_mode f = 0x180"
    using assms umask_077
    by (auto simp: write_result_path_defs open_trunc_def writer_cleanup_def Let_def unlink_def
        split: if_splits option.splits)
  then show ?thesis
    using assms(1) umask_restored [of e path t ct chk w] writer_pipe [of e path t ct chk w] by simp
qed

lemma write_result_path_modes_witness:
  "case write_result_path (example_result_env\<lparr>re_fdopen := False\<rparr>) ''/spool'' 1 ''now'' (''h'', ''s'', 0, ''o'') spool_world of
     (rc, w') \<Rightarrow> rc = -2 \<and> (\<exists>f. fs w' ''/spool/cAb12Cd'' = Some f \<and> file_mode f = 0x180) \<and> umask w' = 0x12"
  (is "case ?r of (rc, w') \<Rightarrow> _")
proof -
  have n: "mkstemp_name ''/spool'' ''Ab12Cd'' = ''/spool/cAb12Cd''" by code_simp
  obtain rc w' where r: "?r = (rc, w')" by (cases ?r)
  obtain f where f: "fs w' ''/spool/cAb12Cd'' = Some f" and rc: "rc = -2"
    using r n by (auto simp: write_result_path_defs example_result_env_def spool_world_def
        writer_cleanup_def Let_def)
  have "fs spool_world ''/spool/cAb12Cd'' = None" by (simp add: spool_world_def)
  with write_result_path_modes [OF r _ f] rc f r show ?thesis by (auto simp: spool_world_def)
qed

text \<open>C38: When the write of the result file or the creation of its marker fails, the result is
  removed and no marker appears, yet the call answers 0.\<close>

theorem write_result_path_lost:
  assumes "re_calloc_file e" "re_calloc_ok e" "re_calloc_tmpbuf e" "0 < re_mkstemp_fd e" "re_fdopen e"
    and "suffix_ok (re_mkstemp_suffix e)" and "re_fwrite e \<noteq> 1 \<or> \<not> re_open_ok e"
  shows "fst (write_result_path e path now cnow chk w) = 0
       \<and> markers (snd (write_result_path e path now cnow chk w)) = markers w
       \<and> fs (snd (write_result_path e path now cnow chk w))
           (mkstemp_name path (re_mkstemp_suffix e)) = None"
  using assms mkstemp_name_not_marker [OF assms(6), of path]
  by (auto simp: write_result_path_defs writer_cleanup_def Let_def unlink_def)


lemma write_result_path_lost_witness:
  "fst (write_result_path (example_result_env\<lparr>re_fwrite := 0\<rparr>) ''/spool'' 1 ''now'' (''h'', ''s'', 0, ''o'') spool_world) = 0
   \<and> markers (snd (write_result_path (example_result_env\<lparr>re_fwrite := 0\<rparr>) ''/spool'' 1 ''now''
        (''h'', ''s'', 0, ''o'') spool_world)) = markers spool_world"
  using write_result_path_lost [of "example_result_env\<lparr>re_fwrite := 0\<rparr>" "''/spool''" 1 "''now''"
      "(''h'', ''s'', 0, ''o'')" spool_world]
  by (simp add: example_result_env_def suffix_ok_def)

text \<open>C22: A reader that splits the result file into lines and takes the first value of a key finds the
  host, the service (when there is one), the return code and the output that were written, for
  strings that fit a packet and hold neither NUL nor newline.\<close>

theorem result_file_reads_back:
  assumes "check_bounded (h, s, r, out)" "check_nul_free (h, s, r, out)" "check_one_line (h, s, r, out)"
    and "nul_free t" "newline_free t" "length t < 100" "\<bar>now\<bar> < 2 ^ 63"
  shows "read_value ''host_name'' (result_text now (t @ nl) (h, s, r, out)) = Some h
    \<and> read_value ''service_description'' (result_text now (t @ nl) (h, s, r, out))
        = (if s = [] then None else Some s)
    \<and> read_value ''return_code'' (result_text now (t @ nl) (h, s, r, out)) = Some (show_int r)
    \<and> read_value ''output'' (result_text now (t @ nl) (h, s, r, out)) = Some out"
proof -
  have "\<forall>l \<in> set (result_records now t (h, s, r, out)). newline_free l"
    using assms by (auto simp: result_records_def check_one_line_def)
  then have "split_lines (result_text now (t @ nl) (h, s, r, out))
      = result_records now t (h, s, r, out) @ [[]]"
    using assms by (simp add: result_text_records split_lines_records)
  then show ?thesis by (simp add: read_value_def result_records_def strip_prefix_def)
qed

lemma result_file_reads_back_witness:
  "read_value ''output'' (result_text 1600000000 (''Sun Sep 13'' @ nl) (''web'', ''disk'', 2, ''full'')) = Some ''full''"
  using result_file_reads_back [of "''web''" "''disk''" 2 "''full''" "''Sun Sep 13''" 1600000000]
  by (simp add: check_bounded_def check_nul_free_def check_one_line_def nul_free_def nsca_consts)

end
