(* ===== verification/Nsca_Result_Path.thy ===== *)
theory Nsca_Result_Path
  imports Nsca_Result_Writer
begin

text \<open>
  \<open>result_path_client.cpp\<close>: the spool directory client. It counts the files of the directory,
  first by listing it and then from inotify events, and refuses to write while the count is at
  the configured maximum. Its reference to the \<open>network\<close> object is used for the path of the
  directory and the event base, which are arguments; the answers of the system are \<open>watch_env\<close>,
  and the calls that change the kernel's watch list are returned as a list of \<open>watch_call\<close>.
\<close>

section \<open>State and environment\<close>

record result_path_client =
  inotifyFd :: int
  wd :: int
  client_bev :: bool
  dir_inode :: u64
  files_in_directory :: int
  dir_watched :: bool
  write_enabled :: bool
  check_result_path_max_files :: int

datatype d_type = DT_REG | DT_OTHER

datatype watch_call = Add_watch string | Rm_watch int | Close_inotify int

text \<open>
  \<open>we_dirents\<close>: the entries \<open>readdir\<close> returns, \<open>None\<close> when \<open>opendir\<close> fails; \<open>we_stat\<close> and
  \<open>we_stat_watch\<close>: the \<open>stat\<close> of \<open>check\<close> and of \<open>watch_directory\<close>, whether it is a directory
  and its inode; \<open>we_add_watch\<close>: the watch descriptor; \<open>we_event_base\<close>, \<open>we_bufferevent\<close>:
  whether libevent has a base and makes the reader.
\<close>

record watch_env =
  we_dirents :: "d_type list option"
  we_add_watch :: "nat option"
  we_stat :: "(bool \<times> u64) option"
  we_stat_watch :: "(bool \<times> u64) option"
  we_event_base :: bool
  we_bufferevent :: bool

section \<open>inotify events\<close>

text \<open>The constants and the layout of \<open>sys/inotify.h\<close>: four 32-bit members, then the name.\<close>

definition IN_CREATE :: u32 where [nsca_consts]: "IN_CREATE = 0x100"
definition IN_DELETE :: u32 where [nsca_consts]: "IN_DELETE = 0x200"
definition IN_IGNORED :: u32 where [nsca_consts]: "IN_IGNORED = 0x8000"
definition IN_ISDIR :: u32 where [nsca_consts]: "IN_ISDIR = 0x40000000"

definition sizeof_inotify_event :: nat where [nsca_consts]: "sizeof_inotify_event = 16"
definition INOTIFY_BUF_LEN :: nat where [nsca_consts]:
  "INOTIFY_BUF_LEN = 128 * (sizeof_inotify_event + 16 + 1)"

definition le32 :: "byte list \<Rightarrow> nat \<Rightarrow> u32" where
  "le32 bs i = ucast (bs ! i) OR push_bit 8 (ucast (bs ! (i + 1)))
     OR push_bit 16 (ucast (bs ! (i + 2))) OR push_bit 24 (ucast (bs ! (i + 3)))"

definition event_received :: "u32 \<Rightarrow> result_path_client \<Rightarrow> result_path_client" where
  "event_received msk c =
     (let c1 = (if msk AND IN_ISDIR = 0 then
                  let d = (if msk AND IN_DELETE \<noteq> 0
                           then c\<lparr>files_in_directory := files_in_directory c - 1\<rparr> else c)
                  in if msk AND IN_CREATE \<noteq> 0
                     then d\<lparr>files_in_directory := files_in_directory d + 1\<rparr> else d
                else c)
      in if msk AND IN_IGNORED \<noteq> 0 then c1\<lparr>dir_watched := False, wd := -1, dir_inode := 0\<rparr>
         else c1)"

text \<open>
  The loop of \<open>readcb\<close> over the buffer of \<open>INOTIFY_BUF_LEN\<close> bytes, of which \<open>num_read\<close> were
  filled. \<open>None\<close> is the undefined behaviour of reading a header that reaches past the buffer.
\<close>

function readcb_loop :: "byte list \<Rightarrow> nat \<Rightarrow> nat \<Rightarrow> result_path_client \<Rightarrow> result_path_client option" where
  "readcb_loop buf num_read p c =
     (if num_read \<le> p then Some c
      else if length buf < p + sizeof_inotify_event then None
      else readcb_loop buf num_read (p + sizeof_inotify_event + unat (le32 buf (p + 12)))
             (event_received (le32 buf (p + 4)) c))"
  by pat_completeness auto
termination
  by (relation "measure (\<lambda>(buf, n, p, c). n - p)") (auto simp: nsca_consts)

declare readcb_loop.simps [simp del]

text \<open>\<open>bufferevent_read\<close> moves at most \<open>INOTIFY_BUF_LEN\<close> bytes of the reader's input.\<close>

definition result_path_readcb ::
    "byte list \<Rightarrow> result_path_client \<Rightarrow> (result_path_client \<times> byte list) option" where
  "result_path_readcb input c =
     (let chunk = take INOTIFY_BUF_LEN input;
          num_read = length chunk;
          buf = chunk @ replicate (INOTIFY_BUF_LEN - num_read) 0
      in map_option (\<lambda>c'. (c', drop INOTIFY_BUF_LEN input)) (readcb_loop buf num_read 0 c))"

section \<open>Watching the directory\<close>

definition count_files :: "watch_env \<Rightarrow> result_path_client \<Rightarrow> result_path_client" where
  "count_files e c =
     c\<lparr>files_in_directory :=
        (case we_dirents e of
           None \<Rightarrow> 0
         | Some ds \<Rightarrow> int (length (filter (\<lambda>d. d = DT_REG) ds)))\<rparr>"

definition watch_directory ::
    "watch_env \<Rightarrow> string \<Rightarrow> result_path_client \<Rightarrow> result_path_client \<times> watch_call list" where
  "watch_directory e path c =
     (if inotifyFd c = -1 then (c, [])
      else if \<not> dir_watched c then
        (let c1 = count_files e c
         in (case we_add_watch e of
               None \<Rightarrow> (c1, [Add_watch path])
             | Some rc \<Rightarrow>
                 let c2 = (case we_stat_watch e of
                             Some (_, ino) \<Rightarrow> c1\<lparr>dir_inode := ino\<rparr>
                           | None \<Rightarrow> c1)
                 in (c2\<lparr>wd := int rc, dir_watched := True\<rparr>, [Add_watch path])))
      else (c, []))"

definition unwatch_directory :: "result_path_client \<Rightarrow> watch_call list" where
  "unwatch_directory c =
     (if inotifyFd c = -1 then [] else if wd c = -1 then [] else [Rm_watch (wd c)])"

text \<open>The constructor, with the configured maximum and the descriptor \<open>inotify_init1\<close> returns.\<close>

definition new_result_path_client :: "int \<Rightarrow> int \<Rightarrow> result_path_client" where
  "new_result_path_client max_files fd =
     \<lparr>inotifyFd = (if c_int max_files \<noteq> 0 then fd else -1), wd = -1, client_bev = False,
      dir_inode = 0, files_in_directory = 0, dir_watched = False, write_enabled = True,
      check_result_path_max_files = c_int max_files\<rparr>"

definition result_path_init ::
    "watch_env \<Rightarrow> string \<Rightarrow> result_path_client \<Rightarrow> result_path_client \<times> watch_call list" where
  "result_path_init e path c =
     (if inotifyFd c = -1 then (c, [])
      else if \<not> client_bev c \<and> (\<not> we_event_base e \<or> \<not> we_bufferevent e) then (c, [])
      else watch_directory e path (c\<lparr>client_bev := True\<rparr>))"

definition result_path_uninit :: "result_path_client \<Rightarrow> result_path_client \<times> watch_call list" where
  "result_path_uninit c =
     (let c1 = c\<lparr>client_bev := False\<rparr>; u = unwatch_directory c1
      in if inotifyFd c1 \<noteq> -1 then (c1\<lparr>inotifyFd := -1\<rparr>, u @ [Close_inotify (inotifyFd c1)])
         else (c1, u))"

text \<open>\<open>check\<close>, called once a second by the timer of the \<open>network\<close>.\<close>

definition result_path_check ::
    "watch_env \<Rightarrow> string \<Rightarrow> result_path_client \<Rightarrow> result_path_client \<times> watch_call list" where
  "result_path_check e path c =
     (if check_result_path_max_files c = 0 then (c, [])
      else if inotifyFd c = -1 then (c, [])
      else if path = [] then (c, [])
      else
        let c1 = c\<lparr>write_enabled := (files_in_directory c < check_result_path_max_files c)\<rparr>
        in (case we_stat e of
              None \<Rightarrow> (c1, [])
            | Some (is_dir, ino) \<Rightarrow>
                if \<not> is_dir then (c1, [])
                else if dir_watched c1 \<and> dir_inode c1 \<noteq> ino then
                  (let u = unwatch_directory c1; (c2, a) = watch_directory e path c1 in (c2, u @ a))
                else if dir_watched c1 then (c1, [])
                else (let u = unwatch_directory c1; (c2, a) = watch_directory e path c1
                      in (c2, u @ a))))"

section \<open>Writing a result\<close>

definition write_result ::
    "result_env \<Rightarrow> result_path_client \<Rightarrow> string \<Rightarrow> int \<Rightarrow> string \<Rightarrow> check \<Rightarrow> world \<Rightarrow> int \<times> world" where
  "write_result e c path now cnow chk w =
     (if \<not> write_enabled c then (-5, w) else write_result_path e path now cnow chk w)"

lemma write_result_refused:
  "suffix_ok (re_mkstemp_suffix e) \<Longrightarrow> fst (write_result e c path now cnow chk w) \<noteq> 0 \<Longrightarrow>
   markers (snd (write_result e c path now cnow chk w)) = markers w"
  by (simp add: write_result_def write_result_path_refused split: if_splits)

lemma write_result_pipe [simp]: "pipe (snd (write_result e c path now cnow chk w)) = pipe w"
  by (simp add: write_result_def)

lemma write_result_umask [simp]: "umask (snd (write_result e c path now cnow chk w)) = umask w"
  by (simp add: write_result_def umask_restored)

interpretation result_path_sink: result_sink
  "\<lambda>(e, c, path, now, cnow) chk. write_result e c path now cnow chk" markers
  "\<lambda>(e, c, path, now, cnow). suffix_ok (re_mkstemp_suffix e)" "\<lambda>_. True"
  by unfold_locales (auto simp: write_result_refused)

section \<open>Parsing the event stream\<close>

text \<open>Events as the kernel lays them out; \<open>name\<close> is the padded name.\<close>

record inotify_event =
  ev_wd :: u32
  ev_mask :: u32
  ev_cookie :: u32
  ev_name :: "byte list"

definition to_le32 :: "u32 \<Rightarrow> byte list" where
  "to_le32 w = [ucast w, ucast (drop_bit 8 w), ucast (drop_bit 16 w), ucast (drop_bit 24 w)]"

definition event_bytes :: "inotify_event \<Rightarrow> byte list" where
  "event_bytes ev = to_le32 (ev_wd ev) @ to_le32 (ev_mask ev) @ to_le32 (ev_cookie ev)
     @ to_le32 (word_of_nat (length (ev_name ev))) @ ev_name ev"

lemma le32_to_le32:
  "ucast (ucast w :: byte) OR push_bit 8 (ucast (ucast (drop_bit 8 w) :: byte))
     OR push_bit 16 (ucast (ucast (drop_bit 16 w) :: byte))
     OR push_bit 24 (ucast (ucast (drop_bit 24 w) :: byte)) = (w :: u32)"
  (is "?l = w")
proof (rule bit_word_eqI)
  fix n assume n: "n < LENGTH(32)"
  consider "n < 8" | "8 \<le> n" "n < 16" | "16 \<le> n" "n < 24" | "24 \<le> n" "n < 32" using n by fastforce
  then show "bit ?l n = bit w n"
    by cases (auto simp: bit_simps)
qed

lemma length_to_le32 [simp]: "length (to_le32 w) = 4"
  by (simp add: to_le32_def)

lemma le32_at: "length xs = i \<Longrightarrow> le32 (xs @ to_le32 w @ ys) i = w"
  by (auto simp: le32_def to_le32_def nth_append le32_to_le32)

lemma length_event_bytes [simp]: "length (event_bytes ev) = 16 + length (ev_name ev)"
  by (simp add: event_bytes_def)

lemma event_header:
  "length xs = p \<Longrightarrow> le32 (xs @ event_bytes ev @ ys) (p + 4) = ev_mask ev"
  "length xs = p \<Longrightarrow> le32 (xs @ event_bytes ev @ ys) (p + 12) = word_of_nat (length (ev_name ev))"
  using le32_at [of "xs @ to_le32 (ev_wd ev)" "p + 4" "ev_mask ev"]
    le32_at [of "xs @ to_le32 (ev_wd ev) @ to_le32 (ev_mask ev) @ to_le32 (ev_cookie ev)" "p + 12"
      "word_of_nat (length (ev_name ev))"]
  by (simp_all add: event_bytes_def)

text \<open>A buffer of whole events is taken apart into exactly these events, in order.\<close>

lemma readcb_loop_events:
  assumes "length (concat (map event_bytes evs)) + length xs \<le> num_read"
    and "num_read = length xs + length (concat (map event_bytes evs))"
    and "num_read < 2 ^ 32"
  shows "readcb_loop (xs @ concat (map event_bytes evs) @ ys) num_read (length xs) c
       = Some (foldl (\<lambda>c ev. event_received (ev_mask ev) c) c evs)"
  using assms
proof (induction evs arbitrary: xs c)
  case Nil
  then show ?case by (subst readcb_loop.simps) simp
next
  case (Cons ev evs)
  let ?rest = "concat (map event_bytes evs) @ ys"
  let ?buf = "xs @ concat (map event_bytes (ev # evs)) @ ys"
  have l: "length (ev_name ev) < 2 ^ 32" using Cons.prems by simp
  then have "unat (word_of_nat (length (ev_name ev)) :: u32) = length (ev_name ev)"
    by (simp add: unat_of_nat take_bit_nat_eq_self)
  then have h: "le32 ?buf (length xs + 4) = ev_mask ev"
      "unat (le32 ?buf (length xs + 12)) = length (ev_name ev)"
    using event_header [of xs "length xs" ev ?rest] by simp_all
  have "readcb_loop ?buf num_read (length xs) c
      = readcb_loop ((xs @ event_bytes ev) @ ?rest) num_read (length (xs @ event_bytes ev))
          (event_received (ev_mask ev) c)"
    using Cons.prems h by (subst readcb_loop.simps) (simp add: nsca_consts add.assoc)
  also have "\<dots> = Some (foldl (\<lambda>c ev. event_received (ev_mask ev) c) (event_received (ev_mask ev) c) evs)"
    using Cons.prems by (intro Cons.IH) simp_all
  finally show ?case by simp
qed

lemma result_path_readcb_events:
  assumes "input = concat (map event_bytes evs)" "length input \<le> INOTIFY_BUF_LEN"
  shows "result_path_readcb input c
       = Some (foldl (\<lambda>c ev. event_received (ev_mask ev) c) c evs, [])"
proof -
  have "length input < 2 ^ 32" using assms(2) by (simp add: nsca_consts)
  then have "readcb_loop ([] @ concat (map event_bytes evs) @ replicate (INOTIFY_BUF_LEN - length input) 0)
      (length input) (length ([] :: byte list)) c
      = Some (foldl (\<lambda>c ev. event_received (ev_mask ev) c) c evs)"
    using assms by (intro readcb_loop_events) simp_all
  with assms show ?thesis by (simp add: result_path_readcb_def Let_def)
qed

section \<open>The count follows the directory\<close>

text \<open>
  What happens in the watched directory, and the event masks inotify reports for it. A directory
  is the set of the names of its entries that are not directories.
\<close>

datatype dir_op = Create_file string | Delete_file string | Create_dir | Delete_dir

fun dir_op_mask :: "dir_op \<Rightarrow> u32" where
  "dir_op_mask (Create_file _) = IN_CREATE"
| "dir_op_mask (Delete_file _) = IN_DELETE"
| "dir_op_mask Create_dir = IN_CREATE OR IN_ISDIR"
| "dir_op_mask Delete_dir = IN_DELETE OR IN_ISDIR"

fun dir_op_files :: "dir_op \<Rightarrow> string set \<Rightarrow> string set" where
  "dir_op_files (Create_file f) F = insert f F"
| "dir_op_files (Delete_file f) F = F - {f}"
| "dir_op_files _ F = F"

fun dir_op_possible :: "dir_op \<Rightarrow> string set \<Rightarrow> bool" where
  "dir_op_possible (Create_file f) F \<longleftrightarrow> f \<notin> F"
| "dir_op_possible (Delete_file f) F \<longleftrightarrow> f \<in> F"
| "dir_op_possible _ F \<longleftrightarrow> True"

fun dir_ops_possible :: "dir_op list \<Rightarrow> string set \<Rightarrow> bool" where
  "dir_ops_possible [] F \<longleftrightarrow> True"
| "dir_ops_possible (d # ds) F \<longleftrightarrow> dir_op_possible d F \<and> dir_ops_possible ds (dir_op_files d F)"

lemma event_received_op:
  "files_in_directory (event_received (dir_op_mask d) c) =
     files_in_directory c + (case d of Create_file _ \<Rightarrow> 1 | Delete_file _ \<Rightarrow> -1 | _ \<Rightarrow> 0)"
  "dir_watched (event_received (dir_op_mask d) c) = dir_watched c"
  by (cases d; simp add: event_received_def Let_def nsca_consts)+

lemma finite_dir_op_files [simp]: "finite F \<Longrightarrow> finite (dir_op_files d F)"
  by (cases d) simp_all

lemma card_dir_op_files:
  "finite F \<Longrightarrow> dir_op_possible d F \<Longrightarrow> int (card (dir_op_files d F)) =
     int (card F) + (case d of Create_file _ \<Rightarrow> 1 | Delete_file _ \<Rightarrow> -1 | _ \<Rightarrow> 0)"
  using card_Suc_Diff1 [of F] by (cases d) (force simp del: card_Diff_insert)+

lemma count_follows:
  assumes "finite F" "dir_ops_possible ds F" "files_in_directory c = int (card F)"
  shows "files_in_directory (foldl (\<lambda>c d. event_received (dir_op_mask d) c) c ds)
       = int (card (foldl (\<lambda>F d. dir_op_files d F) F ds))"
  using assms
proof (induction ds arbitrary: F c)
  case Nil
  then show ?case by simp
next
  case (Cons d ds)
  then have "files_in_directory (event_received (dir_op_mask d) c) = int (card (dir_op_files d F))"
    by (simp add: event_received_op card_dir_op_files)
  with Cons show ?case by simp
qed

section \<open>Properties\<close>


definition example_path_client :: result_path_client where
  "example_path_client =
     \<lparr>inotifyFd = 8, wd = 1, client_bev = True, dir_inode = 77, files_in_directory = 1,
      dir_watched = True, write_enabled = True, check_result_path_max_files = 2\<rparr>"


text \<open>With a maximum configured, the check of each second switches writing off exactly when the
  count has reached the maximum; while it is off a result is refused with -5 and nothing changes,
  else it is written.\<close>

theorem spool_limit:
  assumes "check_result_path_max_files c \<noteq> 0" "inotifyFd c \<noteq> -1" "path \<noteq> []"
    and "result_path_check e path c = (c', calls)"
  shows "write_result e' c' path t ct chk w =
    (if check_result_path_max_files c \<le> files_in_directory c then (-5, w)
     else write_result_path e' path t ct chk w)"
proof -
  have "write_enabled c' \<longleftrightarrow> files_in_directory c < check_result_path_max_files c"
    using assms by (auto simp: result_path_check_def watch_directory_def count_files_def Let_def
        case_prod_beta split: option.splits if_splits)
  then show ?thesis by (auto simp: write_result_def)
qed

lemma spool_limit_witness:
  "write_result \<lparr>re_calloc_file = True, re_calloc_ok = True, re_calloc_tmpbuf = True, re_mkstemp_fd = 7,
      re_mkstemp_suffix = ''Ab12Cd'', re_fdopen = True, re_fwrite = 1, re_flushed = 100000, re_open_ok = True\<rparr>
    (example_path_client\<lparr>files_in_directory := 2, write_enabled := False\<rparr>)
    ''/spool'' 1 ''now'' (''h'', ''s'', 0, ''o'') spool_world = (-5, spool_world)"
  using spool_limit [of "example_path_client\<lparr>files_in_directory := 2\<rparr>" "''/spool''"
      "\<lparr>we_dirents = None, we_add_watch = None, we_stat = Some (True, 77), we_stat_watch = None,
        we_event_base = True, we_bufferevent = True\<rparr>"
      "example_path_client\<lparr>files_in_directory := 2, write_enabled := False\<rparr>" "[]"]
  by (simp add: example_path_client_def result_path_check_def)

end
