(* ===== verification/Nsca_Config.thy ===== *)
theory Nsca_Config
  imports Nsca_Prelude
begin

text \<open>
  \<open>config.cpp\<close>: the trimming helpers, the store of settings with \<open>Set\<close>, \<open>Get\<close> and \<open>GetInt\<close>, the
  reader of the configuration file and \<open>check_config\<close>. The file is its contents as a string
  (\<open>None\<close> when it cannot be opened); buffers are the C strings they hold. Warnings and debug
  output are not modelled.
\<close>

section \<open>Trimming\<close>

definition default_seps :: string where
  "default_seps = [CHR 0x09, CHR 0x0A, CHR 0x0B, CHR 0x0C, CHR 0x0D, CHR '' '']"

definition strspn :: "string \<Rightarrow> string \<Rightarrow> nat" where
  "strspn s seps = length (takeWhile (\<lambda>c. c \<in> set seps) s)"

definition ltrim :: "string \<Rightarrow> string option \<Rightarrow> string" where
  "ltrim str seps =
     (let sp = (case seps of None \<Rightarrow> default_seps | Some s \<Rightarrow> s); totrim = strspn str sp
      in if 0 < totrim then (if totrim = length str then [] else drop totrim str) else str)"

text \<open>The loop of \<open>rtrim\<close> cuts the last character while it is a separator.\<close>

function rtrim_loop :: "string \<Rightarrow> string \<Rightarrow> string" where
  "rtrim_loop str sp =
     (if str = [] then [] else if last str \<in> set sp then rtrim_loop (butlast str) sp else str)"
  by pat_completeness auto
termination
  by (relation "measure (\<lambda>(str, sp). length str)") auto

declare rtrim_loop.simps [simp del]

definition rtrim :: "string \<Rightarrow> string option \<Rightarrow> string" where
  "rtrim str seps = rtrim_loop str (case seps of None \<Rightarrow> default_seps | Some s \<Rightarrow> s)"

definition trim :: "string \<Rightarrow> string option \<Rightarrow> string" where
  "trim str seps = ltrim (rtrim str seps) seps"

section \<open>The store\<close>

record config =
  data :: "string \<rightharpoonup> string"
  pathConfig :: string
  valid_keywords :: "string set"

definition allowed_config_keys :: "string list" where
  "allowed_config_keys =
     [''check_result_path'', ''pid_file'', ''command_file'', ''nsca_user'', ''nsca_group'',
      ''server_address'', ''server_port'', ''debug'', ''max_packet_age'', ''password'',
      ''decryption_method'', ''nsca_workers'', ''nsca_threads_per_worker'',
      ''max_checks_per_connection'', ''max_packet_age_enabled'', ''decryption_mode'',
      ''dir_stats'', ''check_result_path_max_files'']"

definition new_config :: config where
  "new_config = \<lparr>data = Map.empty, pathConfig = [], valid_keywords = set allowed_config_keys\<rparr>"

definition setConfigPath :: "string \<Rightarrow> config \<Rightarrow> config" where
  "setConfigPath path_config c = c\<lparr>pathConfig := path_config\<rparr>"

definition Set :: "string \<Rightarrow> string \<Rightarrow> config \<Rightarrow> config" where
  "Set Key Value c = c\<lparr>data := (data c)(Key \<mapsto> Value)\<rparr>"

definition Get :: "config \<Rightarrow> string \<Rightarrow> string \<Rightarrow> string" where
  "Get c Key Default = (case data c Key of None \<Rightarrow> Default | Some v \<Rightarrow> v)"

definition GetInt :: "config \<Rightarrow> string \<Rightarrow> int \<Rightarrow> int" where
  "GetInt c Key Default = (case data c Key of None \<Rightarrow> Default | Some v \<Rightarrow> strtol v)"

section \<open>The configuration file\<close>

definition DBUFFER_4K_SIZE :: nat where "DBUFFER_4K_SIZE = 4096"

definition line_seps :: string where
  "line_seps = [CHR 0x0D, CHR 0x0A, CHR 0x09, CHR '' '']"

text \<open>\<open>fgets\<close>: up to the newline, at most \<open>n - 1\<close> characters.\<close>

definition fgets :: "nat \<Rightarrow> string \<Rightarrow> string \<times> string" where
  "fgets n s =
     (let k = length (takeWhile (\<lambda>c. c \<noteq> CHR 0x0A) s); m = min (Suc k) (n - 1)
      in (take m s, drop m s))"

text \<open>The loop that looks for \<open>#\<close> runs from the end and stops at the first one it meets.\<close>

primrec cut_comment :: "string \<Rightarrow> nat \<Rightarrow> string" where
  "cut_comment buf 0 = buf"
| "cut_comment buf (Suc i) = (if buf ! i = CHR ''#'' then take i buf else cut_comment buf i)"

definition config_line :: "config \<Rightarrow> string \<Rightarrow> config" where
  "config_line c chunk =
     (let b1 = trim (c_str chunk) (Some line_seps)
      in if length b1 < 1 then c
         else
           let b2 = cut_comment b1 (length b1)
           in if length b2 = 0 then c
              else
                let b3 = trim b2 (Some line_seps);
                    opt_key = takeWhile (\<lambda>x. x \<noteq> CHR ''='') b3;
                    helper = dropWhile (\<lambda>x. x \<noteq> CHR ''='') b3
                in if helper \<noteq> [] \<and> 1 < length helper \<and> opt_key \<in> valid_keywords c
                   then Set opt_key (tl helper) c else c)"

function read_config_loop :: "config \<Rightarrow> string \<Rightarrow> config" where
  "read_config_loop c s =
     (if s = [] then c
      else let (chunk, rest) = fgets DBUFFER_4K_SIZE s in read_config_loop (config_line c chunk) rest)"
  by pat_completeness auto
termination
  by (relation "measure (\<lambda>(c, s). length s)") (auto simp: fgets_def Let_def DBUFFER_4K_SIZE_def)

declare read_config_loop.simps [simp del]

text \<open>\<open>Inl\<close> is the exit status of the process.\<close>

definition read_config :: "config \<Rightarrow> string option \<Rightarrow> int + config" where
  "read_config c file =
     (case file of None \<Rightarrow> Inl 1 | Some s \<Rightarrow> Inr (read_config_loop c s))"

section \<open>Checking the settings\<close>

text \<open>
  The result is the return code, the store, and whether debug output is switched on.
  \<open>workers_enabled\<close> is the compile-time \<open>WORKERS_ENABLED\<close> of \<open>common.h\<close>.
\<close>

definition check_config :: "bool \<Rightarrow> config \<Rightarrow> int \<times> config \<times> bool" where
  "check_config workers_enabled c =
     (let max_packet_age = c_int (GetInt c ''max_packet_age'' 0);
          debug = c_int (GetInt c ''debug'' 0);
          decryption_method = c_int (GetInt c ''decryption_method'' 0);
          nsca_workers = c_int (GetInt c ''nsca_workers'' 0);
          nsca_threads_per_worker = c_int (GetInt c ''nsca_threads_per_worker'' 4);
          max_checks_per_connection = c_int (GetInt c ''max_checks_per_connection'' 500);
          check_result_path_max_files = c_int (GetInt c ''check_result_path_max_files'' 0);
          dbg = (debug = 1);
          c1 = (if max_packet_age < 0 \<or> 604800 * 52 < max_packet_age
                then Set ''max_packet_age'' ''30'' c else c)
      in if decryption_method < 0 \<or> 26 < decryption_method then (-1, c1, dbg)
         else
           let workers2 = (if \<not> workers_enabled \<and> nsca_workers \<noteq> 1 then 1 else nsca_workers);
               c2 = (if \<not> workers_enabled \<and> nsca_workers \<noteq> 1
                     then Set ''nsca_workers'' ''1'' c1 else c1);
               c3 = (if workers2 \<le> 0 \<or> 2000 < workers2 then Set ''nsca_workers'' ''4'' c2 else c2);
               c4 = (if nsca_threads_per_worker < 0
                     then Set ''nsca_threads_per_worker'' ''4'' c3 else c3);
               c5 = (if 1000 < nsca_threads_per_worker
                     then Set ''nsca_threads_per_worker'' ''4'' c4 else c4);
               c6 = (if max_checks_per_connection < 1
                     then Set ''max_checks_per_connection'' ''1'' c5 else c5);
               c7 = (if check_result_path_max_files < 0
                     then Set ''check_result_path_max_files'' ''0'' c6 else c6)
           in (0, c7, dbg))"

section \<open>Trimming against its specification\<close>

lemma ltrim_dropWhile: "ltrim s (Some sp) = dropWhile (\<lambda>c. c \<in> set sp) s"
proof -
  have d: "dropWhile (\<lambda>c. c \<in> set sp) s = drop (strspn s sp) s"
    by (simp add: strspn_def dropWhile_eq_drop)
  show ?thesis by (simp add: ltrim_def Let_def d)
qed

lemma rtrim_loop_rev: "rtrim_loop s sp = rev (dropWhile (\<lambda>c. c \<in> set sp) (rev s))"
proof (induction s rule: rev_induct)
  case Nil
  then show ?case by (simp add: rtrim_loop.simps)
next
  case (snoc c s)
  then show ?case by (subst rtrim_loop.simps) simp
qed

text \<open>
  The specification of \<open>trim\<close>: what is left when separators are dropped at both ends.
\<close>

lemma trim_spec:
  "\<exists>l r. s = l @ trim s (Some sp) @ r \<and> set l \<subseteq> set sp \<and> set r \<subseteq> set sp"
proof -
  let ?P = "\<lambda>c. c \<in> set sp"
  let ?m = "rtrim_loop s sp"
  have 1: "s = ?m @ rev (takeWhile ?P (rev s))"
    by (metis rtrim_loop_rev rev_append rev_rev_ident takeWhile_dropWhile_id)
  have 2: "?m = takeWhile ?P ?m @ trim s (Some sp)"
    by (simp add: trim_def rtrim_def ltrim_dropWhile)
  have "s = takeWhile ?P ?m @ trim s (Some sp) @ rev (takeWhile ?P (rev s))"
    using 1 2 by (metis append.assoc)
  moreover have "set (takeWhile ?P xs) \<subseteq> set sp" for xs by (auto dest: set_takeWhileD)
  ultimately show ?thesis by (metis set_rev)
qed

lemma trim_ends:
  "trim s (Some sp) = [] \<or> hd (trim s (Some sp)) \<notin> set sp \<and> last (trim s (Some sp)) \<notin> set sp"
proof (cases "trim s (Some sp) = []")
  case False
  let ?P = "\<lambda>c. c \<in> set sp"
  let ?m = "rtrim_loop s sp"
  have t: "trim s (Some sp) = dropWhile ?P ?m" by (simp add: trim_def rtrim_def ltrim_dropWhile)
  have "hd (trim s (Some sp)) \<notin> set sp" using False t hd_dropWhile by metis
  moreover have "last (trim s (Some sp)) = last ?m"
    using False t by (metis last_appendR takeWhile_dropWhile_id)
  moreover have "rev ?m = dropWhile ?P (rev s)" by (simp add: rtrim_loop_rev)
  then have "last ?m \<notin> set sp"
    using False t by (metis dropWhile.simps(1) hd_dropWhile hd_rev rev_is_Nil_conv)
  ultimately show ?thesis by simp
qed simp

lemma trim_id:
  assumes "s \<noteq> []" "hd s \<notin> set sp" "last s \<notin> set sp" "set r \<subseteq> set sp"
  shows "trim (s @ r) (Some sp) = s"
proof -
  have r: "dropWhile (\<lambda>c. c \<in> set sp) (rev (s @ r)) = rev s"
  proof -
    have "dropWhile (\<lambda>c. c \<in> set sp) (rev r @ rev s) = dropWhile (\<lambda>c. c \<in> set sp) (rev s)"
      using assms(4) by (intro dropWhile_append2) auto
    also have "\<dots> = rev s" using assms by (cases s rule: rev_cases) auto
    finally show ?thesis by simp
  qed
  show ?thesis using assms r
    by (cases s) (simp_all add: trim_def rtrim_def rtrim_loop_rev ltrim_dropWhile)
qed

section \<open>The contract of the store\<close>

text \<open>
  What the readers of numeric settings rely on. \<open>get c k d\<close> is the value of \<open>k\<close> or the default
  \<open>d\<close>. A predicate is settled for a key when every reader whose own default satisfies it reads
  a value that satisfies it.
\<close>

locale config_store =
  fixes get :: "'c \<Rightarrow> string \<Rightarrow> int \<Rightarrow> int"
    and set :: "string \<Rightarrow> string \<Rightarrow> 'c \<Rightarrow> 'c"
  assumes get_set_same: "get (set k v c) k d = strtol v"
    and get_set_other: "k \<noteq> k' \<Longrightarrow> get (set k v c) k' d = get c k' d"
    and get_default: "(\<exists>v. \<forall>d. get c k d = v) \<or> (\<forall>d. get c k d = d)"
begin

definition settled :: "(int \<Rightarrow> bool) \<Rightarrow> string \<Rightarrow> 'c \<Rightarrow> bool" where
  "settled P k c \<longleftrightarrow> (\<forall>d. P d \<longrightarrow> P (get c k d))"

lemma settled_same: "P (strtol v) \<Longrightarrow> settled P k (set k v c)"
  by (simp add: settled_def get_set_same)

lemma settled_other: "k \<noteq> k' \<Longrightarrow> settled P k' (set k v c) \<longleftrightarrow> settled P k' c"
  by (simp add: settled_def get_set_other)

lemma settled_read: "P (get c k d) \<Longrightarrow> settled P k c"
  using get_default [of c k] by (auto simp: settled_def)

text \<open>The steps the checks are made of: a conditional \<open>set\<close>.\<close>

lemma get_if_other: "k \<noteq> k' \<Longrightarrow> get (if b then set k v c else c) k' d = get c k' d"
  by (simp add: get_set_other)

lemma settled_if_other:
  "k \<noteq> k' \<Longrightarrow> settled P k' (if b then set k v c else c) \<longleftrightarrow> settled P k' c"
  by (simp add: settled_other)

lemma settled_repair:
  "P (strtol v) \<Longrightarrow> (\<not> b \<Longrightarrow> settled P k c) \<Longrightarrow> settled P k (if b then set k v c else c)"
  by (simp add: settled_same)

lemma settled_checked:
  assumes "P (strtol v)" "\<not> b \<Longrightarrow> P (get c k d)"
  shows "settled P k (if b then set k v c else c)"
  using assms by (intro settled_repair settled_read)

end

interpretation store: config_store GetInt Set
proof
  show "(\<exists>v. \<forall>d. GetInt c k d = v) \<or> (\<forall>d. GetInt c k d = d)" for c k
    by (cases "data c k") (simp_all add: GetInt_def)
qed (simp_all add: GetInt_def Set_def)

lemmas store_simps = store.get_set_same store.get_set_other store.get_if_other store.settled_if_other

lemma Get_Set [simp]:
  "Get (Set k v c) k d = v"
  "k \<noteq> k' \<Longrightarrow> Get (Set k v c) k' d = Get c k' d"
  by (simp_all add: Get_def Set_def)

section \<open>What check\_config establishes\<close>

lemma strtol_defaults [simp]:
  "strtol ''30'' = 30" "strtol ''1'' = 1" "strtol ''4'' = 4" "strtol ''0'' = 0"
  by code_simp+

lemma c_int_small [simp]: "c_int 0 = 0" "c_int 1 = 1" "c_int 4 = 4" "c_int 30 = 30"
  by (simp_all add: c_int_id)

definition in_range :: "int \<Rightarrow> int \<Rightarrow> int \<Rightarrow> bool" where
  "in_range lo hi x \<longleftrightarrow> lo \<le> c_int x \<and> c_int x \<le> hi"

lemma in_range_defaults [simp]:
  "in_range 0 31449600 30" "in_range 1 2000 4" "in_range 1 2000 1" "in_range 0 1000 4"
  "in_range 1 2147483648 1" "in_range 0 2147483648 0"
  by (simp_all add: in_range_def)

lemma check_config_settled:
  assumes "check_config we c = (0, c', dbg)"
  shows "store.settled (in_range 0 31449600) ''max_packet_age'' c'"
    and "store.settled (in_range 0 26) ''decryption_method'' c'"
    and "store.settled (in_range 1 2000) ''nsca_workers'' c'"
    and "store.settled (in_range 0 1000) ''nsca_threads_per_worker'' c'"
    and "store.settled (in_range 1 2147483648) ''max_checks_per_connection'' c'"
    and "store.settled (in_range 0 2147483648) ''check_result_path_max_files'' c'"
proof -
  define c1 where "c1 = (if c_int (GetInt c ''max_packet_age'' 0) < 0
      \<or> 604800 * 52 < c_int (GetInt c ''max_packet_age'' 0) then Set ''max_packet_age'' ''30'' c else c)"
  let ?m = "c_int (GetInt c ''decryption_method'' 0)"
  let ?w = "c_int (GetInt c ''nsca_workers'' 0)"
  let ?w2 = "if \<not> we \<and> ?w \<noteq> 1 then 1 else ?w"
  let ?t = "c_int (GetInt c ''nsca_threads_per_worker'' 4)"
  let ?x = "c_int (GetInt c ''max_checks_per_connection'' 500)"
  let ?f = "c_int (GetInt c ''check_result_path_max_files'' 0)"
  define c2 where "c2 = (if \<not> we \<and> ?w \<noteq> 1 then Set ''nsca_workers'' ''1'' c1 else c1)"
  define c3 where "c3 = (if ?w2 \<le> 0 \<or> 2000 < ?w2 then Set ''nsca_workers'' ''4'' c2 else c2)"
  define c4 where "c4 = (if ?t < 0 then Set ''nsca_threads_per_worker'' ''4'' c3 else c3)"
  define c5 where "c5 = (if 1000 < ?t then Set ''nsca_threads_per_worker'' ''4'' c4 else c4)"
  define c6 where "c6 = (if ?x < 1 then Set ''max_checks_per_connection'' ''1'' c5 else c5)"
  define c7 where "c7 = (if ?f < 0 then Set ''check_result_path_max_files'' ''0'' c6 else c6)"
  have eq: "check_config we c = (if ?m < 0 \<or> 26 < ?m
      then (-1, c1, c_int (GetInt c ''debug'' 0) = 1) else (0, c7, c_int (GetInt c ''debug'' 0) = 1))"
    by (simp only: check_config_def Let_def c1_def c2_def c3_def c4_def c5_def c6_def c7_def)
  with assms have m: "0 \<le> ?m" "?m \<le> 26" and c': "c' = c7" by (auto split: if_splits)
  note others = c' c7_def c6_def c5_def c4_def c3_def c2_def c1_def store_simps
  note up = c_int_upper [of "GetInt c ''max_checks_per_connection'' 500"]
    c_int_upper [of "GetInt c ''check_result_path_max_files'' 0"]
  note checked = store.settled_checked [where P = "in_range lo hi" for lo hi]
  have "store.settled (in_range 0 31449600) ''max_packet_age'' c1"
    unfolding c1_def by (rule checked [where d = 0]) (auto simp: in_range_def)
  then show "store.settled (in_range 0 31449600) ''max_packet_age'' c'" by (simp add: others(1-7) store_simps)
  have "store.settled (in_range 0 26) ''decryption_method'' c"
    by (rule store.settled_read [where d = 0]) (use m in \<open>simp add: in_range_def\<close>)
  then show "store.settled (in_range 0 26) ''decryption_method'' c'" by (simp add: others)
  have "store.settled (in_range 1 2000) ''nsca_workers'' c3"
    unfolding c3_def by (rule checked [where d = 0]) (auto simp: in_range_def others(7,8) store_simps split: if_splits)
  then show "store.settled (in_range 1 2000) ''nsca_workers'' c'" by (simp add: others(1-5) store_simps)
  have "store.settled (in_range 0 1000) ''nsca_threads_per_worker'' c5"
    unfolding c5_def by (rule checked [where d = 4]) (auto simp: in_range_def others(5-8) store_simps)
  then show "store.settled (in_range 0 1000) ''nsca_threads_per_worker'' c'" by (simp add: others(1-3) store_simps)
  have "store.settled (in_range 1 2147483648) ''max_checks_per_connection'' c6"
    unfolding c6_def by (rule checked [where d = 500]) (use up in \<open>auto simp: in_range_def others(4-8) store_simps\<close>)
  then show "store.settled (in_range 1 2147483648) ''max_checks_per_connection'' c'" by (simp add: others(1,2) store_simps)
  show "store.settled (in_range 0 2147483648) ''check_result_path_max_files'' c'"
    unfolding c' c7_def by (rule checked [where d = 0]) (use up in \<open>auto simp: in_range_def others(3-8) store_simps\<close>)
qed

section \<open>Reading back what was written\<close>

lemma cut_comment_none: "CHR ''#'' \<notin> set (take n s) \<Longrightarrow> n \<le> length s \<Longrightarrow> cut_comment s n = s"
proof (induction n)
  case 0
  then show ?case by simp
next
  case (Suc n)
  then have "s ! n \<noteq> CHR ''#''" "CHR ''#'' \<notin> set (take n s)"
    by (auto simp: take_Suc_conv_app_nth)
  with Suc show ?case by simp
qed

text \<open>Only the part from the last \<open>#\<close> on is cut.\<close>

lemma cut_comment_last:
  "CHR ''#'' \<notin> set b \<Longrightarrow> cut_comment (a @ CHR ''#'' # b) (length (a @ CHR ''#'' # b)) = a"
proof -
  assume b: "CHR ''#'' \<notin> set b"
  have "n \<le> length b \<Longrightarrow> cut_comment (a @ CHR ''#'' # b) (length a + Suc n) = a" for n
  proof (induction n)
    case 0
    then show ?case by simp
  next
    case (Suc n)
    then have "(a @ CHR ''#'' # b) ! (length a + Suc n) = b ! n" by (simp add: nth_append)
    moreover have "b ! n \<noteq> CHR ''#''" using b Suc.prems by (metis Suc_le_lessD nth_mem)
    ultimately show ?case using Suc by simp
  qed
  from this [of "length b"] show ?thesis by simp
qed

text \<open>A setting that survives the file format: the key is valid, the value is on one clean line.\<close>

definition setting_ok :: "string set \<Rightarrow> string \<times> string \<Rightarrow> bool" where
  "setting_ok valid = (\<lambda>(k, v). k \<in> valid \<and> k \<noteq> [] \<and> v \<noteq> []
     \<and> set k \<inter> set (CHR ''='' # CHR ''#'' # CHR 0x00 # line_seps) = {}
     \<and> set v \<inter> {CHR ''#'', CHR 0x00, CHR 0x0A} = {} \<and> last v \<notin> set line_seps
     \<and> length k + length v + 2 < DBUFFER_4K_SIZE)"

definition setting_line :: "string \<times> string \<Rightarrow> string" where
  "setting_line = (\<lambda>(k, v). k @ CHR ''='' # v @ [CHR 0x0A])"

lemma takeWhile_until: "x \<notin> set a \<Longrightarrow> takeWhile (\<lambda>c. c \<noteq> x) (a @ x # r) = a"
  by (induction a) auto

lemma dropWhile_until: "x \<notin> set a \<Longrightarrow> dropWhile (\<lambda>c. c \<noteq> x) (a @ x # r) = x # r"
  by (induction a) auto

lemma config_line_setting:
  assumes "setting_ok (valid_keywords c) (k, v)"
  shows "config_line c (setting_line (k, v)) = Set k v c"
proof -
  let ?b = "k @ CHR ''='' # v"
  have ok: "k \<noteq> []" "v \<noteq> []" "k \<in> valid_keywords c"
      "set k \<inter> set (CHR ''='' # CHR ''#'' # CHR 0x00 # line_seps) = {}"
      "set v \<inter> {CHR ''#'', CHR 0x00, CHR 0x0A} = {}" "last v \<notin> set line_seps"
    using assms by (simp_all add: setting_ok_def)
  have "nul_free (setting_line (k, v))" using ok by (auto simp: setting_line_def nul_free_def)
  then have cs: "c_str (setting_line (k, v)) = ?b @ [CHR 0x0A]" by (simp add: setting_line_def)
  have hd: "hd ?b \<notin> set line_seps" using ok by (cases k) auto
  have last: "last ?b \<notin> set line_seps" using ok by simp
  have t1: "trim (?b @ [CHR 0x0A]) (Some line_seps) = ?b"
    using hd last by (intro trim_id) (simp_all add: line_seps_def)
  have t2: "trim ?b (Some line_seps) = ?b"
    using trim_id [of ?b line_seps "[]"] hd last by simp
  have cc: "cut_comment ?b (length ?b) = ?b" using ok by (intro cut_comment_none) auto
  have tw: "takeWhile (\<lambda>x. x \<noteq> CHR ''='') ?b = k" "dropWhile (\<lambda>x. x \<noteq> CHR ''='') ?b = CHR ''='' # v"
    using ok by (auto intro!: takeWhile_until dropWhile_until)
  show ?thesis
    using ok by (simp only: config_line_def cs t1 Let_def cc t2 tw) simp
qed

lemma fgets_setting_line:
  assumes "setting_ok V kv"
  shows "fgets DBUFFER_4K_SIZE (setting_line kv @ rest) = (setting_line kv, rest)"
proof -
  obtain k v where kv: "kv = (k, v)" by (cases kv)
  let ?b = "k @ CHR ''='' # v"
  have "CHR 0x0A \<notin> set ?b" using assms by (auto simp: kv setting_ok_def line_seps_def)
  then have "takeWhile (\<lambda>c. c \<noteq> CHR 0x0A) (?b @ CHR 0x0A # rest) = ?b"
    by (rule takeWhile_until)
  moreover have "setting_line kv @ rest = ?b @ CHR 0x0A # rest" by (simp add: kv setting_line_def)
  moreover have "Suc (length ?b) \<le> DBUFFER_4K_SIZE - 1"
    using assms by (simp add: kv setting_ok_def DBUFFER_4K_SIZE_def)
  ultimately show ?thesis
    by (simp add: fgets_def Let_def min_absorb1 kv setting_line_def)
qed

lemma read_config_loop_settings:
  assumes "\<forall>kv \<in> set kvs. setting_ok (valid_keywords c) kv"
  shows "read_config_loop c (concat (map setting_line kvs)) = foldl (\<lambda>c (k, v). Set k v c) c kvs"
  using assms
proof (induction kvs arbitrary: c)
  case Nil
  then show ?case by (simp add: read_config_loop.simps)
next
  case (Cons kv kvs)
  obtain k v where kv: "kv = (k, v)" by (cases kv)
  have ok: "setting_ok (valid_keywords c) (k, v)" using Cons.prems kv by simp
  have ne: "concat (map setting_line (kv # kvs)) \<noteq> []" by (simp add: kv setting_line_def)
  have "valid_keywords (Set k v c) = valid_keywords c" by (simp add: Set_def)
  with Cons.IH [of "Set k v c"] Cons.prems
  have "read_config_loop (Set k v c) (concat (map setting_line kvs))
      = foldl (\<lambda>c (k, v). Set k v c) (Set k v c) kvs" by simp
  moreover have "setting_line (k, v) \<noteq> []" by (simp add: setting_line_def)
  ultimately show ?case
    using ne fgets_setting_line [OF ok, of "concat (map setting_line kvs)"]
    by (subst read_config_loop.simps) (simp add: kv config_line_setting [OF ok])
qed

lemma config_line_keys [simp]: "valid_keywords (config_line c s) = valid_keywords c"
  by (auto simp: config_line_def Let_def Set_def split: if_splits)

section \<open>Properties\<close>

text \<open>C20: A file made of \<open>key=value\<close> lines with valid keys and clean values is read into exactly these
  settings, later lines overriding earlier ones.\<close>

theorem read_config_round_trip:
  assumes "\<forall>kv \<in> set kvs. setting_ok (valid_keywords c) kv"
  shows "read_config c (Some (concat (map setting_line kvs))) = Inr (foldl (\<lambda>c (k, v). Set k v c) c kvs)"
  using read_config_loop_settings [OF assms] by (simp add: read_config_def)

lemma read_config_round_trip_witness:
  "read_config new_config (Some (''password=a b=c'' @ [CHR 0x0A] @ ''debug=1'' @ [CHR 0x0A]))
     = Inr (Set ''debug'' ''1'' (Set ''password'' ''a b=c'' new_config))"
  using read_config_round_trip [of "[(''password'', ''a b=c''), (''debug'', ''1'')]" new_config]
  by (simp add: setting_ok_def setting_line_def new_config_def allowed_config_keys_def line_seps_def
      DBUFFER_4K_SIZE_def)

text \<open>Whatever the file holds, only allowed keys enter the store; every other setting keeps the
  value it had.\<close>

theorem read_config_allowed_keys:
  assumes "read_config c file = Inr c'" "k \<notin> valid_keywords c"
  shows "data c' k = data c k"
proof -
  have line: "data (config_line c s) k = data c k" if "k \<notin> valid_keywords c" for c s
    using that by (auto simp: config_line_def Let_def Set_def)
  have "k \<notin> valid_keywords c \<Longrightarrow> data (read_config_loop c s) k = data c k" for s
  proof (induction c s rule: read_config_loop.induct)
    case (1 c s)
    show ?case
    proof (cases "s = []")
      case True
      then show ?thesis by (simp add: read_config_loop.simps)
    next
      case False
      obtain a b where ab: "fgets DBUFFER_4K_SIZE s = (a, b)" by fastforce
      with 1 False line [of c a] show ?thesis
        by (subst read_config_loop.simps) (simp add: config_line_keys)
    qed
  qed
  with assms show ?thesis by (auto simp: read_config_def split: option.splits)
qed

lemma read_config_allowed_keys_witness:
  "\<exists>c'. read_config new_config (Some ''uid=0'') = Inr c' \<and> data c' ''uid'' = None"
  using read_config_allowed_keys [of new_config "Some ''uid=0''" _ "''uid''"]
  by (auto simp: read_config_def new_config_def allowed_config_keys_def)

lemma check_config_settled_values:
  assumes "check_config we c = (0, c', dbg)"
  shows "in_range 0 31449600 (GetInt c' ''max_packet_age'' 0)"
    and "in_range 0 26 (GetInt c' ''decryption_method'' 0)"
    and "in_range 0 1000 (GetInt c' ''nsca_threads_per_worker'' 0)"
    and "in_range 1 2147483648 (GetInt c' ''max_checks_per_connection'' 1)"
  using check_config_settled [OF assms] by (simp_all add: store.settled_def in_range_def)

text \<open>C27: After \<open>check_config\<close> has accepted the settings, every reader of a numeric setting whose
  default is in the range gets a value in the range: at most 52 weeks for the packet age, a known
  method, 1 to 2000 workers, at most 1000 threads, at least one check per connection and no
  negative limit of files.\<close>

theorem check_config_ranges:
  assumes "check_config we c = (0, c', dbg)"
  shows "(in_range 0 31449600 d \<longrightarrow> in_range 0 31449600 (GetInt c' ''max_packet_age'' d))
    \<and> (in_range 0 26 d \<longrightarrow> in_range 0 26 (GetInt c' ''decryption_method'' d))
    \<and> (in_range 1 2000 d \<longrightarrow> in_range 1 2000 (GetInt c' ''nsca_workers'' d))
    \<and> (in_range 0 1000 d \<longrightarrow> in_range 0 1000 (GetInt c' ''nsca_threads_per_worker'' d))
    \<and> (in_range 1 2147483648 d \<longrightarrow> in_range 1 2147483648 (GetInt c' ''max_checks_per_connection'' d))
    \<and> (in_range 0 2147483648 d \<longrightarrow> in_range 0 2147483648 (GetInt c' ''check_result_path_max_files'' d))"
  using check_config_settled [OF assms] by (simp add: store.settled_def)

lemma check_config_ranges_witness:
  "\<exists>c'. check_config True (Set ''nsca_workers'' ''4'' new_config) = (0, c', False)
     \<and> in_range 1 2000 (GetInt c' ''nsca_workers'' 4)"
proof -
  obtain c' where c: "check_config True (Set ''nsca_workers'' ''4'' new_config) = (0, c', False)"
    by (simp add: check_config_def Let_def GetInt_def Set_def new_config_def c_int_id)
  with check_config_ranges [OF c, of 4] show ?thesis by auto
qed

text \<open>\<open>trim\<close> removes exactly the separators at the two ends: what it returns is what is left of
  the string after removing separators from both sides, and neither ends in one.\<close>

theorem trim_correct:
  "(\<exists>l r. s = l @ trim s (Some sp) @ r \<and> set l \<subseteq> set sp \<and> set r \<subseteq> set sp)
   \<and> (trim s (Some sp) = [] \<or> hd (trim s (Some sp)) \<notin> set sp \<and> last (trim s (Some sp)) \<notin> set sp)"
  using trim_spec trim_ends by blast

end
