(* ===== verification/Nsca_Stats.thy ===== *)
theory Nsca_Stats
  imports Nsca_Result_Writer Nsca_Config
begin

text \<open>
  \<open>stat_writer.cpp\<close>: the statistics file each worker rewrites every few seconds. The process
  manager's worker number and start time and the process id are arguments of the constructor.
\<close>

record stat_writer =
  path_stat :: string
  internal_process_id :: int
  mypid :: int
  started :: int

definition new_stat_writer :: "config \<Rightarrow> int \<Rightarrow> int \<Rightarrow> int \<Rightarrow> stat_writer" where
  "new_stat_writer cfg process_id started_at pid =
     \<lparr>path_stat = snprintf FILENAME_MAX
        (c_str (Get cfg ''dir_stats'' ''/tmp'') @ ''/nsca-stats-'' @ show_int process_id @ ''.txt''),
      internal_process_id = process_id, mypid = pid, started = started_at\<rparr>"

definition stats_text :: "stat_writer \<Rightarrow> int \<Rightarrow> u64 \<Rightarrow> u64 \<Rightarrow> u64 \<Rightarrow> u64 \<Rightarrow> u64 \<Rightarrow> string" where
  "stats_text sw now cps connections counter report_success report_failed =
     ''[nsca stats]'' @ nl
     @ ''pid='' @ show_int (mypid sw) @ nl
     @ ''process_started_at='' @ show_int (started sw) @ nl
     @ ''file_created_at='' @ show_int now @ nl
     @ ''connections_per_sec='' @ show_nat (unat cps) @ nl
     @ ''connections_current='' @ show_nat (unat connections) @ nl
     @ ''connections_counter='' @ show_nat (unat counter) @ nl
     @ ''report_success='' @ show_nat (unat report_success) @ nl
     @ ''report_failed='' @ show_nat (unat report_failed) @ nl"

text \<open>\<open>fopen_ok\<close>: whether the file can be opened for writing. The bytes are assumed to reach it.\<close>

definition save_stats ::
    "bool \<Rightarrow> stat_writer \<Rightarrow> int \<Rightarrow> u64 \<Rightarrow> u64 \<Rightarrow> u64 \<Rightarrow> u64 \<Rightarrow> u64 \<Rightarrow> world \<Rightarrow> world" where
  "save_stats fopen_ok sw now cps connections counter report_success report_failed w =
     (if path_stat sw = [] then w
      else if \<not> fopen_ok then w
      else
        let w1 = open_trunc (path_stat sw) w
        in w1\<lparr>fs := (fs w1)(path_stat sw \<mapsto> (the (fs w1 (path_stat sw)))\<lparr>file_data :=
             stats_text sw now cps connections counter report_success report_failed\<rparr>)\<rparr>)"

text \<open>\<open>readable\<close> and \<open>unlinked\<close>: whether \<open>access\<close> and \<open>unlink\<close> succeed.\<close>

definition stat_writer_cleanup :: "bool \<Rightarrow> bool \<Rightarrow> stat_writer \<Rightarrow> world \<Rightarrow> world" where
  "stat_writer_cleanup readable unlinked sw w =
     (if path_stat sw = [] then w
      else if readable \<and> unlinked then unlink (path_stat sw) w else w)"

lemma stat_path_distinct:
  assumes "path_stat (new_stat_writer cfg i s p) = path_stat (new_stat_writer cfg j s' p')"
    and "0 \<le> i" "i < 2 ^ 31" "0 \<le> j" "j < 2 ^ 31"
    and "length (Get cfg ''dir_stats'' ''/tmp'') < 4000"
  shows "i = j"
proof -
  let ?d = "c_str (Get cfg ''dir_stats'' ''/tmp'')"
  have d: "length ?d < 4000"
    using assms(6) length_c_str_le [of "Get cfg ''dir_stats'' ''/tmp''"] by simp
  have l: "length (show_int k) \<le> 20" if "0 \<le> k" "k < 2 ^ 31" for k
    using length_show_int_time [of k] that by simp
  have "?d @ ''/nsca-stats-'' @ show_int i @ ''.txt'' = ?d @ ''/nsca-stats-'' @ show_int j @ ''.txt''"
    using assms(1) l [OF assms(2,3)] l [OF assms(4,5)] d
    by (simp add: new_stat_writer_def nsca_consts)
  then have "show_int i = show_int j" by simp
  then have "nat i = nat j" using assms(2,4) digits_value_show_nat
    by (metis show_int_def linorder_not_less)
  then show ?thesis using assms(2,4) by simp
qed

end
