(* ===== verification/Nsca_Network.thy ===== *)
theory Nsca_Network
  imports Nsca_Crypt Nsca_Fifo Nsca_Result_Path Nsca_Stats
begin

text \<open>
  \<open>network.cpp\<close>: the state of one worker's event loop, its constructor, the per-second timer,
  the shutdown handshake and the statistics. libevent's objects are the flags \<open>ev_base\<close>,
  \<open>listener_enabled\<close>, \<open>timer_armed\<close>, \<open>loopexit\<close> and \<open>loopbreak\<close>. Accepting and serving a
  connection is in \<open>Nsca_Client\<close>.
\<close>

section \<open>State\<close>

definition RPS_RESOLUTION :: nat where [nsca_consts]: "RPS_RESOLUTION = 5"
definition DECRYPTION_MODE_SHARED_CRYPT_INSTANCE :: int where [nsca_consts]:
  "DECRYPTION_MODE_SHARED_CRYPT_INSTANCE = 1"

record 'td network =
  ev_base :: bool
  listener_enabled :: bool
  timer_armed :: bool
  loopexit :: bool
  loopbreak :: bool
  shutdown_requested :: bool
  now :: int
  cnow :: string
  connections :: u32
  counter :: u64
  counter_prev :: u64
  fifoClients :: "fifo_client list option"
  resultPathClient :: "result_path_client option"
  StatWriter :: stat_writer
  command_file :: string
  check_result_path :: string
  password :: string
  decryption_method :: int
  max_packet_age :: int
  max_packet_age_enabled :: int
  max_checks_per_connection :: int
  nsca_threads_per_worker :: int
  decryption_mode :: int
  use_network_CI :: bool
  shared_transmission_iv :: "byte list"
  counter_rps :: "u64 list"
  message_success :: u64
  message_failed :: u64
  CI :: "'td crypt_instance option"

text \<open>\<open>decryption_mode & DECRYPTION_MODE_SHARED_CRYPT_INSTANCE\<close>, as a condition.\<close>

definition shared_crypt_instance :: "'td network \<Rightarrow> bool" where
  "shared_crypt_instance n \<longleftrightarrow>
     (decryption_mode n AND DECRYPTION_MODE_SHARED_CRYPT_INSTANCE) \<noteq> 0"

section \<open>Where a worker listens\<close>

text \<open>
  The part of \<open>run\<close> that reads the address: whether it is taken as IPv6, its text and the port,
  which goes through a \<open>uint16_t\<close>.
\<close>

definition listen_endpoint :: "config \<Rightarrow> bool \<times> string \<times> u16" where
  "listen_endpoint cfg =
     (let port = word_of_int (GetInt cfg ''server_port'' 5667);
          server_address = c_str (Get cfg ''server_address'' ''0.0.0.0'')
      in (CHR '':'' \<in> set server_address, server_address, port))"

lemma listen_port: "uint (snd (snd (listen_endpoint cfg))) = GetInt cfg ''server_port'' 5667 mod 65536"
  by (simp add: listen_endpoint_def Let_def uint_word_of_int)

text \<open>
  The address \<open>run\<close> binds to. The structure is cleared first, and the result of \<open>inet_pton\<close> is not
  looked at: when it fails the address stays zero.
\<close>

datatype address_family = PF_INET | PF_INET6

record socket_address =
  sin_family :: address_family
  sin_port :: "byte list"
  sin_addr :: "byte list"

definition bind_address :: "(address_family \<Rightarrow> string \<Rightarrow> byte list option) \<Rightarrow> config \<Rightarrow> socket_address" where
  "bind_address inet_pton cfg =
     (let (colon, server_address, port) = listen_endpoint cfg;
          family = (if colon then PF_INET6 else PF_INET)
      in \<lparr>sin_family = family, sin_port = to_be16 port,
          sin_addr = (case inet_pton family server_address of
                        Some bs \<Rightarrow> bs
                      | None \<Rightarrow> replicate (case family of PF_INET \<Rightarrow> 4 | PF_INET6 \<Rightarrow> 16) 0)\<rparr>)"

section \<open>Construction\<close>

text \<open>
  What the constructor gets from outside: the time and its \<open>ctime\<close> text, the descriptor of
  \<open>inotify_init1\<close>, the shared IV of the thread manager, the state of the IV generator and the
  statistics writer. \<open>Inl\<close> is the \<open>std::runtime_error\<close> it throws.
\<close>

definition new_network ::
    "'td mcrypt \<Rightarrow> (alloc_site \<Rightarrow> bool) \<Rightarrow> config \<Rightarrow> int \<Rightarrow> string \<Rightarrow> int \<Rightarrow> byte list \<Rightarrow> rnd \<Rightarrow>
     stat_writer \<Rightarrow> string + 'td network" where
  "new_network lib mem cfg time_now ctime inotify_fd shared_iv r sw =
     (let threads = c_int (GetInt cfg ''nsca_threads_per_worker'' 0);
          cmd = Get cfg ''command_file'' [];
          crp = Get cfg ''check_result_path'' [];
          iters = (if 0 < threads then nat threads else 1);
          n = \<lparr>ev_base = False, listener_enabled = False, timer_armed = False, loopexit = False,
               loopbreak = False, shutdown_requested = False, now = time_now, cnow = ctime,
               connections = 0, counter = 0, counter_prev = 0,
               fifoClients = (if cmd \<noteq> [] then Some (replicate iters (new_fifo_client cmd)) else None),
               resultPathClient =
                 (if crp \<noteq> []
                  then Some (new_result_path_client (GetInt cfg ''check_result_path_max_files'' 0) inotify_fd)
                  else None),
               StatWriter = sw, command_file = cmd, check_result_path = crp,
               password = Get cfg ''password'' [],
               decryption_method = c_int (GetInt cfg ''decryption_method'' 0),
               max_packet_age = c_int (GetInt cfg ''max_packet_age'' 0),
               max_packet_age_enabled = c_int (GetInt cfg ''max_packet_age_enabled'' 0),
               max_checks_per_connection = c_int (GetInt cfg ''max_checks_per_connection'' 1),
               nsca_threads_per_worker = threads,
               decryption_mode = c_int (GetInt cfg ''decryption_mode'' 0),
               use_network_CI = False, shared_transmission_iv = shared_iv,
               counter_rps = replicate RPS_RESOLUTION 0,
               message_success = 0, message_failed = 0, CI = None\<rparr>
      in if threads < 1 \<and> shared_crypt_instance n
         then (let (rc, ci, r') = encrypt_init lib mem (password n) (decryption_method n)
                                    (Some (shared_transmission_iv n)) r
               in if rc = OK then Inr (n\<lparr>CI := ci, use_network_CI := True\<rparr>)
                  else Inl ''Unable to generate crypt_instance in parent::parent().'')
         else Inr n)"

section \<open>Statistics\<close>

definition report_success_failed :: "u16 \<Rightarrow> u16 \<Rightarrow> 'td network \<Rightarrow> 'td network" where
  "report_success_failed success failed n =
     (let n1 = (if success \<noteq> 0 then n\<lparr>message_success := message_success n + ucast success\<rparr> else n)
      in if failed \<noteq> 0 then n1\<lparr>message_failed := message_failed n1 + ucast failed\<rparr> else n1)"

definition save_statistics :: "bool \<Rightarrow> 'td network \<Rightarrow> world \<Rightarrow> world" where
  "save_statistics fopen_ok n w =
     (let rps = sum_list (counter_rps n) div word_of_nat RPS_RESOLUTION
      in save_stats fopen_ok (StatWriter n) (now n) rps (ucast (connections n)) (counter n)
           (message_success n) (message_failed n) w)"

section \<open>Shutdown\<close>

definition network_stop :: "'td network \<Rightarrow> int \<times> 'td network" where
  "network_stop n =
     (if \<not> ev_base n then (1, n)
      else
        let n1 = n\<lparr>listener_enabled := False\<rparr>
        in if connections n1 \<noteq> 0 then (1, n1\<lparr>shutdown_requested := True\<rparr>)
           else (0, n1\<lparr>loopexit := True\<rparr>))"

definition network_sigint :: "'td network \<Rightarrow> 'td network" where
  "network_sigint n = n\<lparr>shutdown_requested := True\<rparr>"

section \<open>The timer\<close>

text \<open>\<open>start_timer\<close> and the part of \<open>run\<close> before the loop.\<close>

definition start_timer :: "'td network \<Rightarrow> 'td network" where
  "start_timer n = (if \<not> ev_base n then n else n\<lparr>timer_armed := True\<rparr>)"

definition network_run_start :: "watch_env \<Rightarrow> 'td network \<Rightarrow> 'td network \<times> watch_call list" where
  "network_run_start e n =
     (let n1 = start_timer (n\<lparr>ev_base := True, listener_enabled := True\<rparr>)
      in (case resultPathClient n1 of
            None \<Rightarrow> (n1, [])
          | Some c \<Rightarrow> (let (c', calls) = result_path_init e (check_result_path n1) c
                       in (n1\<lparr>resultPathClient := Some c'\<rparr>, calls))))"

text \<open>
  \<open>run\<close> up to the loop: the listener is bound first, with \<open>LEV_OPT_REUSEABLE_PORT\<close> when the program is
  built with workers. \<open>can_bind\<close> is whether \<open>evconnlistener_new_bind\<close> succeeds; \<open>None\<close> is the failed
  assertion.
\<close>

definition network_run_open ::
    "bool \<Rightarrow> (address_family \<Rightarrow> string \<Rightarrow> byte list option) \<Rightarrow> (bool \<Rightarrow> socket_address \<Rightarrow> bool) \<Rightarrow> watch_env \<Rightarrow>
     config \<Rightarrow> 'td network \<Rightarrow> ('td network \<times> watch_call list) option" where
  "network_run_open workers_enabled inet_pton can_bind e cfg n =
     (if can_bind workers_enabled (bind_address inet_pton cfg) then Some (network_run_start e n) else None)"

text \<open>
  One expiry of the timer, which is not persistent: it is armed again at the end unless the loop
  is left. \<open>time_now\<close> (not negative) and \<open>ctime\<close> are the new time; the difference of the two
  counters goes through an \<open>int\<close>.
\<close>

definition timer_tick ::
    "watch_env \<Rightarrow> bool \<Rightarrow> int \<Rightarrow> string \<Rightarrow> 'td network \<Rightarrow> world \<Rightarrow> 'td network \<times> world" where
  "timer_tick e fopen_ok time_now ctime n w =
     (let n1 = n\<lparr>now := time_now, cnow := ctime, timer_armed := False\<rparr>;
          bucket_id = nat (now n1 mod int RPS_RESOLUTION);
          diff = c_int (uint (counter n1 - counter_prev n1));
          n2 = n1\<lparr>counter_prev := counter n1,
                  counter_rps := (counter_rps n1)[bucket_id := word_of_int diff]\<rparr>;
          w2 = (if bucket_id = 0 then save_statistics fopen_ok n2 w else w);
          n3 = (case resultPathClient n2 of
                  Some c \<Rightarrow> if \<not> shutdown_requested n2
                            then n2\<lparr>resultPathClient := Some (fst (result_path_check e (check_result_path n2) c))\<rparr>
                            else n2
                | None \<Rightarrow> n2)
      in (n3, w2))"

definition timer_proxy ::
    "watch_env \<Rightarrow> bool \<Rightarrow> int \<Rightarrow> string \<Rightarrow> 'td network \<Rightarrow> world \<Rightarrow> 'td network \<times> world" where
  "timer_proxy e fopen_ok time_now ctime n w =
     (let (n3, w2) = timer_tick e fopen_ok time_now ctime n w
      in if shutdown_requested n3
         then (let (rc, n4) = network_stop n3
               in ((if rc \<noteq> 0 then n4\<lparr>timer_armed := True\<rparr> else n4), w2))
         else (n3\<lparr>timer_armed := True\<rparr>, w2))"

lemma timer_tick_keeps [simp]:
  "connections (fst (timer_tick e f t ct n w)) = connections n"
  "loopexit (fst (timer_tick e f t ct n w)) = loopexit n"
  "ev_base (fst (timer_tick e f t ct n w)) = ev_base n"
  "shutdown_requested (fst (timer_tick e f t ct n w)) = shutdown_requested n"
  "listener_enabled (fst (timer_tick e f t ct n w)) = listener_enabled n"
  "counter (fst (timer_tick e f t ct n w)) = counter n"
  "timer_armed (fst (timer_tick e f t ct n w)) = False"
  "now (fst (timer_tick e f t ct n w)) = t"
  by (simp_all add: timer_tick_def Let_def split: option.split)

section \<open>Connections per second\<close>

lemma timer_tick_rps [simp]:
  "counter_rps (fst (timer_tick e f t ct n w)) =
     (counter_rps n)[nat (t mod 5) := word_of_int (c_int (uint (counter n - counter_prev n)))]"
  "counter_prev (fst (timer_tick e f t ct n w)) = counter n"
  by (simp_all add: timer_tick_def Let_def RPS_RESOLUTION_def split: option.split)

text \<open>Ticks in a row: the time of each and the counter of connections it finds.\<close>

fun ticks :: "watch_env \<Rightarrow> world \<Rightarrow> (int \<times> u64) list \<Rightarrow> 'td network \<Rightarrow> 'td network" where
  "ticks e w [] n = n"
| "ticks e w ((t, k) # xs) n = ticks e w xs (fst (timer_tick e True t [] (n\<lparr>counter := k\<rparr>) w))"

text \<open>Five consecutive seconds fill the five buckets, whichever comes first.\<close>

lemma five_buckets:
  fixes xs :: "u64 list"
  assumes "length xs = 5"
  shows "sum_list (((((xs[nat (t mod 5) := a])[nat ((t + 1) mod 5) := b])[nat ((t + 2) mod 5) := c])
      [nat ((t + 3) mod 5) := d])[nat ((t + 4) mod 5) := x]) = a + b + c + d + x"
proof -
  obtain x0 x1 x2 x3 x4 where xs: "xs = [x0, x1, x2, x3, x4]"
    using assms by (auto simp: length_Suc_conv numeral_eq_Suc)
  define r where "r = t mod 5"
  have r: "(t + k) mod 5 = (r + k) mod 5" for k by (simp add: r_def mod_add_left_eq)
  have "r = 0 \<or> r = 1 \<or> r = 2 \<or> r = 3 \<or> r = 4" by (simp add: r_def) presburger
  then show ?thesis
    unfolding r by (auto simp: xs simp flip: r_def)
qed

lemma word_of_int_c_int_small: "uint (k :: u64) < 2 ^ 31 \<Longrightarrow> word_of_int (c_int (uint k)) = k"
  by (subst c_int_id) (auto intro: order_trans [OF _ uint_ge_0])

lemma timer_tick_keeps_stats [simp]:
  "StatWriter (fst (timer_tick e f t ct n w)) = StatWriter n"
  "message_success (fst (timer_tick e f t ct n w)) = message_success n"
  "message_failed (fst (timer_tick e f t ct n w)) = message_failed n"
  by (simp_all add: timer_tick_def Let_def split: option.split)

lemma timer_tick_saves:
  assumes "t mod 5 = 0"
  shows "snd (timer_tick e f t ct n w) = save_stats f (StatWriter n) t
      (sum_list (counter_rps (fst (timer_tick e f t ct n w))) div 5) (ucast (connections n)) (counter n)
      (message_success n) (message_failed n) w"
  using assms by (simp add: timer_tick_def Let_def save_statistics_def RPS_RESOLUTION_def split: option.split)

section \<open>The end of the loop, and the destructor\<close>

definition network_run_end :: "'td network \<Rightarrow> 'td network \<times> watch_call list" where
  "network_run_end n =
     (let n1 = n\<lparr>listener_enabled := False\<rparr>;
          (n2, calls) = (case resultPathClient n1 of
                           None \<Rightarrow> (n1, [])
                         | Some c \<Rightarrow> (let (c', u) = result_path_uninit c
                                     in (n1\<lparr>resultPathClient := Some c'\<rparr>, u)))
      in (n2\<lparr>ev_base := False\<rparr>, calls))"

text \<open>
  The destructor: what it releases, in order, then the destructor of the statistics writer. The
  array of FIFO clients is walked by the number of threads (\<open>None\<close>: past its end, or the undefined
  clean-up of a crypt instance).
\<close>

datatype release = Close_fifo int | Watch watch_call | Cleanup cleanup_call

definition delete_network ::
    "bool \<Rightarrow> bool \<Rightarrow> bool \<Rightarrow> 'td network \<Rightarrow> world \<Rightarrow> ('td network \<times> release list \<times> world) option" where
  "delete_network initialized readable unlinked n w =
     (let iters = (if 0 < nsca_threads_per_worker n then nat (nsca_threads_per_worker n) else 1);
          fcs = (case fifoClients n of None \<Rightarrow> [] | Some fcs \<Rightarrow> take iters fcs);
          fifo_calls = map (\<lambda>c. Close_fifo (fd c)) (filter fp fcs);
          watch_calls = (case resultPathClient n of
                           None \<Rightarrow> [] | Some c \<Rightarrow> map Watch (snd (result_path_uninit c)));
          n1 = n\<lparr>fifoClients := None, resultPathClient := None, CI := None\<rparr>
      in if fifoClients n \<noteq> None \<and> length fcs < iters then None
         else (case encrypt_cleanup initialized (decryption_method n) (CI n) of
                 None \<Rightarrow> None
               | Some calls \<Rightarrow> Some (n1, fifo_calls @ watch_calls @ map Cleanup calls,
                                   stat_writer_cleanup readable unlinked (StatWriter n) w)))"

section \<open>What the constructor takes from the settings\<close>

lemma encrypt_init_OK_instance:
  "fst (encrypt_init lib mem pw m iv r) = OK \<Longrightarrow> \<exists>y. fst (snd (encrypt_init lib mem pw m iv r)) = Some y"
  by (auto simp: encrypt_init_def Let_def case_prod_beta nsca_consts split: option.splits if_splits)

lemma if_init_Inr:
  assumes "(if a then (case e of (rc, ci, r') \<Rightarrow> if rc = OK then Inr (f ci) else Inl msg) else Inr n0) = Inr n"
  shows "\<not> a \<and> n = n0 \<or> a \<and> fst e = OK \<and> n = f (fst (snd e))"
  using assms by (auto split: if_splits prod.splits)

lemma new_network_settings:
  assumes "new_network lib mem cfg t ct ifd iv r sw = Inr n"
  shows "decryption_method n = c_int (GetInt cfg ''decryption_method'' 0)"
    and "max_packet_age n = c_int (GetInt cfg ''max_packet_age'' 0)"
    and "max_checks_per_connection n = c_int (GetInt cfg ''max_checks_per_connection'' 1)"
    and "nsca_threads_per_worker n = c_int (GetInt cfg ''nsca_threads_per_worker'' 0)"
    and "fifoClients n = (if command_file n = [] then None
        else Some (replicate (max 1 (nat (nsca_threads_per_worker n))) (new_fifo_client (command_file n))))"
    and "resultPathClient n = None \<longleftrightarrow> check_result_path n = []"
    and "use_network_CI n \<longleftrightarrow> shared_crypt_instance n \<and> nsca_threads_per_worker n < 1"
    and "use_network_CI n \<longleftrightarrow> CI n \<noteq> None"
    and "password n = Get cfg ''password'' []"
    and "shared_transmission_iv n = iv"
  using assms unfolding new_network_def Let_def
  by (drule_tac [!] if_init_Inr)
    (auto simp: shared_crypt_instance_def encrypt_init_OK_instance max_def split: if_splits)

text \<open>A network that was just made can be deleted, and then nothing but its crypt instance is released.\<close>

lemma new_network_instance:
  assumes "new_network lib mem cfg t ct ifd iv r sw = Inr n"
  shows "CI n = None \<or> (\<exists>e. encrypt_init lib mem (password n) (decryption_method n) (Some iv) r = (OK, CI n, e))"
    and "resultPathClient n = (if check_result_path n = [] then None
      else Some (new_result_path_client (GetInt cfg ''check_result_path_max_files'' 0) ifd))"
  using assms unfolding new_network_def Let_def
  by (drule_tac [!] if_init_Inr) (auto simp: prod_eq_iff split: if_splits)

lemma delete_network_new:
  assumes "new_network lib mem cfg t ct (-1) iv r sw = Inr n"
  shows "\<exists>n' calls. delete_network initialized a b n w =
      Some (n', map Cleanup calls, stat_writer_cleanup a b (StatWriter n) w)
    \<and> encrypt_cleanup initialized (decryption_method n) (CI n) = Some calls"
proof -
  have "encrypt_cleanup initialized (decryption_method n) (CI n) \<noteq> None"
    using new_network_instance(1) [OF assms] encrypt_cleanup_after_init by (fastforce simp: encrypt_cleanup_def)
  then obtain calls where calls: "encrypt_cleanup initialized (decryption_method n) (CI n) = Some calls" by auto
  have "filter fp (replicate k (new_fifo_client p)) = []" for k p
    by (simp add: new_fifo_client_def)
  moreover have "(case resultPathClient n of None \<Rightarrow> [] | Some c \<Rightarrow> map Watch (snd (result_path_uninit c))) = []"
    by (simp add: new_network_instance(2) [OF assms] result_path_uninit_def unwatch_directory_def
        new_result_path_client_def)
  ultimately show ?thesis
    using new_network_settings(5) [OF assms] calls by (simp add: delete_network_def Let_def max_def)
qed

section \<open>Lemmas\<close>

lemma network_stop_simps:
  "ev_base n \<Longrightarrow> network_stop n =
     (if connections n \<noteq> 0 then (1, n\<lparr>listener_enabled := False, shutdown_requested := True\<rparr>)
      else (0, n\<lparr>listener_enabled := False, loopexit := True\<rparr>))"
  by (simp add: network_stop_def Let_def)

lemma timer_proxy_running:
  "\<not> shutdown_requested n \<Longrightarrow> fst (timer_proxy e f t ct n w) = (fst (timer_tick e f t ct n w))\<lparr>timer_armed := True\<rparr>"
  by (simp add: timer_proxy_def case_prod_beta)

text \<open>After a tick the statistics count what has arrived since the tick before.\<close>

lemma timer_tick_bucket:
  assumes "0 \<le> t" "length (counter_rps n) = RPS_RESOLUTION" "uint (counter n - counter_prev n) < 2 ^ 31"
  shows "counter_rps (fst (timer_tick e f t ct n w)) ! nat (t mod 5) = counter n - counter_prev n
    \<and> counter_prev (fst (timer_tick e f t ct n w)) = counter n"
proof -
  have "c_int (uint (counter n - counter_prev n)) = uint (counter n - counter_prev n)"
    using assms(3) order_trans [OF _ uint_ge_0, of "- (2 ^ 31)" "counter n - counter_prev n"]
    by (intro c_int_id) simp_all
  then have "(word_of_int (c_int (uint (counter n - counter_prev n))) :: u64) = counter n - counter_prev n"
    by simp
  moreover have "nat (t mod 5) < length (counter_rps n)" using assms(2) by (simp add: RPS_RESOLUTION_def)
  ultimately show ?thesis
    by (auto simp: timer_tick_def Let_def RPS_RESOLUTION_def split: option.split)
qed

section \<open>The settings of the address are not checked\<close>

lemma check_config_ignores:
  assumes "k = ''server_address'' \<or> k = ''server_port''"
  shows "fst (check_config we (Set k v cfg)) = fst (check_config we cfg)"
    and "Get (fst (snd (check_config we cfg))) k d = Get cfg k d"
    and "GetInt (fst (snd (check_config we cfg))) k d' = GetInt cfg k d'"
proof -
  have k: "k \<noteq> ''max_packet_age''" "k \<noteq> ''debug''" "k \<noteq> ''decryption_method''" "k \<noteq> ''nsca_workers''"
    "k \<noteq> ''nsca_threads_per_worker''" "k \<noteq> ''max_checks_per_connection''"
    "k \<noteq> ''check_result_path_max_files''"
    using assms by auto
  have get_if: "Get (if b then Set k' v c else c) k d = Get c k d" if "k' \<noteq> k" for b k' v c d
    using that by simp
  show "fst (check_config we (Set k v cfg)) = fst (check_config we cfg)"
    using k by (simp add: check_config_def Let_def store.get_set_other)
  show "Get (fst (snd (check_config we cfg))) k d = Get cfg k d"
    using k [symmetric] by (simp add: check_config_def Let_def get_if)
  show "GetInt (fst (snd (check_config we cfg))) k d' = GetInt cfg k d'"
    using k [symmetric] by (simp add: check_config_def Let_def store.get_if_other)
qed

section \<open>Properties\<close>

text \<open>The settings of the address are not checked. Any text and any port pass \<open>check_config\<close>; a text that
  \<open>inet_pton\<close> cannot read makes the worker listen on every address of the machine, and the port is
  the configured one modulo 65536.\<close>

theorem unreadable_address_listens_everywhere:
  assumes "\<And>family. inet_pton family (c_str address) = None"
    and "cfg' = Set ''server_address'' address (Set ''server_port'' port cfg)"
  shows "fst (check_config we cfg') = fst (check_config we cfg)
    \<and> (let sa = bind_address inet_pton (fst (snd (check_config we cfg')))
       in set (sin_addr sa) = {0} \<and> uint (be16 (sin_port sa) 0) = strtol port mod 65536)"
proof -
  let ?c = "fst (snd (check_config we cfg'))"
  have "Get ?c ''server_address'' ''0.0.0.0'' = address" "GetInt ?c ''server_port'' 5667 = strtol port"
    by (simp_all add: check_config_ignores assms(2) store_simps)
  moreover have "be16 (to_be16 w) 0 = w" for w by (simp add: be16_def to_be16_def be16_to_be16)
  ultimately show ?thesis
    using assms(1) by (simp add: check_config_ignores assms(2) bind_address_def listen_endpoint_def
        Let_def uint_word_of_int)
qed

lemma unreadable_address_listens_everywhere_witness:
  "\<exists>cfg. fst (check_config True cfg) = 0
     \<and> (let sa = bind_address (\<lambda>_ _. None) (fst (snd (check_config True cfg)))
        in sin_addr sa = replicate 4 0 \<and> uint (be16 (sin_port sa) 0) = 4464)"
proof -
  let ?cfg = "Set ''server_address'' ''10.0.0'' (Set ''server_port'' (show_nat 70000) new_config)"
  define sa where "sa = bind_address (\<lambda>_ _. None) (fst (snd (check_config True ?cfg)))"
  have port: "strtol (show_nat 70000) = 70000" using strtol_show_nat [of 70000] by simp
  note unreadable_address_listens_everywhere [of "\<lambda>_ _. None" "''10.0.0''" ?cfg "show_nat 70000" new_config True,
      OF refl refl, unfolded Let_def, folded sa_def, unfolded port]
  then have sa: "set (sin_addr sa) = {0}" "uint (be16 (sin_port sa) 0) = 4464"
      "fst (check_config True ?cfg) = fst (check_config True new_config)"
    by simp_all
  have "fst (check_config True new_config) = 0"
    by (simp add: check_config_def Let_def GetInt_def new_config_def)
  moreover have "length (sin_addr sa) = 4"
    by (simp add: sa_def bind_address_def listen_endpoint_def check_config_ignores Let_def c_str_def)
  ultimately have "sin_addr sa = replicate 4 0" "fst (check_config True ?cfg) = 0"
    using sa(1,3) by (auto intro: replicate_eqI)
  with sa(2) show ?thesis by (intro exI [of _ ?cfg]) (simp add: Let_def sa_def)
qed

text \<open>The statistics file is written every fifth second, with the mean number of connections accepted
  per second since the last time, rounded down, the open connections and the totals: when the
  timer ticks in five seconds in a row and less than \<open>2^31\<close> connections arrive in each.\<close>

theorem connections_per_second:
  assumes "length (counter_rps n) = 5"
    and "uint (k1 - counter_prev n) < 2 ^ 31" "uint (k2 - k1) < 2 ^ 31" "uint (k3 - k2) < 2 ^ 31"
      "uint (k4 - k3) < 2 ^ 31" "uint (k5 - k4) < 2 ^ 31"
    and "t mod 5 = 1"
  shows "snd (timer_tick e f (t + 4) ct
        ((ticks e w [(t, k1), (t + 1, k2), (t + 2, k3), (t + 3, k4)] n)\<lparr>counter := k5\<rparr>) w')
    = save_stats f (StatWriter n) (t + 4) ((k5 - counter_prev n) div 5) (ucast (connections n)) k5
        (message_success n) (message_failed n) w'"
proof -
  have m: "(t + 4) mod 5 = 0" using assms(7) by presburger
  from five_buckets [OF assms(1), of t "k1 - counter_prev n" "k2 - k1" "k3 - k2" "k4 - k3" "k5 - k4"] m
  show ?thesis using assms(2-6) by (simp add: timer_tick_saves word_of_int_c_int_small)
qed

text \<open>A tick of the timer that finds a shutdown request stops accepting connections and leaves the
  loop exactly when no connection is open; else it arms the timer again, so that the next tick asks
  again. No tick changes the number of connections.\<close>

theorem timer_shutdown:
  assumes "ev_base n" "shutdown_requested n" "timer_proxy e f t ct n w = (n', w')"
  shows "\<not> listener_enabled n' \<and> connections n' = connections n
    \<and> (if connections n = 0 then loopexit n' \<and> \<not> timer_armed n'
       else timer_armed n' \<and> loopexit n' = loopexit n \<and> shutdown_requested n')"
  using assms by (auto simp: timer_proxy_def Let_def case_prod_beta network_stop_simps)

definition example_watch_env :: watch_env where
  "example_watch_env =
     \<lparr>we_dirents = None, we_add_watch = None, we_stat = None, we_stat_watch = None,
      we_event_base = True, we_bufferevent = True\<rparr>"

definition example_stat_writer :: stat_writer where
  "example_stat_writer = \<lparr>path_stat = [], internal_process_id = 0, mypid = 9, started = 0\<rparr>"

text \<open>The state a \<open>network\<close> has with the default settings.\<close>

lemma new_network_default:
  obtains n :: "byte network" where
    "new_network feedback_cipher (\<lambda>_. True) new_config t ct 7 iv rnd_initial example_stat_writer = Inr n"
    "resultPathClient n = None" "fifoClients n = None" "connections n = 0" "\<not> shutdown_requested n"
    "\<not> loopexit n" "\<not> use_network_CI n" "CI n = None"
  by (simp add: new_network_def Let_def GetInt_def Get_def new_config_def shared_crypt_instance_def)

lemma timer_shutdown_witness:
  "\<exists>n :: byte network. connections n = 0 \<and> \<not> loopexit n
     \<and> loopexit (fst (timer_proxy example_watch_env True 1600000001 ''now'' n spool_world))"
proof -
  obtain n :: "byte network" where n: "connections n = 0" "\<not> loopexit n"
    using new_network_default by metis
  let ?n = "n\<lparr>ev_base := True, shutdown_requested := True\<rparr>"
  obtain n' w' where r: "timer_proxy example_watch_env True 1600000001 ''now'' ?n spool_world = (n', w')"
    by fastforce
  from timer_shutdown [OF _ _ r] n r show ?thesis by (intro exI [of _ ?n]) simp
qed

lemma connections_per_second_witness:
  "\<exists>n :: byte network. counter_prev n = 0 \<and>
     snd (timer_tick example_watch_env True 5 [] ((ticks example_watch_env spool_world
         [(1, 3), (2, 3), (3, 7), (4, 12)] n)\<lparr>counter := 25\<rparr>) spool_world)
     = save_stats True (StatWriter n) 5 5 (ucast (connections n)) 25 (message_success n) (message_failed n) spool_world"
proof -
  obtain n :: "byte network" where "connections n = 0" using new_network_default by metis
  let ?n = "n\<lparr>counter_rps := [0, 0, 0, 0, 0], counter_prev := 0\<rparr>"
  show ?thesis
    using connections_per_second [of ?n 3 3 7 12 25 1 example_watch_env True "[]" spool_world spool_world]
    by (intro exI [of _ ?n]) simp
qed

end
