(* ===== verification/Nsca_Client.thy ===== *)
theory Nsca_Client
  imports Nsca_Network
begin

text \<open>
  \<open>network_client.cpp\<close>: one connection, from accept to the delivery of its results. The reading
  side collects whole packets from libevent's input buffer; when the connection ends the queue of
  packets is decrypted, checked and delivered.

  Objects that the code mutates through the parent pointer are passed and returned: the handlers
  work on a \<open>network\<close> and a client. The crypt instance of a client is a pointer that may be shared
  with the \<open>network\<close> or a thread; \<open>ci_ref\<close> says which object it points to, and the operations
  that run the cipher take that object and return it. \<open>delete this\<close> shows in the result types.
\<close>

section \<open>State\<close>

definition CONNECTION_STATE_INIT_SENT :: u32 where [nsca_consts]: "CONNECTION_STATE_INIT_SENT = 1"

record data_packet_pair =
  receive_packet :: "byte list"
  packet_length :: nat

datatype ci_ref = CI_null | CI_network | CI_thread | CI_own

record 'td network_client =
  client_id :: u32
  read_timeout :: nat
  write_timeout :: nat
  connection_state :: u32
  ci_pointer :: ci_ref
  own_CI :: "'td crypt_instance option"
  has_own_CI :: bool
  mcrypt_state :: "byte list"
  mcrypt_state_size :: nat
  transmission_iv :: "byte list option"
  d_failed :: int
  d_success :: int
  bytes_received :: nat
  bytes_drained :: nat
  data_packets :: "data_packet_pair list"
  in_buffer :: "byte list"
  out_buffer :: "byte list"
  write_event :: bool

definition new_network_client :: "'td network_client" where
  "new_network_client =
     \<lparr>client_id = 0, read_timeout = 8, write_timeout = 3, connection_state = 0,
      ci_pointer = CI_null, own_CI = None, has_own_CI = False, mcrypt_state = [],
      mcrypt_state_size = 16, transmission_iv = None, d_failed = 0, d_success = 0,
      bytes_received = 0, bytes_drained = 0, data_packets = [], in_buffer = [], out_buffer = [],
      write_event = False\<rparr>"

definition set_CI :: "ci_ref \<Rightarrow> 'td network_client \<Rightarrow> 'td network_client" where
  "set_CI myCI c = (if has_own_CI c then c else c\<lparr>ci_pointer := myCI\<rparr>)"

section \<open>Accepting a connection\<close>

text \<open>\<open>Gone\<close>: the client has deleted itself.\<close>

datatype 'td conn = Open "'td network_client" | Gone

definition proper_destroy :: "'td network \<Rightarrow> 'td network" where
  "proper_destroy n = n\<lparr>connections := connections n - 1\<rparr>"

text \<open>\<open>bev_ok\<close>: whether \<open>bufferevent_socket_new\<close> succeeds.\<close>

definition nc_init_events :: "bool \<Rightarrow> 'td network \<Rightarrow> 'td network_client \<Rightarrow> 'td network \<times> 'td conn" where
  "nc_init_events bev_ok n c =
     (if \<not> bev_ok then (proper_destroy (n\<lparr>loopbreak := True\<rparr>), Gone)
      else (n, Open (c\<lparr>write_event := True\<rparr>)))"

definition take_variables ::
    "bool \<Rightarrow> rnd \<Rightarrow> 'td network \<Rightarrow> 'td network_client \<Rightarrow> 'td network \<times> rnd \<times> 'td conn" where
  "take_variables bev_ok r n c =
     (let c1 = c\<lparr>client_id := ucast (counter n)\<rparr>;
          n1 = n\<lparr>counter := counter n + 1, connections := connections n + 1\<rparr>;
          c2 = (if use_network_CI n1 \<and> CI n1 \<noteq> None then set_CI CI_network c1 else c1);
          (c3, r1) = (if \<not> shared_crypt_instance n1
                      then (let (iv, r') = generate_transmitted_iv r
                            in (c2\<lparr>transmission_iv := Some iv\<rparr>, r'))
                      else (c2, r));
          (n2, co) = nc_init_events bev_ok n1 c3
      in (n2, r1, co))"

definition listener_proxy :: "bool \<Rightarrow> rnd \<Rightarrow> 'td network \<Rightarrow> 'td network \<times> rnd \<times> 'td conn" where
  "listener_proxy bev_ok r n = take_variables bev_ok r n new_network_client"

section \<open>Callbacks of the connection\<close>

text \<open>The greeting: 128 bytes of IV and the time in network byte order.\<close>

definition writecb :: "'td network \<Rightarrow> 'td network_client \<Rightarrow> 'td network_client" where
  "writecb n c =
     (if connection_state c AND CONNECTION_STATE_INIT_SENT = 0
      then
        let iv = (case transmission_iv c of Some v \<Rightarrow> v | None \<Rightarrow> shared_transmission_iv n);
            send_packet = \<lparr>init_iv = take TRANSMITTED_IV_SIZE iv, init_timestamp = word_of_int (now n)\<rparr>
        in c\<lparr>out_buffer := out_buffer c @ bytes_of_init_packet send_packet,
             connection_state := connection_state c OR CONNECTION_STATE_INIT_SENT\<rparr>
      else c\<lparr>write_event := False\<rparr>)"

text \<open>
  \<open>readcb\<close> runs after libevent has appended the bytes it read to the input buffer. \<open>alloc\<close> is
  whether \<open>calloc\<close> succeeds; the limit is compared as a \<open>size_t\<close>. (\<open>evbuffer_remove\<close> returns the bytes asked for, as the buffer holds
  at least that many.)
\<close>

definition readcb :: "bool \<Rightarrow> 'td network \<Rightarrow> 'td network_client \<Rightarrow> 'td network \<times> 'td conn" where
  "readcb alloc n c =
     (let rsize = length (in_buffer c);
          c1 = (if 0 < rsize then c\<lparr>bytes_received := bytes_received c + rsize\<rparr> else c)
      in if rsize < sizeof_data_packet then (n, Open c1)
         else if max_checks_per_connection n mod 2 ^ 64 < int (length (data_packets c1))
         then (proper_destroy n, Gone)
         else if \<not> alloc then (n, Open c1)
         else
           let bs = take sizeof_data_packet (in_buffer c1)
           in (n, Open (c1\<lparr>in_buffer := drop sizeof_data_packet (in_buffer c1),
                           bytes_drained := bytes_drained c1 + length bs,
                           data_packets := data_packets c1 @
                             [\<lparr>receive_packet = bs, packet_length = sizeof_data_packet\<rparr>]\<rparr>)))"

definition received :: "bool \<Rightarrow> byte list \<Rightarrow> 'td network \<Rightarrow> 'td network_client \<Rightarrow> 'td network \<times> 'td conn" where
  "received alloc bs n c = readcb alloc n (c\<lparr>in_buffer := in_buffer c @ bs\<rparr>)"

text \<open>
  The end of a connection. \<open>To_thread\<close>: handed to the thread manager; \<open>Process\<close>: processed at
  once in the event loop; \<open>Deleted\<close>: nothing left to do.
\<close>

datatype 'td closing = Deleted | To_thread "'td network_client" | Process "'td network_client"

definition connection_closed ::
    "'td mcrypt \<Rightarrow> (alloc_site \<Rightarrow> bool) \<Rightarrow> rnd \<Rightarrow> 'td network \<Rightarrow> 'td network_client \<Rightarrow>
     'td network \<times> rnd \<times> 'td closing" where
  "connection_closed lib mem r n c =
     (let n1 = n\<lparr>connections := connections n - 1\<rparr>;
          (rc, c1, r1) =
            (if \<not> shared_crypt_instance n1
             then (let (rc, ci, r') = encrypt_init lib mem (password n1) (decryption_method n1)
                                        (transmission_iv c) r
                   in (rc, c\<lparr>own_CI := ci, ci_pointer := (if ci = None then CI_null else CI_own),
                             has_own_CI := (rc = OK)\<rparr>, r'))
             else (OK, c, r))
      in if rc \<noteq> OK then (n1, r1, Deleted)
         else if data_packets c1 \<noteq> []
         then (if 0 < nsca_threads_per_worker n1 then (n1, r1, To_thread c1) else (n1, r1, Process c1))
         else (n1, r1, Deleted))"

text \<open>
  \<open>eventcb\<close>, up to \<open>connection_closed\<close>: a client of the old protocol has sent one short packet.
  The packet buffer is \<open>sizeof_data_packet\<close> bytes of zeros; \<open>None\<close> is the undefined behaviour of
  reading more than that into it.
\<close>

definition eventcb_queue :: "bool \<Rightarrow> 'td network_client \<Rightarrow> 'td network_client option" where
  "eventcb_queue alloc c =
     (if bytes_received c = OLD_PACKET_LENGTH \<and> bytes_drained c = 0
      then
        let rsize = length (in_buffer c)
        in if \<not> alloc then Some c
           else if sizeof_data_packet < rsize then None
           else Some (c\<lparr>in_buffer := [],
                        data_packets := data_packets c @
                          [\<lparr>receive_packet = in_buffer c @ replicate (sizeof_data_packet - rsize) 0,
                            packet_length = rsize\<rparr>]\<rparr>)
      else Some c)"

definition eventcb ::
    "'td mcrypt \<Rightarrow> (alloc_site \<Rightarrow> bool) \<Rightarrow> bool \<Rightarrow> rnd \<Rightarrow> 'td network \<Rightarrow> 'td network_client \<Rightarrow>
     ('td network \<times> rnd \<times> 'td closing) option" where
  "eventcb lib mem alloc r n c =
     map_option (connection_closed lib mem r n) (eventcb_queue alloc c)"

section \<open>Checking one packet\<close>

definition packet_too_old :: "'td network \<Rightarrow> u32 \<Rightarrow> bool" where
  "packet_too_old n stamp \<longleftrightarrow>
     max_packet_age_enabled n \<noteq> 0 \<and> 0 < max_packet_age n \<and>
     (let received_timestamp = uint stamp;
          packet_diff = (if now n mod 2 ^ 64 < received_timestamp
                         then c_int (received_timestamp - now n)
                         else c_int (now n - received_timestamp))
      in max_packet_age n < packet_diff)"

datatype verdict = Bad_version | Bad_crc | Too_old | Accepted

text \<open>The checks between decryption and delivery; the second result is the packet, changed by them.\<close>

definition check_packet :: "'td network \<Rightarrow> nat \<Rightarrow> byte list \<Rightarrow> verdict \<times> byte list" where
  "check_packet n plen bs =
     (if be16 bs off_version \<noteq> NSCA_PACKET_VERSION_3 then (Bad_version, bs)
      else
        let packet_crc32 = be32 bs off_crc32;
            bs1 = clear_crc32 bs;
            calculated_crc32 = (ucast (calculate_crc32 generate_crc32_table (Some bs1) (int plen)) :: u32)
        in if calculated_crc32 \<noteq> packet_crc32 then (Bad_crc, bs1)
           else if packet_too_old n (be32 bs1 off_timestamp) then (Too_old, bs1)
           else (Accepted, bs1))"

section \<open>Delivering one result\<close>

record send_env =
  se_fifo :: fifo_env
  se_result :: result_env

text \<open>A member of the packet with its last byte set to NUL, as the string the callee sees.\<close>

definition member_string :: "nat \<Rightarrow> nat \<Rightarrow> byte list \<Rightarrow> string" where
  "member_string off len bs = text_of (c_string ((field_at off len bs)[len - 1 := 0]))"

definition packet_check :: "byte list \<Rightarrow> check" where
  "packet_check bs =
     (member_string off_host MAX_HOSTNAME_LENGTH bs,
      member_string off_svc MAX_DESCRIPTION_LENGTH bs,
      uint (be16 bs off_return_code),
      member_string off_output MAX_PLUGINOUTPUT_LENGTH bs)"

text \<open>
  \<open>send_receive_message\<close>: the FIFO of the thread first, then the spool directory. \<open>None\<close> is the
  undefined behaviour of a thread number past the array of FIFO clients.
\<close>

definition send_receive_message ::
    "send_env \<Rightarrow> nat \<Rightarrow> byte list \<Rightarrow> 'td network \<times> 'td network_client \<times> world \<Rightarrow>
     ('td network \<times> 'td network_client \<times> world) option" where
  "send_receive_message e tid pkt = (\<lambda>(n, c, w).
     (let chk = packet_check pkt;
          r1 = (case fifoClients n of
                  Some fcs \<Rightarrow>
                    if command_file n \<noteq> [] then
                      (if tid < length fcs
                       then (let (rc, fc, w1) = fifo_command (se_fifo e) (now n) chk (fcs ! tid, w)
                             in Some (rc = 0, n\<lparr>fifoClients := Some (fcs[tid := fc])\<rparr>, w1))
                       else None)
                    else Some (False, n, w)
                | None \<Rightarrow> Some (False, n, w))
      in (case r1 of
            None \<Rightarrow> None
          | Some (done1, n1, w1) \<Rightarrow>
              let (done2, w2) =
                    (case resultPathClient n1 of
                       Some rp \<Rightarrow>
                         if \<not> done1
                         then (let (rc, w') = write_result (se_result e) rp (check_result_path n1)
                                                (now n1) (cnow n1) chk w1
                               in (rc = 0, w'))
                         else (done1, w1)
                     | None \<Rightarrow> (done1, w1))
              in Some (n1, (if done2 then c\<lparr>d_success := d_success c + 1\<rparr>
                            else c\<lparr>d_failed := d_failed c + 1\<rparr>), w2))))"

section \<open>Processing the queue\<close>

type_synonym 'td proc_state = "'td network \<times> 'td network_client \<times> world"

definition count_failed :: "'td network_client \<Rightarrow> 'td network_client" where
  "count_failed c = c\<lparr>d_failed := d_failed c + 1\<rparr>"

text \<open>
  The loop without libmcrypt. \<open>env i\<close> is what the system answers to the \<open>i\<close>-th delivery. The
  result is the part of the queue that is left, the crypt instance and the state.
\<close>

fun nomcrypt_loop ::
    "'td mcrypt \<Rightarrow> (nat \<Rightarrow> send_env) \<Rightarrow> nat \<Rightarrow> nat \<Rightarrow> data_packet_pair list \<Rightarrow>
     'td crypt_instance option \<Rightarrow> 'td proc_state \<Rightarrow>
     (data_packet_pair list \<times> 'td crypt_instance option \<times> 'td proc_state) option" where
  "nomcrypt_loop lib env tid i [] ci s = Some ([], ci, s)"
| "nomcrypt_loop lib env tid i (p # ps) ci (n, c, w) =
     (case decrypt_buffer lib (receive_packet p) sizeof_data_packet (password n) (decryption_method n) ci of
        None \<Rightarrow> None
      | Some (bs, ci1) \<Rightarrow>
          (case check_packet n (packet_length p) bs of
             (Accepted, bs1) \<Rightarrow>
               (case send_receive_message (env i) tid bs1 (n, c, w) of
                  None \<Rightarrow> None
                | Some s \<Rightarrow> nomcrypt_loop lib env tid (i + 1) ps ci1 s)
           | (_, bs1) \<Rightarrow>
               Some (p\<lparr>receive_packet := bs1\<rparr> # ps, ci1, (n, count_failed c, w))))"

text \<open>\<open>mcrypt_enc_get_state\<close> into the state buffer of the client.\<close>

definition save_mcrypt_state :: "'td mcrypt \<Rightarrow> 'td \<Rightarrow> 'td network_client \<Rightarrow> 'td network_client" where
  "save_mcrypt_state lib t c =
     (let st = mcrypt_enc_get_state lib t
      in c\<lparr>mcrypt_state := st @ drop (length st) (mcrypt_state c), mcrypt_state_size := length st\<rparr>)"

text \<open>
  The loop with libmcrypt: the first packet starts from the IV, the next ones from the state the
  cipher had after the packet before.
\<close>

fun mcrypt_loop ::
    "'td mcrypt \<Rightarrow> (nat \<Rightarrow> send_env) \<Rightarrow> nat \<Rightarrow> nat \<Rightarrow> data_packet_pair list \<Rightarrow>
     'td crypt_instance \<Rightarrow> 'td proc_state \<Rightarrow>
     (data_packet_pair list \<times> 'td crypt_instance \<times> 'td proc_state) option" where
  "mcrypt_loop lib env tid i [] ci s = Some ([], ci, s)"
| "mcrypt_loop lib env tid i (p # ps) ci (n, c, w) =
     (case (td ci, IV ci) of
        (Some t, Some iv) \<Rightarrow>
          (let t1 = (if i = 1 then mcrypt_enc_set_state lib t (take (iv_size ci) iv)
                     else mcrypt_enc_set_state lib t (take (mcrypt_state_size c) (mcrypt_state c)))
           in (case decrypt_buffer lib (receive_packet p) sizeof_data_packet (password n)
                      (decryption_method n) (Some (ci\<lparr>td := Some t1\<rparr>)) of
                 Some (bs, Some ci1) \<Rightarrow>
                   (let c1 = (case td ci1 of Some t2 \<Rightarrow> save_mcrypt_state lib t2 c | None \<Rightarrow> c)
                    in (case check_packet n (packet_length p) bs of
                          (Accepted, bs1) \<Rightarrow>
                            (case send_receive_message (env i) tid bs1 (n, c1, w) of
                               None \<Rightarrow> None
                             | Some s \<Rightarrow> mcrypt_loop lib env tid (i + 1) ps ci1 s)
                        | (_, bs1) \<Rightarrow>
                            Some (p\<lparr>receive_packet := bs1\<rparr> # ps, ci1, (n, count_failed c1, w))))
               | _ \<Rightarrow> None))
      | _ \<Rightarrow> None)"

definition process_queue_nomcrypt ::
    "'td mcrypt \<Rightarrow> (nat \<Rightarrow> send_env) \<Rightarrow> nat \<Rightarrow> 'td crypt_instance option \<Rightarrow> 'td proc_state \<Rightarrow>
     ('td crypt_instance option \<times> 'td proc_state) option" where
  "process_queue_nomcrypt lib env tid ci = (\<lambda>(n, c, w).
     (case nomcrypt_loop lib env tid 1 (data_packets c) ci (n, c, w) of
        None \<Rightarrow> None
      | Some (ps, ci1, (n1, c1, w1)) \<Rightarrow> Some (ci1, (n1, c1\<lparr>data_packets := ps\<rparr>, w1))))"

definition process_queue_mcrypt ::
    "'td mcrypt \<Rightarrow> bool \<Rightarrow> (nat \<Rightarrow> send_env) \<Rightarrow> nat \<Rightarrow> 'td crypt_instance option \<Rightarrow> 'td proc_state \<Rightarrow>
     ('td crypt_instance option \<times> 'td proc_state) option" where
  "process_queue_mcrypt lib alloc env tid CIp = (\<lambda>(n, c, w).
     (if \<not> alloc then Some (CIp, (n, c, w))
      else (case CIp of
              None \<Rightarrow> None
            | Some ci \<Rightarrow>
                (case IV ci of
                   None \<Rightarrow> None
                 | Some iv \<Rightarrow>
                     let c0 = c\<lparr>mcrypt_state := take (iv_size ci) iv @ replicate (128 - iv_size ci) 0,
                                mcrypt_state_size := iv_size ci\<rparr>
                     in (case mcrypt_loop lib env tid 1 (data_packets c) ci (n, c0, w) of
                           None \<Rightarrow> None
                         | Some (ps, ci1, (n1, c1, w1)) \<Rightarrow>
                             Some (Some ci1, (n1, c1\<lparr>data_packets := ps\<rparr>, w1)))))))"

text \<open>
  \<open>process_queue\<close>, after which the client is deleted: the crypt instance it used, the network
  with the statistics updated, the client as it was last, the world.
\<close>

definition process_queue ::
    "'td mcrypt \<Rightarrow> bool \<Rightarrow> (nat \<Rightarrow> send_env) \<Rightarrow> nat \<Rightarrow> 'td crypt_instance option \<Rightarrow> 'td proc_state \<Rightarrow>
     ('td crypt_instance option \<times> 'td proc_state) option" where
  "process_queue lib alloc env tid ci = (\<lambda>(n, c, w).
     (case (if 1 < decryption_method n then process_queue_mcrypt lib alloc env tid ci (n, c, w)
            else process_queue_nomcrypt lib env tid ci (n, c, w)) of
        None \<Rightarrow> None
      | Some (ci1, (n1, c1, w1)) \<Rightarrow>
          Some (ci1, (report_success_failed (word_of_int (d_success c1)) (word_of_int (d_failed c1)) n1,
                      c1, w1))))"

text \<open>
  The destructor: an instance of its own is cleaned up. One that \<open>encrypt_init\<close> has left behind with
  an error is not: \<open>has_own_CI\<close> is still false then, and the structure leaks.
\<close>

definition delete_network_client ::
    "bool \<Rightarrow> 'td network \<Rightarrow> 'td network_client \<Rightarrow> cleanup_call list option" where
  "delete_network_client initialized n c =
     (if ci_pointer c \<noteq> CI_null \<and> has_own_CI c
      then encrypt_cleanup initialized (decryption_method n) (own_CI c)
      else Some [])"

text \<open>A client that is handed over can be deleted, and its own instance is released with it.\<close>

lemma handed_client_deletes:
  assumes "connection_closed lib mem r n c = (n', r', cl)" "cl = To_thread c' \<or> cl = Process c'"
    and "\<not> shared_crypt_instance n"
  shows "\<exists>calls. delete_network_client initialized n' c' = Some (calls @ [Free_CI])"
proof -
  let ?n = "n\<lparr>connections := connections n - 1\<rparr>"
  obtain rc ci r1 where e: "encrypt_init lib mem (password n) (decryption_method n) (transmission_iv c) r
      = (rc, ci, r1)" by (metis prod_cases3)
  have sh: "shared_crypt_instance ?n = shared_crypt_instance n" by (simp add: shared_crypt_instance_def)
  have rc: "rc = OK" and cl: "n' = ?n" "c' = c\<lparr>own_CI := ci, ci_pointer := (if ci = None then CI_null else CI_own),
      has_own_CI := True\<rparr>"
    using assms e by (auto simp: connection_closed_def Let_def sh split: if_splits)
  from encrypt_init_OK_instance [of lib mem "password n" "decryption_method n" "transmission_iv c" r] e rc
  obtain y where ci: "ci = Some y" by auto
  have "encrypt_cleanup initialized (decryption_method n) ci \<noteq> None"
    using e rc by (intro encrypt_cleanup_after_init) simp
  with ci cl show ?thesis
    by (auto simp: delete_network_client_def encrypt_cleanup_def split: if_splits)
qed

end
