(* ===== verification/Nsca_Receive.thy ===== *)
theory Nsca_Receive
  imports Nsca_Client
begin

text \<open>
  The receiving side of a connection as a step relation: a client is accepted, then libevent calls
  \<open>readcb\<close> and \<open>writecb\<close> in any order, with any chunks. The invariant ties the queue, the counters
  and libevent's buffer to the bytes that have arrived.
\<close>

section \<open>Reachable connections\<close>

text \<open>
  \<open>conn_reach m s c\<close>: an open connection whose peer has sent \<open>s\<close> can be in state \<open>c\<close>, with \<open>m\<close>
  the configured number of checks per connection. The \<open>network\<close> of a step is any with that limit,
  as other connections and the timer change it between the callbacks.
\<close>

inductive conn_reach :: "int \<Rightarrow> byte list \<Rightarrow> 'td network_client \<Rightarrow> bool" for m where
  accept: "listener_proxy bev_ok r n = (n', r', Open c) \<Longrightarrow> conn_reach m [] c"
| recv: "conn_reach m s c \<Longrightarrow> max_checks_per_connection n = m \<Longrightarrow>
    received alloc bs n c = (n', Open c') \<Longrightarrow> conn_reach m (s @ bs) c'"
| send: "conn_reach m s c \<Longrightarrow> conn_reach m s (writecb n c)"

section \<open>What the callbacks keep\<close>

definition full_packet :: "data_packet_pair \<Rightarrow> bool" where
  "full_packet p \<longleftrightarrow>
     length (receive_packet p) = sizeof_data_packet \<and> packet_length p = sizeof_data_packet"

definition conn_inv :: "int \<Rightarrow> byte list \<Rightarrow> 'td network_client \<Rightarrow> bool" where
  "conn_inv m s c \<longleftrightarrow>
     concat (map receive_packet (data_packets c)) @ in_buffer c = s
     \<and> list_all full_packet (data_packets c)
     \<and> int (length (data_packets c)) \<le> m mod 2 ^ 64 + 1
     \<and> bytes_drained c = sizeof_data_packet * length (data_packets c)
     \<and> length (in_buffer c) \<le> bytes_received c
     \<and> d_success c = 0 \<and> d_failed c = 0 \<and> own_CI c = None \<and> \<not> has_own_CI c"

lemma listener_proxy_conn:
  assumes "listener_proxy bev_ok r n = (n', r', Open c)"
  shows "data_packets c = []" "in_buffer c = []" "out_buffer c = []" "bytes_drained c = 0"
    "bytes_received c = 0" "d_success c = 0" "d_failed c = 0" "own_CI c = None" "\<not> has_own_CI c"
    "connection_state c = 0" "write_event c"
  using assms
  by (auto simp: listener_proxy_def take_variables_def nc_init_events_def set_CI_def
      new_network_client_def Let_def case_prod_beta split: if_splits)

lemma writecb_keeps [simp]:
  "data_packets (writecb n c) = data_packets c" "in_buffer (writecb n c) = in_buffer c"
  "bytes_drained (writecb n c) = bytes_drained c" "bytes_received (writecb n c) = bytes_received c"
  "d_success (writecb n c) = d_success c" "d_failed (writecb n c) = d_failed c"
  "own_CI (writecb n c) = own_CI c" "has_own_CI (writecb n c) = has_own_CI c"
  "transmission_iv (writecb n c) = transmission_iv c"
  by (simp_all add: writecb_def Let_def)

text \<open>The outcomes of \<open>readcb\<close>: wait for more, refuse the connection, or take one whole packet.\<close>

definition count_read :: "'td network_client \<Rightarrow> 'td network_client" where
  "count_read c = c\<lparr>bytes_received := bytes_received c + length (in_buffer c)\<rparr>"

definition take_packet :: "'td network_client \<Rightarrow> 'td network_client" where
  "take_packet c =
     c\<lparr>in_buffer := drop sizeof_data_packet (in_buffer c),
       bytes_drained := bytes_drained c + sizeof_data_packet,
       data_packets := data_packets c @
         [\<lparr>receive_packet = take sizeof_data_packet (in_buffer c), packet_length = sizeof_data_packet\<rparr>]\<rparr>"

lemma readcb_outcome:
  "readcb alloc n c =
     (if length (in_buffer c) < sizeof_data_packet then (n, Open (count_read c))
      else if max_checks_per_connection n mod 2 ^ 64 < int (length (data_packets c))
      then (proper_destroy n, Gone)
      else (n, Open (if alloc then take_packet (count_read c) else count_read c)))"
proof -
  have "(if 0 < length (in_buffer c) then c\<lparr>bytes_received := bytes_received c + length (in_buffer c)\<rparr> else c)
      = count_read c"
    by (cases c) (auto simp: count_read_def)
  moreover have "in_buffer (count_read c) = in_buffer c" "data_packets (count_read c) = data_packets c"
    by (simp_all add: count_read_def)
  ultimately show ?thesis
    by (simp add: readcb_def Let_def take_packet_def)
qed

lemma count_read_inv:
  "conn_inv m (s @ in_buffer c) c \<Longrightarrow> conn_inv m (s @ in_buffer c) (count_read c)"
  by (simp add: conn_inv_def count_read_def)

lemma conn_inv_append:
  "conn_inv m s c \<Longrightarrow> conn_inv m (s @ bs) (count_read (c\<lparr>in_buffer := in_buffer c @ bs\<rparr>))"
  by (simp add: conn_inv_def count_read_def flip: append_assoc)

lemma conn_inv_take_packet:
  assumes "conn_inv m s c" "sizeof_data_packet \<le> length (in_buffer c)"
    and "int (length (data_packets c)) \<le> m mod 2 ^ 64"
  shows "conn_inv m s (take_packet c)"
  using assms by (auto simp: conn_inv_def take_packet_def full_packet_def)

lemma conn_inv_received:
  assumes "conn_inv m s c" "max_checks_per_connection n = m"
    and "received alloc bs n c = (n', Open c')"
  shows "conn_inv m (s @ bs) c'"
proof -
  let ?c = "count_read (c\<lparr>in_buffer := in_buffer c @ bs\<rparr>)"
  have inv: "conn_inv m (s @ bs) ?c" by (rule conn_inv_append [OF assms(1)])
  have "c' = ?c \<or> c' = take_packet ?c \<and> sizeof_data_packet \<le> length (in_buffer ?c)
      \<and> int (length (data_packets ?c)) \<le> m mod 2 ^ 64"
    using assms(2,3) by (auto simp: received_def readcb_outcome count_read_def split: if_splits)
  with inv show ?thesis using conn_inv_take_packet [OF inv] by auto
qed

theorem conn_reach_inv: "conn_reach m s c \<Longrightarrow> conn_inv m s c"
proof (induction rule: conn_reach.induct)
  case (accept bev_ok r n n' r' c)
  then show ?case using listener_proxy_conn [OF accept] by (simp add: conn_inv_def)
next
  case (recv s c n alloc bs n' c')
  then show ?case by (blast intro: conn_inv_received)
next
  case (send s c n)
  then show ?case by (simp add: conn_inv_def)
qed

section \<open>Timely reading drains every packet\<close>

text \<open>
  \<open>readcb\<close> takes one packet per call. \<open>timely\<close> says of a list of chunks, read one per call, that
  none of them brings the buffer to two packets or more.
\<close>

fun timely :: "nat \<Rightarrow> byte list list \<Rightarrow> bool" where
  "timely k [] = True"
| "timely k (bs # bss) =
     (k + length bs < 2 * sizeof_data_packet
      \<and> timely ((k + length bs) mod sizeof_data_packet) bss)"

fun receive_all ::
    "'td network \<Rightarrow> byte list list \<Rightarrow> 'td network_client \<Rightarrow> 'td conn" where
  "receive_all n [] c = Open c"
| "receive_all n (bs # bss) c =
     (case received True bs n c of (_, Open c') \<Rightarrow> receive_all n bss c' | (_, Gone) \<Rightarrow> Gone)"

lemma received_in_buffer:
  assumes "received True bs n c = (n', Open c')"
    and "length (in_buffer c) < sizeof_data_packet"
    and "length (in_buffer c) + length bs < 2 * sizeof_data_packet"
  shows "length (in_buffer c') = (length (in_buffer c) + length bs) mod sizeof_data_packet"
  using assms
  by (auto simp: received_def readcb_outcome take_packet_def count_read_def
      mod_if [of "length (in_buffer c) + length bs"] split: if_splits)

lemma receive_all_drained:
  assumes "receive_all n bss c = Open c'" "conn_inv m s c" "max_checks_per_connection n = m"
    and "length (in_buffer c) < sizeof_data_packet" "timely (length (in_buffer c)) bss"
  shows "conn_inv m (s @ concat bss) c' \<and> length (in_buffer c') < sizeof_data_packet"
  using assms
proof (induction bss arbitrary: c s)
  case Nil
  then show ?case by simp
next
  case (Cons bs bss)
  then obtain n1 c1 where step: "received True bs n c = (n1, Open c1)"
      and rest: "receive_all n bss c1 = Open c'"
    by (auto split: prod.splits conn.splits)
  from Cons.prems step have len:
      "length (in_buffer c1) = (length (in_buffer c) + length bs) mod sizeof_data_packet"
    by (intro received_in_buffer) simp_all
  moreover have "0 < sizeof_data_packet" by (simp add: nsca_consts)
  ultimately show ?case
    using Cons.IH [OF rest, of "s @ bs"] conn_inv_received [OF Cons.prems(2,3) step] Cons.prems
    by simp
qed

lemma conn_inv_queue_length:
  assumes "conn_inv m s c"
  shows "length s = sizeof_data_packet * length (data_packets c) + length (in_buffer c)"
proof -
  have "list_all full_packet ps \<Longrightarrow>
      length (concat (map receive_packet ps)) = sizeof_data_packet * length ps" for ps
    by (induction ps) (simp_all add: full_packet_def)
  with assms show ?thesis by (auto simp: conn_inv_def)
qed

lemma conn_inv_queue_nth:
  assumes "list_all full_packet ps" "i < length ps"
  shows "receive_packet (ps ! i) =
     take sizeof_data_packet (drop (i * sizeof_data_packet) (concat (map receive_packet ps) @ r))"
  using assms
proof (induction ps arbitrary: i)
  case Nil
  then show ?case by simp
next
  case (Cons p ps)
  then have p: "length (receive_packet p) = sizeof_data_packet" by (simp add: full_packet_def)
  then have "drop (Suc j * sizeof_data_packet) (receive_packet p @ xs) = drop (j * sizeof_data_packet) xs"
    for j xs by simp
  with Cons p show ?case by (cases i) auto
qed

section \<open>The end of a connection\<close>

lemma eventcb_queue_defined:
  assumes "conn_inv m s c"
  shows "eventcb_queue alloc c \<noteq> None"
  using assms OLD_PACKET_LENGTH_value sizeof_data_packet_value
  by (auto simp: eventcb_queue_def conn_inv_def Let_def)

lemma eventcb_queue_total: "conn_reach m s c \<Longrightarrow> eventcb_queue alloc c \<noteq> None"
  by (rule eventcb_queue_defined [OF conn_reach_inv])

lemma eventcb_queue_full:
  "conn_inv m s c \<Longrightarrow> data_packets c \<noteq> [] \<Longrightarrow> eventcb_queue alloc c = Some c"
  by (auto simp: eventcb_queue_def conn_inv_def nsca_consts)

text \<open>The greeting is sent once.\<close>

definition greeting :: "'td network \<Rightarrow> 'td network_client \<Rightarrow> byte list" where
  "greeting n c = take TRANSMITTED_IV_SIZE
       (case transmission_iv c of Some v \<Rightarrow> v | None \<Rightarrow> shared_transmission_iv n)
     @ to_be32 (word_of_int (now n))"

definition greeting_inv :: "'td network_client \<Rightarrow> bool" where
  "greeting_inv c \<longleftrightarrow>
     connection_state c = 0 \<and> write_event c \<and> out_buffer c = []
     \<or> connection_state c = 1 \<and> (\<exists>n :: 'td network. out_buffer c = greeting n c)"

lemma writecb_first:
  "connection_state c = 0 \<Longrightarrow>
   writecb n c = c\<lparr>out_buffer := out_buffer c @ greeting n c, connection_state := 1\<rparr>"
  by (simp add: writecb_def greeting_def bytes_of_init_packet_def Let_def nsca_consts)

lemma writecb_again: "connection_state c = 1 \<Longrightarrow> writecb n c = c\<lparr>write_event := False\<rparr>"
  by (simp add: writecb_def nsca_consts)

lemma received_keeps:
  assumes "received alloc bs n c = (n', Open c')"
  shows "connection_state c' = connection_state c" "write_event c' = write_event c"
    "out_buffer c' = out_buffer c" "transmission_iv c' = transmission_iv c"
  using assms
  by (auto simp: received_def readcb_outcome take_packet_def count_read_def split: if_splits)

lemma conn_reach_greeting: "conn_reach m s c \<Longrightarrow> greeting_inv c"
proof (induction rule: conn_reach.induct)
  case (accept bev_ok r n n' r' c)
  then show ?case using listener_proxy_conn [OF accept] by (simp add: greeting_inv_def)
next
  case (recv s c n alloc bs n' c')
  then show ?case
    using received_keeps [OF recv.hyps(3)] by (auto simp: greeting_inv_def greeting_def)
next
  case (send s c n)
  then show ?case
    by (auto simp: greeting_inv_def writecb_first writecb_again) (auto simp: greeting_def)
qed

text \<open>The IV of a connection has 128 bytes, and so the greeting 132.\<close>

lemma accepted_iv:
  assumes "listener_proxy bev_ok r n = (n', r', Open c)" "transmission_iv c = Some v"
  shows "length v = TRANSMITTED_IV_SIZE"
  using assms length_generate_transmitted_iv [of r]
  by (auto simp: listener_proxy_def take_variables_def nc_init_events_def set_CI_def new_network_client_def
      Let_def case_prod_beta split: if_splits)

lemma conn_reach_iv: "conn_reach m s c \<Longrightarrow> transmission_iv c = Some v \<Longrightarrow> length v = TRANSMITTED_IV_SIZE"
proof (induction rule: conn_reach.induct)
  case (accept bev_ok r n n' r' c)
  then show ?case by (rule accepted_iv)
next
  case (recv s c n alloc bs n' c')
  then show ?case using received_keeps(4) [OF recv.hyps(3)] by simp
qed simp

lemma length_greeting:
  assumes "\<And>v. transmission_iv c = Some v \<Longrightarrow> length v = TRANSMITTED_IV_SIZE"
    and "length (shared_transmission_iv n) = TRANSMITTED_IV_SIZE"
  shows "length (greeting n c) = 132"
  using assms by (auto simp: greeting_def TRANSMITTED_IV_SIZE_def to_be32_def split: option.split)

end
