(* ===== verification/Nsca_Delivery.thy ===== *)
theory Nsca_Delivery
  imports Nsca_Client
begin

text \<open>
  What the processing of a queue promises. The two back ends of a \<open>network\<close> are an instance of the
  \<open>fallback_sinks\<close> contract; \<open>send_result\<close> says in one equation per configuration what
  \<open>send_receive_message\<close> does, and \<open>loop_spec\<close> what the two loops do: deliver the longest prefix of
  the decoded queue that passes the checks, and count one failure when that is not all of it.
\<close>

section \<open>The two back ends\<close>

definition fifo_deliver ::
    "fifo_env \<times> int \<Rightarrow> check \<Rightarrow> fifo_client \<times> world \<Rightarrow> int \<times> fifo_client \<times> world" where
  "fifo_deliver = (\<lambda>(e, t). fifo_command e t)"

definition path_deliver ::
    "result_env \<times> result_path_client \<times> string \<times> int \<times> string \<Rightarrow> check \<Rightarrow> fifo_client \<times> world \<Rightarrow>
     int \<times> fifo_client \<times> world" where
  "path_deliver = (\<lambda>(e, rp, path, t, ct) chk (fc, w).
     (let (rc, w') = write_result e rp path t ct chk w in (rc, fc, w')))"

lemma fifo_deliver_eq: "fifo_deliver (e, t) chk s = fifo_command e t chk s"
  by (simp add: fifo_deliver_def)

lemma path_deliver_eq:
  "path_deliver (e, rp, path, t, ct) chk s =
     (let (rc, w') = write_result e rp path t ct chk (snd s) in (rc, fst s, w'))"
  by (cases s) (simp add: path_deliver_def)

lemma markers_cong: "fs w = fs w' \<Longrightarrow> markers w = markers w'"
  by (simp add: markers_def fun_eq_iff)

definition result_env_ok :: "result_env \<Rightarrow> bool" where
  "result_env_ok e \<longleftrightarrow> suffix_ok (re_mkstemp_suffix e)"

interpretation sinks: fallback_sinks
  fifo_deliver "\<lambda>s. pipe (snd s)" "\<lambda>_. True" "\<lambda>s. fifo_inv (fst s)"
  path_deliver "\<lambda>s. markers (snd s)" "\<lambda>(e, _). result_env_ok e" "\<lambda>_. True"
proof unfold_locales
  show "markers (snd (snd (fifo_deliver e' c s))) = markers (snd s)" for e' c s
    by (rule markers_cong) (simp add: fifo_deliver_def case_prod_beta)
qed (auto simp: fifo_deliver_def path_deliver_def result_env_ok_def fifo_command_refused
      fifo_command_inv write_result_refused case_prod_beta)

section \<open>One result\<close>

text \<open>The thread has a FIFO client, and every FIFO client is in order.\<close>

definition fifos_ok :: "nat \<Rightarrow> 'td network \<Rightarrow> bool" where
  "fifos_ok tid n \<longleftrightarrow>
     (\<forall>fcs. fifoClients n = Some fcs \<longrightarrow> tid < length fcs \<and> list_all fifo_inv fcs)"

definition send_result ::
    "send_env \<Rightarrow> nat \<Rightarrow> check \<Rightarrow> 'td network \<Rightarrow> world \<Rightarrow> 'td network \<times> bool \<times> world" where
  "send_result e tid chk n w =
     (let fe = (se_fifo e, now n);
          pe = (\<lambda>rp. (se_result e, rp, check_result_path n, now n, cnow n))
      in (case (if command_file n = [] then None else fifoClients n, resultPathClient n) of
            (Some fcs, Some rp) \<Rightarrow>
              (let (ok, fc, w') = sinks.deliver_either fe (pe rp) chk (fcs ! tid, w)
               in (n\<lparr>fifoClients := Some (fcs[tid := fc])\<rparr>, ok, w'))
          | (Some fcs, None) \<Rightarrow>
              (let (rc, fc, w') = fifo_deliver fe chk (fcs ! tid, w)
               in (n\<lparr>fifoClients := Some (fcs[tid := fc])\<rparr>, rc = 0, w'))
          | (None, Some rp) \<Rightarrow>
              (let (rc, w') = write_result (se_result e) rp (check_result_path n) (now n) (cnow n) chk w
               in (n, rc = 0, w'))
          | (None, None) \<Rightarrow> (n, False, w)))"

definition tally :: "bool \<Rightarrow> 'td network_client \<Rightarrow> 'td network_client" where
  "tally ok c = (if ok then c\<lparr>d_success := d_success c + 1\<rparr> else c\<lparr>d_failed := d_failed c + 1\<rparr>)"

lemma send_receive_message_result:
  assumes "fifos_ok tid n"
  shows "send_receive_message e tid pkt (n, c, w) =
     Some (let (n', ok, w') = send_result e tid (packet_check pkt) n w in (n', tally ok c, w'))"
proof (cases "fifoClients n")
  case None
  then show ?thesis
    by (cases "resultPathClient n")
      (simp_all add: send_receive_message_def send_result_def tally_def Let_def case_prod_beta
        fifo_deliver_eq)
next
  case (Some fcs)
  with assms have tid: "tid < length fcs" by (simp add: fifos_ok_def)
  show ?thesis
  proof (cases "command_file n = []")
    case True
    with Some show ?thesis
      by (cases "resultPathClient n")
        (simp_all add: send_receive_message_def send_result_def tally_def Let_def case_prod_beta
        fifo_deliver_eq)
  next
    case False
    with Some tid show ?thesis
      by (cases "resultPathClient n")
        (simp_all add: send_receive_message_def send_result_def tally_def Let_def case_prod_beta
          sinks.deliver_either_def fifo_deliver_eq path_deliver_eq)
  qed
qed

text \<open>A result that is counted as failed has left no trace in either back end.\<close>

lemma send_result_failed:
  assumes "fifos_ok tid n" "result_env_ok (se_result e)" "send_result e tid chk n w = (n', False, w')"
  shows "pipe w' = pipe w \<and> markers w' = markers w"
proof (cases "if command_file n = [] then None else fifoClients n")
  case None
  with assms write_result_refused [of "se_result e" _ _ _ _ chk] show ?thesis
    by (auto simp: send_result_def Let_def result_env_ok_def case_prod_beta split: option.splits)
next
  case (Some fcs)
  then have "list_all fifo_inv fcs" "tid < length fcs" using assms(1)
    by (auto simp: fifos_ok_def split: if_splits)
  then have inv: "fifo_inv (fst (fcs ! tid, w))" by (simp add: list_all_length)
  show ?thesis
  proof (cases "resultPathClient n")
    case None
    with Some assms(3) sinks.first.refused [OF inv, of _ chk]
      sinks.emitted2_1 [of "(se_fifo e, now n)" chk "(fcs ! tid, w)"] show ?thesis
      by (auto simp: send_result_def Let_def case_prod_beta)
  next
    case (Some rp)
    with \<open>_ = Some fcs\<close> assms(2,3) sinks.either_failed [OF inv, where c = chk] show ?thesis
      by (auto simp: send_result_def Let_def case_prod_beta)
  qed
qed

text \<open>At most one back end gets a result.\<close>

lemma send_result_exclusive:
  assumes "fifos_ok tid n" "send_result e tid chk n w = (n', ok, w')"
  shows "pipe w' = pipe w \<or> markers w' = markers w"
proof (cases "if command_file n = [] then None else fifoClients n")
  case None
  with assms show ?thesis
    by (auto simp: send_result_def Let_def case_prod_beta split: option.splits)
next
  case (Some fcs)
  then have "list_all fifo_inv fcs" "tid < length fcs" using assms(1)
    by (auto simp: fifos_ok_def split: if_splits)
  then have inv: "fifo_inv (fst (fcs ! tid, w))" by (simp add: list_all_length)
  show ?thesis
  proof (cases "resultPathClient n")
    case None
    with Some assms(2) sinks.emitted2_1 [of "(se_fifo e, now n)" chk "(fcs ! tid, w)"] show ?thesis
      by (auto simp: send_result_def Let_def case_prod_beta)
  next
    case (Some rp)
    with \<open>_ = Some fcs\<close> assms(2) sinks.either_exclusive [OF inv, of "(se_fifo e, now n)" _ chk] show ?thesis
      by (fastforce simp: send_result_def Let_def case_prod_beta)
  qed
qed

lemma send_result_keeps:
  assumes "send_result e tid chk n w = (n', ok, w')"
  shows "n' = n\<lparr>fifoClients := fifoClients n'\<rparr>"
  using assms
  by (auto simp: send_result_def Let_def case_prod_beta split: option.splits)

lemma send_result_fifos_ok:
  assumes "fifos_ok tid n" "send_result e tid chk n w = (n', ok, w')"
  shows "fifos_ok tid n'"
proof (cases "if command_file n = [] then None else fifoClients n")
  case None
  with assms show ?thesis
    by (auto simp: send_result_def Let_def case_prod_beta split: option.splits)
next
  case (Some fcs)
  then have fcs: "list_all fifo_inv fcs" "tid < length fcs" using assms(1)
    by (auto simp: fifos_ok_def split: if_splits)
  then have inv: "fifo_inv (fst (fcs ! tid, w))" by (simp add: list_all_length)
  have upd: "fifo_inv fc \<Longrightarrow> list_all fifo_inv (fcs[tid := fc])" for fc
    using fcs(1) by (auto simp: list_all_iff dest: set_update_subset_insert [THEN subsetD])
  obtain fc where "n' = n\<lparr>fifoClients := Some (fcs[tid := fc])\<rparr>" "fifo_inv fc"
  proof (cases "resultPathClient n")
    case None
    with Some assms(2) sinks.first.inv_deliver [OF inv, of _ chk] that show ?thesis
      by (auto simp: send_result_def Let_def case_prod_beta)
  next
    case (Some rp)
    define r where "r = sinks.deliver_either (se_fifo e, now n)
        (se_result e, rp, check_result_path n, now n, cnow n) chk (fcs ! tid, w)"
    have "fifo_inv (fst (snd r))"
      using sinks.first.inv_deliver [OF inv]
      by (simp add: r_def sinks.deliver_either_def Let_def case_prod_beta sinks.inv1_2)
    with Some \<open>_ = Some fcs\<close> assms(2) show ?thesis
      by (intro that [of "fst (snd r)"])
        (auto simp: send_result_def Let_def case_prod_beta simp flip: r_def)
  qed
  with fcs upd show ?thesis by (auto simp: fifos_ok_def)
qed

section \<open>The loops\<close>

text \<open>The checks of a packet use the time and the limits of the \<open>network\<close> only.\<close>

lemma check_packet_fifos: "check_packet (n\<lparr>fifoClients := f\<rparr>) plen bs = check_packet n plen bs"
proof -
  have "packet_too_old (n\<lparr>fifoClients := f\<rparr>) t = packet_too_old n t" for t
    by (simp add: packet_too_old_def)
  then show ?thesis by (simp only: check_packet_def)
qed

lemma send_result_check_packet:
  "send_result e tid chk n w = (n', ok, w') \<Longrightarrow> check_packet n' plen bs = check_packet n plen bs"
  using send_result_keeps [of e tid chk n w n' ok w'] check_packet_fifos
  by (metis (no_types))

text \<open>A decoded queue is a list of lengths and decrypted bytes.\<close>

fun accepted_prefix :: "'td network \<Rightarrow> (nat \<times> byte list) list \<Rightarrow> byte list list" where
  "accepted_prefix n [] = []"
| "accepted_prefix n ((plen, bs) # ds) =
     (case check_packet n plen bs of
        (Accepted, bs1) \<Rightarrow> bs1 # accepted_prefix n ds
      | _ \<Rightarrow> [])"

text \<open>Deliveries with a count of successes and failures.\<close>

fun deliver_spec ::
    "(nat \<Rightarrow> send_env) \<Rightarrow> nat \<Rightarrow> nat \<Rightarrow> check list \<Rightarrow> 'td network \<times> (int \<times> int) \<times> world \<Rightarrow>
     'td network \<times> (int \<times> int) \<times> world" where
  "deliver_spec env tid i [] s = s"
| "deliver_spec env tid i (chk # chks) (n, (g, b), w) =
     (let (n', ok, w') = send_result (env i) tid chk n w
      in deliver_spec env tid (i + 1) chks (n', (if ok then (g + 1, b) else (g, b + 1)), w'))"

definition loop_spec ::
    "(nat \<Rightarrow> send_env) \<Rightarrow> nat \<Rightarrow> nat \<Rightarrow> (nat \<times> byte list) list \<Rightarrow> 'td network \<times> (int \<times> int) \<times> world \<Rightarrow>
     'td network \<times> (int \<times> int) \<times> world" where
  "loop_spec env tid i ds s =
     (let good = accepted_prefix (fst s) ds;
          (n, (g, b), w) = deliver_spec env tid i (map packet_check good) s
      in (n, (g, (if length good = length ds then b else b + 1)), w))"

text \<open>The abstraction: of a client only the two counters are left.\<close>

definition abs_state :: "'td proc_state \<Rightarrow> 'td network \<times> (int \<times> int) \<times> world" where
  "abs_state = (\<lambda>(n, c, w). (n, (d_success c, d_failed c), w))"

lemma accepted_prefix_cong:
  "\<forall>plen bs. check_packet n' plen bs = check_packet n plen bs \<Longrightarrow>
   accepted_prefix n' ds = accepted_prefix n ds"
  by (induction n' ds rule: accepted_prefix.induct)
    (auto split: prod.splits verdict.splits)

lemma loop_spec_Nil [simp]: "loop_spec env tid i [] s = s"
  by (cases s) (simp add: loop_spec_def case_prod_beta)

lemma loop_spec_accepted:
  assumes "check_packet n plen bs = (Accepted, bs1)"
    and "send_result (env i) tid (packet_check bs1) n w = (n', ok, w')"
  shows "loop_spec env tid i ((plen, bs) # ds) (n, (g, b), w) =
     loop_spec env tid (i + 1) ds (n', (if ok then (g + 1, b) else (g, b + 1)), w')"
proof -
  have "accepted_prefix n' ds = accepted_prefix n ds"
    using send_result_check_packet [OF assms(2)] by (intro accepted_prefix_cong) simp
  with assms show ?thesis by (simp add: loop_spec_def Let_def)
qed

lemma loop_spec_rejected:
  "fst (check_packet n plen bs) \<noteq> Accepted \<Longrightarrow>
   loop_spec env tid i ((plen, bs) # ds) (n, (g, b), w) = (n, (g, b + 1), w)"
  by (cases "check_packet n plen bs") (auto simp: loop_spec_def split: verdict.splits)

lemma deliver_spec_count:
  "deliver_spec env tid i chks (n, (g, b), w) = (n', (g', b'), w') \<Longrightarrow>
   g \<le> g' \<and> b \<le> b' \<and> g' + b' = g + b + int (length chks)"
proof (induction chks arbitrary: i n g b w)
  case Nil
  then show ?case by simp
next
  case (Cons chk chks)
  obtain n1 ok w1 where "send_result (env i) tid chk n w = (n1, ok, w1)"
    by (cases "send_result (env i) tid chk n w")
  with Cons.prems Cons.IH [of "i + 1" n1 "if ok then g + 1 else g" "if ok then b else b + 1" w1]
  show ?case by (cases ok) auto
qed

text \<open>When every delivery has failed, neither back end shows anything.\<close>

lemma deliver_spec_failed:
  assumes "deliver_spec env tid i chks (n, (g, b), w) = (n', (g, b'), w')"
    and "fifos_ok tid n" "\<forall>j. result_env_ok (se_result (env j))"
  shows "pipe w' = pipe w \<and> markers w' = markers w"
  using assms
proof (induction chks arbitrary: i n b w)
  case Nil
  then show ?case by simp
next
  case (Cons chk chks)
  obtain n1 ok w1 where s: "send_result (env i) tid chk n w = (n1, ok, w1)"
    by (cases "send_result (env i) tid chk n w")
  with Cons.prems(1) have rest: "deliver_spec env tid (i + 1) chks
      (n1, (if ok then (g + 1, b) else (g, b + 1)), w1) = (n', (g, b'), w')" by simp
  then have "\<not> ok" using deliver_spec_count [of env tid "i + 1" chks n1 "g + 1" b w1] by auto
  moreover have "fifos_ok tid n1" using send_result_fifos_ok [OF Cons.prems(2) s] .
  ultimately show ?case
    using send_result_failed [OF Cons.prems(2) _, of "env i"] s rest Cons.prems(3)
      Cons.IH [of "i + 1" n1 "b + 1" w1] by auto
qed

lemma check_packet_cases:
  obtains (ok) bs1 where "check_packet n plen bs = (Accepted, bs1)"
  | (bad) v bs1 where "check_packet n plen bs = (v, bs1)" "v \<noteq> Accepted"
  by (cases "check_packet n plen bs") auto

text \<open>Without libmcrypt each packet is decoded on its own.\<close>

definition plain_decode :: "string \<Rightarrow> int \<Rightarrow> 'td crypt_instance option \<Rightarrow> byte list \<Rightarrow> byte list" where
  "plain_decode pw m ci bs =
     (case ci of
        Some i \<Rightarrow> if m = ENCRYPT_XOR
                  then xor_buffer (transmitted_iv i) pw (take sizeof_data_packet bs)
                         @ drop sizeof_data_packet bs
                  else bs
      | None \<Rightarrow> bs)"

lemma decrypt_buffer_plain:
  "m = ENCRYPT_NONE \<or> m = ENCRYPT_XOR \<Longrightarrow>
   decrypt_buffer lib bs sizeof_data_packet pw m ci = Some (plain_decode pw m ci bs, ci)"
  by (cases ci) (auto simp: plain_decode_def decrypt_buffer_def encrypt_buffer_def
      ENCRYPT_NONE_def ENCRYPT_XOR_def)

lemma encrypt_buffer_plain:
  "m = ENCRYPT_NONE \<or> m = ENCRYPT_XOR \<Longrightarrow>
   encrypt_buffer lib bs sizeof_data_packet pw m ci = Some (plain_decode pw m ci bs, ci)"
  by (cases ci) (auto simp: plain_decode_def encrypt_buffer_def ENCRYPT_NONE_def ENCRYPT_XOR_def)

definition decoded_plain ::
    "string \<Rightarrow> int \<Rightarrow> 'td crypt_instance option \<Rightarrow> data_packet_pair list \<Rightarrow> (nat \<times> byte list) list" where
  "decoded_plain pw m ci ps = map (\<lambda>p. (packet_length p, plain_decode pw m ci (receive_packet p))) ps"

text \<open>Refinement: the abstraction of what the loop returns is \<open>loop_spec\<close> of the abstraction.\<close>

lemma nomcrypt_loop_refines:
  assumes "decryption_method n = ENCRYPT_NONE \<or> decryption_method n = ENCRYPT_XOR" "fifos_ok tid n"
  shows "\<exists>rest s. nomcrypt_loop lib env tid i ps ci (n, c, w) = Some (rest, ci, s)
     \<and> abs_state s = loop_spec env tid i
         (decoded_plain (password n) (decryption_method n) ci ps) (abs_state (n, c, w))"
  using assms
proof (induction ps arbitrary: i n c w)
  case Nil
  then show ?case by (simp add: decoded_plain_def)
next
  case (Cons p ps)
  let ?bs = "plain_decode (password n) (decryption_method n) ci (receive_packet p)"
  note dec = decrypt_buffer_plain [OF Cons.prems(1), of lib "receive_packet p" "password n" ci]
  show ?case
  proof (cases n "packet_length p" ?bs rule: check_packet_cases)
    case (bad v bs1)
    with dec show ?thesis
      by (cases v) (simp_all add: decoded_plain_def abs_state_def loop_spec_rejected count_failed_def)
  next
    case (ok bs1)
    obtain n1 k w1 where s: "send_result (env i) tid (packet_check bs1) n w = (n1, k, w1)"
      by (cases "send_result (env i) tid (packet_check bs1) n w")
    have n1: "n1 = n\<lparr>fifoClients := fifoClients n1\<rparr>" by (rule send_result_keeps [OF s])
    have m: "decryption_method n1 = decryption_method n" "password n1 = password n"
      by (subst n1, simp)+
    have f: "fifos_ok tid n1" by (rule send_result_fifos_ok [OF Cons.prems(2) s])
    have step: "nomcrypt_loop lib env tid i (p # ps) ci (n, c, w)
        = nomcrypt_loop lib env tid (i + 1) ps ci (n1, tally k c, w1)"
      using dec ok send_receive_message_result [OF Cons.prems(2), of "env i" bs1 c w] s by simp
    from Cons.IH [of n1 "i + 1" "tally k c" w1] Cons.prems(1) m f
    show ?thesis unfolding step
      using loop_spec_accepted [OF ok, of env i tid w, OF s]
      by (auto simp: decoded_plain_def abs_state_def tally_def)
  qed
qed

text \<open>With libmcrypt the packets of a connection are one stream.\<close>

fun stream_decode :: "'td mcrypt \<Rightarrow> 'td \<Rightarrow> byte list list \<Rightarrow> byte list list" where
  "stream_decode lib t [] = []"
| "stream_decode lib t (b # bs) =
     (let (d, t') = crypt_bytes (mdecrypt_generic lib) t (take sizeof_data_packet b)
      in (d @ drop sizeof_data_packet b) # stream_decode lib t' bs)"

text \<open>The state from which the loop decrypts its \<open>i\<close>-th packet.\<close>

definition loop_cipher ::
    "'td mcrypt \<Rightarrow> nat \<Rightarrow> 'td \<Rightarrow> byte list \<Rightarrow> 'td crypt_instance \<Rightarrow> 'td network_client \<Rightarrow> 'td" where
  "loop_cipher lib i t iv ci c =
     (if i = 1 then mcrypt_enc_set_state lib t (take (iv_size ci) iv)
      else mcrypt_enc_set_state lib t (take (mcrypt_state_size c) (mcrypt_state c)))"

definition decoded_stream ::
    "'td mcrypt \<Rightarrow> 'td \<Rightarrow> data_packet_pair list \<Rightarrow> (nat \<times> byte list) list" where
  "decoded_stream lib t ps = zip (map packet_length ps) (stream_decode lib t (map receive_packet ps))"

lemma decoded_stream_simps [simp]:
  "decoded_stream lib t [] = []"
  "decoded_stream lib t (p # ps) =
     (let (d, t') = crypt_bytes (mdecrypt_generic lib) t (take sizeof_data_packet (receive_packet p))
      in (packet_length p, d @ drop sizeof_data_packet (receive_packet p)) # decoded_stream lib t' ps)"
  by (simp_all add: decoded_stream_def case_prod_beta Let_def)

lemma save_mcrypt_state_simps [simp]:
  "take (mcrypt_state_size (save_mcrypt_state lib t c)) (mcrypt_state (save_mcrypt_state lib t c))
     = mcrypt_enc_get_state lib t"
  "d_success (save_mcrypt_state lib t c) = d_success c"
  "d_failed (save_mcrypt_state lib t c) = d_failed c"
  by (simp_all add: save_mcrypt_state_def Let_def)

lemma tally_simps [simp]:
  "mcrypt_state (tally k c) = mcrypt_state c" "mcrypt_state_size (tally k c) = mcrypt_state_size c"
  "d_success (tally k c) = (if k then d_success c + 1 else d_success c)"
  "d_failed (tally k c) = (if k then d_failed c else d_failed c + 1)"
  by (simp_all add: tally_def)

text \<open>One round of the loop, with the bytes of its packet decrypted.\<close>

lemma mcrypt_loop_round:
  assumes "decryption_method n \<noteq> ENCRYPT_NONE" "decryption_method n \<noteq> ENCRYPT_XOR"
    and "td ci = Some t" "IV ci = Some iv"
    and d: "crypt_bytes (mdecrypt_generic lib) (loop_cipher lib i t iv ci c)
      (take sizeof_data_packet (receive_packet p)) = (d, t2)"
    and bs: "bs = d @ drop sizeof_data_packet (receive_packet p)"
  shows "mcrypt_loop lib env tid i (p # ps) ci (n, c, w) =
    (case check_packet n (packet_length p) bs of
       (Accepted, bs1) \<Rightarrow>
         (case send_receive_message (env i) tid bs1 (n, save_mcrypt_state lib t2 c, w) of
            None \<Rightarrow> None
          | Some s \<Rightarrow> mcrypt_loop lib env tid (i + 1) ps (ci\<lparr>td := Some t2\<rparr>) s)
     | (_, bs1) \<Rightarrow> Some (p\<lparr>receive_packet := bs1\<rparr> # ps, ci\<lparr>td := Some t2\<rparr>,
         (n, count_failed (save_mcrypt_state lib t2 c), w)))"
proof -
  define t1 where "t1 = loop_cipher lib i t iv ci c"
  have "decrypt_buffer lib (receive_packet p) sizeof_data_packet (password n)
      (decryption_method n) (Some (ci\<lparr>td := Some t1\<rparr>)) = Some (bs, Some (ci\<lparr>td := Some t2\<rparr>))"
    using assms(1,2) d bs by (simp add: decrypt_buffer_def t1_def)
  then show ?thesis using assms(3,4)
    by (cases "check_packet n (packet_length p) bs"; cases "fst (check_packet n (packet_length p) bs)")
      (simp_all add: t1_def loop_cipher_def Let_def split: if_splits)
qed

lemma mcrypt_loop_refines:
  assumes "decryption_method n \<noteq> ENCRYPT_NONE" "decryption_method n \<noteq> ENCRYPT_XOR" "fifos_ok tid n"
    and law: "\<And>t. mcrypt_enc_set_state lib t (mcrypt_enc_get_state lib t) = t"
    and "td ci = Some t" "IV ci = Some iv" "0 < i"
  shows "\<exists>rest ci' s. mcrypt_loop lib env tid i ps ci (n, c, w) = Some (rest, ci', s)
     \<and> abs_state s = loop_spec env tid i
         (decoded_stream lib (loop_cipher lib i t iv ci c) ps) (abs_state (n, c, w))"
  using assms(1-3,5-7)
proof (induction ps arbitrary: i n c w ci t)
  case Nil
  then show ?case by simp
next
  case (Cons p ps)
  define t1 where "t1 = loop_cipher lib i t iv ci c"
  obtain d t2 where d: "crypt_bytes (mdecrypt_generic lib) t1 (take sizeof_data_packet (receive_packet p)) = (d, t2)"
    by (cases "crypt_bytes (mdecrypt_generic lib) t1 (take sizeof_data_packet (receive_packet p))")
  let ?bs = "d @ drop sizeof_data_packet (receive_packet p)" and ?ci = "ci\<lparr>td := Some t2\<rparr>"
  let ?c = "save_mcrypt_state lib t2 c"
  note head = mcrypt_loop_round [OF Cons.prems(1,2,4,5) d [unfolded t1_def] refl]
  show ?case
  proof (cases n "packet_length p" ?bs rule: check_packet_cases)
    case (bad v bs1)
    with d show ?thesis unfolding head
      by (cases v) (simp_all add: abs_state_def loop_spec_rejected count_failed_def flip: t1_def)
  next
    case (ok bs1)
    obtain n1 k w1 where s: "send_result (env i) tid (packet_check bs1) n w = (n1, k, w1)"
      by (cases "send_result (env i) tid (packet_check bs1) n w")
    have n1: "n1 = n\<lparr>fifoClients := fifoClients n1\<rparr>" by (rule send_result_keeps [OF s])
    have m: "decryption_method n1 = decryption_method n" by (subst n1, simp)
    have f: "fifos_ok tid n1" by (rule send_result_fifos_ok [OF Cons.prems(3) s])
    have step: "mcrypt_loop lib env tid i (p # ps) ci (n, c, w)
        = mcrypt_loop lib env tid (i + 1) ps ?ci (n1, tally k ?c, w1)"
      unfolding head
      using ok send_receive_message_result [OF Cons.prems(3), of "env i" bs1 ?c w] s by simp
    have next': "loop_cipher lib (i + 1) t2 iv ?ci (tally k ?c) = t2"
      using Cons.prems(6) law by (simp add: loop_cipher_def)
    from Cons.IH [of n1 ?ci t2 "i + 1" "tally k ?c" w1] Cons.prems m f next'
    show ?thesis unfolding step
      using loop_spec_accepted [OF ok, of env i tid w, OF s] d
      by (auto simp: abs_state_def simp flip: t1_def)
  qed
qed

lemma length_stream_decode [simp]: "length (stream_decode lib t bs) = length bs"
  by (induction bs arbitrary: t) (simp_all add: case_prod_beta Let_def)

section \<open>The whole queue\<close>

text \<open>
  \<open>process_queue\<close> refines \<open>loop_spec\<close> of the decoded queue. \<open>queue_decoded\<close> says what the decoded
  queue is.
\<close>

definition queue_decoded ::
    "'td mcrypt \<Rightarrow> 'td network \<Rightarrow> 'td crypt_instance option \<Rightarrow> data_packet_pair list \<Rightarrow>
     (nat \<times> byte list) list" where
  "queue_decoded lib n CIp ps =
     (if 1 < decryption_method n
      then (case CIp of
              Some ci \<Rightarrow> decoded_stream lib
                (mcrypt_enc_set_state lib (the (td ci)) (take (iv_size ci) (the (IV ci)))) ps
            | None \<Rightarrow> [])
      else decoded_plain (password n) (decryption_method n) CIp ps)"

definition cipher_ready :: "'td network \<Rightarrow> 'td crypt_instance option \<Rightarrow> bool" where
  "cipher_ready n CIp \<longleftrightarrow> 0 \<le> decryption_method n
     \<and> (1 < decryption_method n \<longrightarrow> (\<exists>ci. CIp = Some ci \<and> td ci \<noteq> None \<and> IV ci \<noteq> None))"

theorem process_queue_refines:
  assumes "cipher_ready n CIp" "fifos_ok tid n"
    and law: "\<And>t. mcrypt_enc_set_state lib t (mcrypt_enc_get_state lib t) = t"
    and spec: "loop_spec env tid 1 (queue_decoded lib n CIp (data_packets c))
       (n, (d_success c, d_failed c), w) = (n1, (g, b), w1)"
  shows "\<exists>CIp' c'. process_queue lib True env tid CIp (n, c, w) =
      Some (CIp', report_success_failed (word_of_int g) (word_of_int b) n1, c', w1)
    \<and> d_success c' = g \<and> d_failed c' = b"
proof (cases "1 < decryption_method n")
  case True
  with assms(1) obtain ci t iv where ci: "CIp = Some ci" "td ci = Some t" "IV ci = Some iv"
    by (auto simp: cipher_ready_def)
  let ?c = "c\<lparr>mcrypt_state := take (iv_size ci) iv @ replicate (128 - iv_size ci) 0,
             mcrypt_state_size := iv_size ci\<rparr>"
  have "decryption_method n \<noteq> ENCRYPT_NONE" "decryption_method n \<noteq> ENCRYPT_XOR"
    using True by (simp_all add: nsca_consts)
  from mcrypt_loop_refines [OF this assms(2) law ci(2,3), of 1 env "data_packets c" ?c w]
  obtain rest ci' n2 c2 w2 where loop:
      "mcrypt_loop lib env tid 1 (data_packets c) ci (n, ?c, w) = Some (rest, ci', (n2, c2, w2))"
      "abs_state (n2, c2, w2) = (n1, (g, b), w1)"
    using spec True ci by (auto simp: queue_decoded_def loop_cipher_def abs_state_def)
  with True ci show ?thesis
    by (simp add: process_queue_def process_queue_mcrypt_def abs_state_def)
next
  case False
  with assms(1) have "decryption_method n = ENCRYPT_NONE \<or> decryption_method n = ENCRYPT_XOR"
    by (auto simp: cipher_ready_def nsca_consts)
  from nomcrypt_loop_refines [OF this assms(2), of lib env 1 "data_packets c" CIp c w]
  obtain rest n2 c2 w2 where
      "nomcrypt_loop lib env tid 1 (data_packets c) CIp (n, c, w) = Some (rest, CIp, (n2, c2, w2))"
      "abs_state (n2, c2, w2) = (n1, (g, b), w1)"
    using spec False by (auto simp: queue_decoded_def abs_state_def)
  with False show ?thesis
    by (simp add: process_queue_def process_queue_nomcrypt_def abs_state_def)
qed

end
