(* ===== verification/Nsca_Protocol.thy ===== *)
theory Nsca_Protocol
  imports Nsca_Receive Nsca_Delivery
begin

text \<open>
  Both ends of the protocol: what a sender puts on the wire is what the receiver delivers, and
  what the checks catch. The sender is a specification; it uses the repository's own
  \<open>encrypt_buffer\<close>, which is the routine \<open>send_nsca\<close> has.
\<close>

section \<open>Sealed packets pass the checks\<close>

definition check_of :: "data_packet \<Rightarrow> check" where
  "check_of p =
     (text_of (c_string ((host_name p)[MAX_HOSTNAME_LENGTH - 1 := 0])),
      text_of (c_string ((svc_description p)[MAX_DESCRIPTION_LENGTH - 1 := 0])),
      uint (return_code p),
      text_of (c_string ((plugin_output p)[MAX_PLUGINOUTPUT_LENGTH - 1 := 0])))"

lemma packet_check_of_bytes: "packet_check bs = check_of (packet_of_bytes bs)"
  by (simp add: packet_check_def check_of_def member_string_def packet_of_bytes_def)

lemma check_of_crc32 [simp]: "check_of (p\<lparr>crc32_value := v\<rparr>) = check_of p"
  by (simp add: check_of_def)

lemma packet_fields:
  "be16 bs off_version = packet_version (packet_of_bytes bs)"
  "be32 bs off_crc32 = crc32_value (packet_of_bytes bs)"
  "be32 bs off_timestamp = timestamp (packet_of_bytes bs)"
  by (simp_all add: packet_of_bytes_def)

definition acceptable :: "'td network \<Rightarrow> data_packet \<Rightarrow> bool" where
  "acceptable n p \<longleftrightarrow> packet_wf p \<and> packet_version p = NSCA_PACKET_VERSION_3
     \<and> \<not> packet_too_old n (timestamp p)"

lemma check_packet_sealed:
  assumes "acceptable n p"
  shows "check_packet n sizeof_data_packet (seal_packet p)
       = (Accepted, bytes_of_packet (p\<lparr>crc32_value := 0\<rparr>))"
  using assms calculate_crc32_seal_packet [of p] packet_of_seal_packet [of p]
  by (simp add: check_packet_def acceptable_def packet_fields clear_crc32_seal_packet)

lemma packet_check_sealed:
  "packet_wf p \<Longrightarrow> packet_check (bytes_of_packet (p\<lparr>crc32_value := 0\<rparr>)) = check_of p"
  by (simp add: packet_check_of_bytes)

lemma accepted_prefix_sealed:
  assumes "\<forall>p \<in> set ps. acceptable n p"
  shows "accepted_prefix n (map (\<lambda>p. (sizeof_data_packet, seal_packet p)) ps)
       = map (\<lambda>p. bytes_of_packet (p\<lparr>crc32_value := 0\<rparr>)) ps"
  using assms by (induction ps) (simp_all add: check_packet_sealed)

lemma loop_spec_sealed:
  assumes "\<forall>p \<in> set ps. acceptable (fst s) p"
  shows "loop_spec env tid i (map (\<lambda>p. (sizeof_data_packet, seal_packet p)) ps) s
       = deliver_spec env tid i (map check_of ps) s"
proof -
  have "map packet_check (map (\<lambda>p. bytes_of_packet (p\<lparr>crc32_value := 0\<rparr>)) ps) = map check_of ps"
    using assms by (auto simp: acceptable_def packet_check_sealed)
  with assms show ?thesis
    by (simp add: loop_spec_def accepted_prefix_sealed Let_def case_prod_beta comp_def cong: map_cong)
qed

section \<open>The sender\<close>

fun send_packets ::
    "'td mcrypt \<Rightarrow> string \<Rightarrow> int \<Rightarrow> 'td crypt_instance option \<Rightarrow> byte list list \<Rightarrow> byte list list option" where
  "send_packets lib pw m CIp [] = Some []"
| "send_packets lib pw m CIp (b # bs) =
     (case encrypt_buffer lib b sizeof_data_packet pw m CIp of
        None \<Rightarrow> None
      | Some (c, CIp') \<Rightarrow> map_option ((#) c) (send_packets lib pw m CIp' bs))"

definition as_queue :: "byte list list \<Rightarrow> data_packet_pair list" where
  "as_queue ws = map (\<lambda>b. \<lparr>receive_packet = b, packet_length = sizeof_data_packet\<rparr>) ws"

text \<open>
  Receiver and sender agree: the same IV for the exclusive or, and for libmcrypt a cipher with
  inverse byte operations whose state after \<open>mcrypt_enc_set_state\<close> with the IV is the state the
  sender started from.
\<close>

definition in_step :: "'td mcrypt \<Rightarrow> int \<Rightarrow> 'td crypt_instance option \<Rightarrow> 'td crypt_instance option \<Rightarrow> bool" where
  "in_step lib m S R \<longleftrightarrow>
     (m = ENCRYPT_NONE
      \<or> m = ENCRYPT_XOR \<and> map_option transmitted_iv S = map_option transmitted_iv R
      \<or> 1 < m \<and> stream_cipher (mcrypt_generic lib) (mdecrypt_generic lib)
        \<and> (\<exists>s ts r tr iv. S = Some s \<and> td s = Some ts \<and> R = Some r \<and> td r = Some tr \<and> IV r = Some iv
             \<and> mcrypt_enc_set_state lib tr (take (iv_size r) iv) = ts))"

lemma send_packets_plain:
  "m = ENCRYPT_NONE \<or> m = ENCRYPT_XOR \<Longrightarrow>
   send_packets lib pw m CIp bs = Some (map (plain_decode pw m CIp) bs)"
  by (induction bs) (auto simp: encrypt_buffer_plain)

lemma plain_decode_inverse:
  assumes "m = ENCRYPT_NONE \<or> m = ENCRYPT_XOR \<and> map_option transmitted_iv S = map_option transmitted_iv R"
    and "length b = sizeof_data_packet"
  shows "plain_decode pw m R (plain_decode pw m S b) = b"
  using assms
  by (auto simp: plain_decode_def ENCRYPT_NONE_def ENCRYPT_XOR_def split: option.splits)

lemma send_packets_stream:
  assumes "stream_cipher (mcrypt_generic lib) (mdecrypt_generic lib)" "1 < m"
    and "send_packets lib pw m (Some s) bs = Some ws" "td s = Some ts"
    and "\<forall>b \<in> set bs. length b = sizeof_data_packet"
  shows "stream_decode lib ts ws = bs"
  using assms(3-5)
proof (induction bs arbitrary: s ts ws)
  case Nil
  then show ?case by simp
next
  case (Cons b bs)
  obtain c t where enc: "crypt_bytes (mcrypt_generic lib) ts b = (c, t)"
    by (cases "crypt_bytes (mcrypt_generic lib) ts b")
  have "m \<noteq> ENCRYPT_NONE" "m \<noteq> ENCRYPT_XOR" using assms(2) by (simp_all add: nsca_consts)
  then have "encrypt_buffer lib b sizeof_data_packet pw m (Some s) = Some (c, Some (s\<lparr>td := Some t\<rparr>))"
    using Cons.prems enc by (simp add: encrypt_buffer_def)
  with Cons.prems obtain ws' where ws: "ws = c # ws'"
      "send_packets lib pw m (Some (s\<lparr>td := Some t\<rparr>)) bs = Some ws'"
    by auto
  have "stream_decode lib t ws' = bs" using Cons.IH [OF ws(2)] Cons.prems by simp
  moreover have "length c = sizeof_data_packet"
    using length_crypt_bytes [of "mcrypt_generic lib" ts b] enc Cons.prems by simp
  moreover have "crypt_bytes (mdecrypt_generic lib) ts c = (b, t)"
    using stream_cipher.crypt_bytes_inverse [OF assms(1), of ts b] enc by simp
  ultimately show ?case using ws(1) by simp
qed

lemma send_packets_length: "send_packets lib pw m CIp bs = Some ws \<Longrightarrow> length ws = length bs"
  by (induction bs arbitrary: CIp ws) (auto split: option.splits)

lemma zip_replicate_map: "length xs = length ys \<Longrightarrow> zip (map (\<lambda>_. k) xs) ys = map (Pair k) ys"
  by (induction xs ys rule: list_induct2) simp_all

lemma queue_decoded_sent:
  assumes "in_step lib (decryption_method n) S R"
    and "send_packets lib (password n) (decryption_method n) S bs = Some ws"
    and len: "\<forall>b \<in> set bs. length b = sizeof_data_packet"
  shows "queue_decoded lib n R (as_queue ws) = map (Pair sizeof_data_packet) bs"
proof (cases "1 < decryption_method n")
  case True
  then have "decryption_method n \<noteq> ENCRYPT_NONE" "decryption_method n \<noteq> ENCRYPT_XOR"
    by (simp_all add: nsca_consts)
  with assms(1) obtain s ts r tr iv where a:
      "stream_cipher (mcrypt_generic lib) (mdecrypt_generic lib)"
      "S = Some s" "td s = Some ts" "R = Some r" "td r = Some tr" "IV r = Some iv"
      "mcrypt_enc_set_state lib tr (take (iv_size r) iv) = ts"
    by (auto simp: in_step_def)
  have "stream_decode lib ts ws = bs"
    using send_packets_stream [OF a(1) True] assms(2) a(2,3) len by blast
  with True a send_packets_length [OF assms(2)] show ?thesis
    by (simp add: queue_decoded_def decoded_stream_def as_queue_def comp_def zip_replicate_map)
next
  case False
  with assms(1) have m: "decryption_method n = ENCRYPT_NONE
      \<or> decryption_method n = ENCRYPT_XOR \<and> map_option transmitted_iv S = map_option transmitted_iv R"
    by (auto simp: in_step_def)
  then have "ws = map (plain_decode (password n) (decryption_method n) S) bs"
    using send_packets_plain [of "decryption_method n" lib "password n" S bs] assms(2) by auto
  with False len plain_decode_inverse [OF m] show ?thesis
    by (simp add: queue_decoded_def decoded_plain_def as_queue_def comp_def)
qed

text \<open>The end-to-end statement.\<close>

theorem process_queue_sent:
  assumes "in_step lib (decryption_method n) S R" "fifos_ok tid n"
    and "\<And>t. mcrypt_enc_set_state lib t (mcrypt_enc_get_state lib t) = t"
    and ps: "\<forall>p \<in> set ps. acceptable n p"
    and "send_packets lib (password n) (decryption_method n) S (map seal_packet ps) = Some ws"
    and q: "data_packets c = as_queue ws"
    and spec: "deliver_spec env tid 1 (map check_of ps) (n, (d_success c, d_failed c), w) = (n1, (g, b), w1)"
  shows "\<exists>R' c'. process_queue lib True env tid R (n, c, w) =
     Some (R', report_success_failed (word_of_int g) (word_of_int b) n1, c', w1)"
proof -
  have "\<forall>b \<in> set (map seal_packet ps). length b = sizeof_data_packet"
    using ps by (auto simp: acceptable_def)
  from queue_decoded_sent [OF assms(1) assms(5) this] have
      "queue_decoded lib n R (data_packets c) = map (\<lambda>p. (sizeof_data_packet, seal_packet p)) ps"
    by (simp add: q comp_def)
  with spec ps have "loop_spec env tid 1 (queue_decoded lib n R (data_packets c))
      (n, (d_success c, d_failed c), w) = (n1, (g, b), w1)"
    by (simp add: loop_spec_sealed)
  moreover have "cipher_ready n R"
    using assms(1) by (auto simp: in_step_def cipher_ready_def nsca_consts)
  ultimately show ?thesis using process_queue_refines [OF _ assms(2,3)] by blast
qed

section \<open>Damaged packets do not\<close>

text \<open>
  Up to four neighbouring bytes are changed, all of them in the checksum member or none.
\<close>

definition burst :: "byte list \<Rightarrow> byte list \<Rightarrow> bool" where
  "burst bs bs' \<longleftrightarrow>
     (\<exists>pre w w' post. bs = pre @ w @ post \<and> bs' = pre @ w' @ post \<and> w \<noteq> w'
        \<and> length w = length w' \<and> length w \<le> 4
        \<and> (length pre + length w \<le> off_crc32 \<or> off_crc32 + 4 \<le> length pre
           \<or> off_crc32 \<le> length pre \<and> length pre + length w \<le> off_crc32 + 4))"

lemma bytes_of_be32:
  "to_be32 (be32 bs i) = [bs ! i, bs ! (i + 1), bs ! (i + 2), bs ! (i + 3)]"
proof -
  have "(ucast (drop_bit 24 (push_bit 24 (ucast a) OR push_bit 16 (ucast b) OR push_bit 8 (ucast c)
          OR (ucast d :: u32))) :: byte) = a"
    "(ucast (drop_bit 16 (push_bit 24 (ucast a) OR push_bit 16 (ucast b) OR push_bit 8 (ucast c)
          OR (ucast d :: u32))) :: byte) = b"
    "(ucast (drop_bit 8 (push_bit 24 (ucast a) OR push_bit 16 (ucast b) OR push_bit 8 (ucast c)
          OR (ucast d :: u32))) :: byte) = c"
    "(ucast (push_bit 24 (ucast a) OR push_bit 16 (ucast b) OR push_bit 8 (ucast c)
          OR (ucast d :: u32)) :: byte) = d" for a b c d :: byte
    by (rule bit_word_eqI; auto simp: bit_simps dest: bit_imp_le_length)+
  then show ?thesis by (simp add: to_be32_def be32_def)
qed

lemma be32_cong_iff:
  "i + 4 \<le> length as \<Longrightarrow> length as = length bs \<Longrightarrow>
   be32 as i = be32 bs i \<longleftrightarrow> take 4 (drop i as) = take 4 (drop i bs)"
proof -
  assume l: "i + 4 \<le> length as" "length as = length bs"
  have four: "take 4 (drop i xs) = [xs ! i, xs ! (i + 1), xs ! (i + 2), xs ! (i + 3)]"
    if "i + 4 \<le> length xs" for xs :: "byte list"
    using that by (intro nth_equalityI) (auto simp: less_Suc_eq numeral_eq_Suc nth_Cons')
  have "be32 as i = be32 bs i \<longleftrightarrow> to_be32 (be32 as i) = to_be32 (be32 bs i)"
    using be32_at [of "[]"] by (metis append_Nil)
  with l show ?thesis by (simp add: bytes_of_be32 four)
qed

lemma clear_crc32_parts:
  "length pre + length w \<le> off_crc32 \<Longrightarrow> off_crc32 + 4 \<le> length (pre @ w @ post) \<Longrightarrow>
     clear_crc32 (pre @ w @ post) = pre @ w @ take (off_crc32 - length pre - length w) post
       @ replicate 4 0 @ drop (off_crc32 + 4 - length pre - length w) post"
  "off_crc32 + 4 \<le> length pre \<Longrightarrow> clear_crc32 (pre @ rest) = clear_crc32 pre @ rest"
  "off_crc32 \<le> length pre \<Longrightarrow> length pre + length w \<le> off_crc32 + 4 \<Longrightarrow> length w = length w' \<Longrightarrow>
     clear_crc32 (pre @ w @ post) = clear_crc32 (pre @ w' @ post)"
  by (simp_all add: clear_crc32_def)

lemma burst_stored_crc:
  assumes "length (pre @ w @ post) = 4304" "length (pre @ w' @ post) = 4304" "length w = length w'" "w \<noteq> w'"
    and "off_crc32 \<le> length pre" "length pre + length w \<le> off_crc32 + 4"
  shows "be32 (pre @ w' @ post) off_crc32 \<noteq> be32 (pre @ w @ post) off_crc32"
proof
  assume "be32 (pre @ w' @ post) off_crc32 = be32 (pre @ w @ post) off_crc32"
  then have "take 4 (drop off_crc32 (pre @ w' @ post)) = take 4 (drop off_crc32 (pre @ w @ post))"
    using assms(1,2) by (subst (asm) be32_cong_iff) (simp_all add: nsca_consts)
  then have "drop (length pre - off_crc32) (take 4 (drop off_crc32 (pre @ w' @ post)))
      = drop (length pre - off_crc32) (take 4 (drop off_crc32 (pre @ w @ post)))" by simp
  then have "take (length w) (take (4 - (length pre - off_crc32)) (w' @ post))
      = take (length w) (take (4 - (length pre - off_crc32)) (w @ post))"
    using assms(5,6) by (simp add: drop_take)
  moreover have "length w \<le> 4 - (length pre - off_crc32)" using assms(5,6) by linarith
  ultimately have "take (length w) (w' @ post) = take (length w) (w @ post)"
    by (simp only: take_take min.absorb1)
  then have "w' = w" by (simp add: assms(3))
  with assms(4) show False by simp
qed

text \<open>A burst before or behind the checksum changes what the checksum is computed from.\<close>

lemma burst_cleared:
  assumes "length (pre @ w @ post) = 4304" "length w = length w'" "length w \<le> 4" "w \<noteq> w'"
    and "length pre + length w \<le> off_crc32 \<or> off_crc32 + 4 \<le> length pre"
  shows "crc32_spec (clear_crc32 (pre @ w' @ post)) \<noteq> crc32_spec (clear_crc32 (pre @ w @ post))"
  using assms(5)
proof
  assume a: "length pre + length w \<le> off_crc32"
  define z where "z = take (off_crc32 - length pre - length w) post @ replicate 4 0
    @ drop (off_crc32 + 4 - length pre - length w) post"
  have "clear_crc32 (pre @ w @ post) = pre @ w @ z" "clear_crc32 (pre @ w' @ post) = pre @ w' @ z"
    using clear_crc32_parts(1) [of pre w post] clear_crc32_parts(1) [of pre w' post] a assms(1,2)
    by (simp_all add: z_def nsca_consts)
  then show ?thesis using crc32_spec_burst [OF assms(2,3,4), of pre z] by simp
next
  assume a: "off_crc32 + 4 \<le> length pre"
  then show ?thesis
    using crc32_spec_burst [OF assms(2,3,4), of "clear_crc32 pre" post] clear_crc32_parts(2) [OF a] by simp
qed

lemma check_packet_burst:
  assumes "packet_wf p" "burst (seal_packet p) bs'"
  shows "fst (check_packet n sizeof_data_packet bs') \<noteq> Accepted"
proof -
  let ?bs = "seal_packet p"
  obtain pre w w' post where s: "?bs = pre @ w @ post" "bs' = pre @ w' @ post" "w \<noteq> w'"
      "length w = length w'" "length w \<le> 4"
    and place: "(length pre + length w \<le> off_crc32 \<or> off_crc32 + 4 \<le> length pre)
      \<or> off_crc32 \<le> length pre \<and> length pre + length w \<le> off_crc32 + 4"
    using assms(2) by (auto simp: burst_def)
  have len: "length ?bs = 4304" "length bs' = 4304"
    using length_seal_packet [OF assms(1)] s by (simp_all add: sizeof_data_packet_value)
  define crc :: "byte list \<Rightarrow> u32" where "crc bs = crc32_spec (clear_crc32 bs)" for bs
  have calc: "ucast (calculate_crc32 generate_crc32_table (Some (clear_crc32 bs)) (int sizeof_data_packet)) = crc bs"
    if "length bs = 4304" for bs
    using that calculate_crc32_foldl [of sizeof_data_packet "clear_crc32 bs"]
    by (simp add: crc_def ucast_ucast_same sizeof_data_packet_value)
  have stored: "be32 ?bs off_crc32 = crc ?bs"
    using calculate_crc32_seal_packet [OF assms(1)] calc [OF len(1)] by (simp add: packet_fields)
  have "be32 bs' off_crc32 \<noteq> crc bs'"
    using place
  proof
    assume a: "length pre + length w \<le> off_crc32 \<or> off_crc32 + 4 \<le> length pre"
    then have "be32 bs' off_crc32 = be32 ?bs off_crc32"
      using s len by (subst be32_cong_iff) (auto simp: nsca_consts)
    moreover have "crc bs' \<noteq> crc ?bs"
      using burst_cleared [OF _ s(4,5,3) a] len(1) s(1,2) by (simp add: crc_def)
    ultimately show ?thesis using stored by simp
  next
    assume a: "off_crc32 \<le> length pre \<and> length pre + length w \<le> off_crc32 + 4"
    then have "crc bs' = crc ?bs" using s clear_crc32_parts(3) [OF _ _ s(4)] by (simp add: crc_def)
    moreover have "be32 bs' off_crc32 \<noteq> be32 ?bs off_crc32"
      using burst_stored_crc [OF _ _ s(4,3)] a len unfolding s(1,2) by blast
    ultimately show ?thesis using stored by simp
  qed
  then have "crc bs' \<noteq> be32 bs' off_crc32" by (rule not_sym)
  then show ?thesis unfolding check_packet_def Let_def calc [OF len(2)] by (simp only: if_True fst_conv split: if_split) simp
qed

text \<open>A damaged packet ends the processing: the rest of the queue is not delivered.\<close>

lemma accepted_prefix_damaged:
  assumes "\<forall>p \<in> set ps. acceptable n p" "packet_wf q" "burst (seal_packet q) bs'"
  shows "accepted_prefix n (map (\<lambda>p. (sizeof_data_packet, seal_packet p)) ps
           @ (sizeof_data_packet, bs') # ds)
       = map (\<lambda>p. bytes_of_packet (p\<lparr>crc32_value := 0\<rparr>)) ps"
  using assms(1)
proof (induction ps)
  case Nil
  have "fst (check_packet n sizeof_data_packet bs') \<noteq> Accepted"
    using assms(2,3) by (rule check_packet_burst)
  then show ?case by (cases "check_packet n sizeof_data_packet bs'") (auto split: verdict.splits)
next
  case (Cons p ps)
  then show ?case by (simp add: check_packet_sealed)
qed

section \<open>The age of a packet\<close>

lemma packet_too_old_exact:
  assumes "0 \<le> now n" "now n < 2 ^ 63" "\<bar>now n - uint stamp\<bar> < 2 ^ 31"
    and "max_packet_age_enabled n \<noteq> 0" "0 < max_packet_age n"
  shows "packet_too_old n stamp \<longleftrightarrow> max_packet_age n < \<bar>now n - uint stamp\<bar>"
proof -
  have "now n mod 2 ^ 64 = now n" using assms(1,2) by simp
  moreover have "c_int (uint stamp - now n) = uint stamp - now n"
      "c_int (now n - uint stamp) = now n - uint stamp"
    using assms(3) by (simp_all add: c_int_id)
  ultimately show ?thesis using assms(4,5) by (auto simp: packet_too_old_def Let_def)
qed

text \<open>The difference goes through a 32-bit \<open>int\<close>: a time stamp far ahead counts as new.\<close>

lemma packet_too_old_wraps:
  assumes "0 \<le> now n" "2 ^ 31 \<le> uint stamp - now n" "0 < max_packet_age n"
  shows "\<not> packet_too_old n stamp"
proof -
  have "uint stamp < 2 ^ 32" using uint_lt2p [of stamp] by simp
  with assms have d: "2 ^ 31 \<le> uint stamp - now n" "uint stamp - now n < 2 ^ 32" "now n mod 2 ^ 64 = now n"
    by simp_all
  then have "c_int (uint stamp - now n) < 0" by (simp add: c_int_wraps)
  moreover have "now n < uint stamp" using d by simp
  ultimately show ?thesis using assms(3) d(3) by (simp add: packet_too_old_def Let_def)
qed

section \<open>The old packet\<close>

text \<open>
  A client of the old protocol sends a shorter packet, with 512 bytes of output. The checksum
  covers the bytes that were sent; \<open>rest\<close> is what the decryption of the unused part of the packet
  buffer gives.
\<close>

definition old_packet_wf :: "data_packet \<Rightarrow> bool" where
  "old_packet_wf p \<longleftrightarrow> length (host_name p) = MAX_HOSTNAME_LENGTH
     \<and> length (svc_description p) = MAX_DESCRIPTION_LENGTH
     \<and> length (plugin_output p) = OLD_PLUGINOUTPUT_LENGTH"

definition old_acceptable :: "'td network \<Rightarrow> data_packet \<Rightarrow> bool" where
  "old_acceptable n p \<longleftrightarrow> old_packet_wf p \<and> packet_version p = NSCA_PACKET_VERSION_3
     \<and> \<not> packet_too_old n (timestamp p)"

lemma length_seal_old [simp]: "old_packet_wf p \<Longrightarrow> length (seal_packet p) = OLD_PACKET_LENGTH"
  by (simp add: seal_packet_def bytes_of_packet_def old_packet_wf_def nsca_consts)

text \<open>The members of an encoded packet, whatever the length of its output and what follows.\<close>

lemma bytes_of_packet_members:
  assumes "length (host_name p) = MAX_HOSTNAME_LENGTH" "length (svc_description p) = MAX_DESCRIPTION_LENGTH"
  shows "be16 (bytes_of_packet p @ rest) off_version = packet_version p"
    and "be32 (bytes_of_packet p @ rest) off_crc32 = crc32_value p"
    and "be32 (bytes_of_packet p @ rest) off_timestamp = timestamp p"
    and "be16 (bytes_of_packet p @ rest) off_return_code = return_code p"
    and "field_at off_host MAX_HOSTNAME_LENGTH (bytes_of_packet p @ rest) = host_name p"
    and "field_at off_svc MAX_DESCRIPTION_LENGTH (bytes_of_packet p @ rest) = svc_description p"
    and "drop off_output (bytes_of_packet p @ rest) = plugin_output p @ [0, 0] @ rest"
proof -
  let ?v = "to_be16 (packet_version p)" and ?c = "to_be32 (crc32_value p)"
  let ?t = "to_be32 (timestamp p)" and ?r = "to_be16 (return_code p)"
  let ?h = "host_name p" and ?s = "svc_description p"
  have l: "length ?h = 64" "length ?s = 128"
    using assms by (simp_all add: nsca_consts)
  show "be16 (bytes_of_packet p @ rest) off_version = packet_version p"
    using be16_at [of "[]" "packet_version p"] by (simp add: bytes_of_packet_def nsca_consts)
  show "be32 (bytes_of_packet p @ rest) off_crc32 = crc32_value p"
    using be32_at [of "?v @ [0, 0]" "crc32_value p"] by (simp add: bytes_of_packet_def nsca_consts)
  show "be32 (bytes_of_packet p @ rest) off_timestamp = timestamp p"
    using be32_at [of "?v @ [0, 0] @ ?c" "timestamp p"] by (simp add: bytes_of_packet_def nsca_consts)
  show "be16 (bytes_of_packet p @ rest) off_return_code = return_code p"
    using be16_at [of "?v @ [0, 0] @ ?c @ ?t" "return_code p"]
    by (simp add: bytes_of_packet_def nsca_consts)
  show "field_at off_host MAX_HOSTNAME_LENGTH (bytes_of_packet p @ rest) = ?h"
    using field_at_at [OF l(1), of "?v @ [0, 0] @ ?c @ ?t @ ?r"]
    by (simp add: bytes_of_packet_def nsca_consts)
  show "field_at off_svc MAX_DESCRIPTION_LENGTH (bytes_of_packet p @ rest) = ?s"
    using field_at_at [OF l(2), of "?v @ [0, 0] @ ?c @ ?t @ ?r @ ?h"] l
    by (simp add: bytes_of_packet_def nsca_consts)
  show "drop off_output (bytes_of_packet p @ rest) = plugin_output p @ [0, 0] @ rest"
    using l by (simp add: bytes_of_packet_def nsca_consts)
qed

lemma old_packet_parts:
  assumes "old_packet_wf p"
  shows "clear_crc32 (seal_packet p @ rest) = bytes_of_packet (p\<lparr>crc32_value := 0\<rparr>) @ rest"
    and "ucast (calculate_crc32 generate_crc32_table (Some (clear_crc32 (seal_packet p @ rest)))
           (int OLD_PACKET_LENGTH)) = crc32_spec (bytes_of_packet (p\<lparr>crc32_value := 0\<rparr>))"
proof -
  let ?z = "bytes_of_packet (p\<lparr>crc32_value := 0\<rparr>)"
  have l: "length ?z = OLD_PACKET_LENGTH"
    using assms by (simp add: bytes_of_packet_def old_packet_wf_def nsca_consts)
  have "off_crc32 + 4 \<le> length (seal_packet p)" using assms by (simp add: OLD_PACKET_LENGTH_value off_crc32_def)
  then show c: "clear_crc32 (seal_packet p @ rest) = ?z @ rest"
    using clear_crc32_parts(2) clear_crc32_seal_packet [of p] by simp
  show "ucast (calculate_crc32 generate_crc32_table (Some (clear_crc32 (seal_packet p @ rest)))
      (int OLD_PACKET_LENGTH)) = crc32_spec ?z"
    using l unfolding c by (subst calculate_crc32_foldl) (simp_all add: ucast_ucast_same)
qed

lemma check_packet_old:
  assumes "old_acceptable n p"
  shows "check_packet n OLD_PACKET_LENGTH (seal_packet p @ rest)
       = (Accepted, bytes_of_packet (p\<lparr>crc32_value := 0\<rparr>) @ rest)"
proof -
  have w: "length (host_name p) = MAX_HOSTNAME_LENGTH" "length (svc_description p) = MAX_DESCRIPTION_LENGTH"
    "old_packet_wf p" using assms by (simp_all add: old_acceptable_def old_packet_wf_def)
  let ?s = "p\<lparr>crc32_value := crc32_spec (bytes_of_packet (p\<lparr>crc32_value := 0\<rparr>))\<rparr>"
  let ?z = "p\<lparr>crc32_value := 0\<rparr>"
  show ?thesis
    using assms bytes_of_packet_members(1,2) [of ?s rest] bytes_of_packet_members(3) [of ?z rest]
      old_packet_parts [OF w(3), of rest] w(1,2)
    by (simp add: check_packet_def old_acceptable_def Let_def) (simp add: seal_packet_def)
qed

lemma c_string_padded:
  "length xs < j \<Longrightarrow> c_string ((xs @ 0 # ys)[j := z]) = c_string xs"
proof -
  assume "length xs < j"
  then obtain m where "j = length xs + Suc m" by (metis less_iff_Suc_add add_Suc_right)
  moreover have "takeWhile (\<lambda>b. b \<noteq> 0) (as @ 0 # bs) = takeWhile (\<lambda>b. b \<noteq> 0) as" for as bs :: "byte list"
    by (induction as) simp_all
  ultimately show ?thesis by (simp add: c_string_def list_update_append)
qed

lemma packet_check_old:
  assumes "old_packet_wf p" "MAX_PLUGINOUTPUT_LENGTH \<le> OLD_PLUGINOUTPUT_LENGTH + 2 + length rest"
  shows "packet_check (bytes_of_packet (p\<lparr>crc32_value := 0\<rparr>) @ rest) = check_of p"
proof -
  let ?z = "p\<lparr>crc32_value := 0\<rparr>"
  have w: "length (host_name ?z) = MAX_HOSTNAME_LENGTH" "length (svc_description ?z) = MAX_DESCRIPTION_LENGTH"
    using assms by (simp_all add: old_packet_wf_def)
  have o: "length (plugin_output p) = 512" using assms(1) by (simp add: old_packet_wf_def nsca_consts)
  have "field_at off_output MAX_PLUGINOUTPUT_LENGTH (bytes_of_packet ?z @ rest)
      = plugin_output p @ [0, 0] @ take 3582 rest"
    using o unfolding field_at_def bytes_of_packet_members(7) [OF w]
    by (simp add: MAX_PLUGINOUTPUT_LENGTH_def)
  then have "c_string ((field_at off_output MAX_PLUGINOUTPUT_LENGTH (bytes_of_packet ?z @ rest))
      [MAX_PLUGINOUTPUT_LENGTH - 1 := 0]) = c_string (plugin_output p)"
    using o by (simp add: c_string_padded MAX_PLUGINOUTPUT_LENGTH_def)
  then show ?thesis
    using o bytes_of_packet_members(4,5,6) [OF w, of rest]
    by (simp add: packet_check_def check_of_def member_string_def list_update_beyond MAX_PLUGINOUTPUT_LENGTH_def)
qed

section \<open>Damage on the wire\<close>

text \<open>A transformation of single bytes by position keeps a burst a burst.\<close>

lemma burst_positionwise:
  assumes len: "\<And>xs. length (f xs) = length (xs :: byte list)"
    and nth: "\<And>xs i. i < length xs \<Longrightarrow> f xs ! i = g i (xs ! i)"
    and inj: "\<And>i a b. g i a = g i b \<Longrightarrow> a = b"
    and "burst bs bs'"
  shows "burst (f bs) (f bs')"
proof -
  obtain pre w w' post where s: "bs = pre @ w @ post" "bs' = pre @ w' @ post" "w \<noteq> w'"
      "length w = length w'" "length w \<le> 4"
    and place: "length pre + length w \<le> off_crc32 \<or> off_crc32 + 4 \<le> length pre
      \<or> off_crc32 \<le> length pre \<and> length pre + length w \<le> off_crc32 + 4"
    using assms(4) by (auto simp: burst_def)
  let ?a = "length pre" and ?b = "length w"
  have l: "length bs = length bs'" "?a + ?b \<le> length bs" using s by simp_all
  have split: "f xs = take ?a (f xs) @ take ?b (drop ?a (f xs)) @ drop (?a + ?b) (f xs)" for xs
    by (metis append_take_drop_id drop_drop add.commute)
  have pre: "take ?a (f bs') = take ?a (f bs)"
    using l s by (intro nth_equalityI) (auto simp: len nth nth_append)
  have post: "drop (?a + ?b) (f bs') = drop (?a + ?b) (f bs)"
    using l s by (intro nth_equalityI) (auto simp: len nth nth_append)
  have "take ?b (drop ?a (f bs)) \<noteq> take ?b (drop ?a (f bs'))"
  proof
    assume eq: "take ?b (drop ?a (f bs)) = take ?b (drop ?a (f bs'))"
    have "w ! j = w' ! j" if "j < ?b" for j
    proof -
      have "f bs ! (?a + j) = f bs' ! (?a + j)"
        using arg_cong [OF eq, of "\<lambda>xs. xs ! j"] that l by (simp add: len)
      then have "bs ! (?a + j) = bs' ! (?a + j)" using that l by (simp add: nth) (metis inj)
      then show ?thesis using that s(1,2,4) by (simp add: nth_append)
    qed
    with s(3,4) show False by (metis nth_equalityI)
  qed
  moreover have "length (take ?b (drop ?a (f bs))) = ?b" "length (take ?b (drop ?a (f bs'))) = ?b"
      "length (take ?a (f bs)) = ?a"
    using l by (simp_all add: len)
  ultimately show ?thesis
    unfolding burst_def using split [of bs] split [of bs'] pre post place s(5) by metis
qed

lemma xor_right_cancel: "a XOR k = b XOR k \<Longrightarrow> a = (b :: byte)"
proof -
  assume "a XOR k = b XOR k"
  then have "(a XOR k) XOR k = (b XOR k) XOR k" by (rule arg_cong)
  then show "a = b" unfolding xor.assoc xor_self_eq xor.right_neutral .
qed

lemma plain_decode_burst:
  assumes "m = ENCRYPT_NONE \<or> m = ENCRYPT_XOR" "length bs = sizeof_data_packet" "burst bs bs'"
  shows "burst (plain_decode pw m ci bs) (plain_decode pw m ci bs')"
proof -
  have l: "length bs' = sizeof_data_packet" using assms(2,3) by (auto simp: burst_def)
  show ?thesis
  proof (cases "ci = None \<or> m \<noteq> ENCRYPT_XOR")
    case True
    then have "plain_decode pw m ci xs = xs" for xs by (auto simp: plain_decode_def split: option.split)
    with assms(3) show ?thesis by simp
  next
    case False
    then obtain i where i: "ci = Some i" "m = ENCRYPT_XOR" by auto
    have "burst (xor_buffer (transmitted_iv i) pw bs) (xor_buffer (transmitted_iv i) pw bs')"
      by (rule burst_positionwise [of _ "\<lambda>k b. b XOR transmitted_iv i ! (k mod TRANSMITTED_IV_SIZE)
          XOR password_byte pw k", OF _ _ _ assms(3)])
        (auto simp: xor_buffer_nth dest: xor_right_cancel)
    with i assms(2) l show ?thesis by (simp add: plain_decode_def)
  qed
qed

lemma loop_spec_damaged:
  assumes "\<forall>p \<in> set ps. acceptable n p" "packet_wf q" "burst (seal_packet q) bs'"
    and "deliver_spec env tid i (map check_of ps) (n, (g, b), w) = (n1, (g1, b1), w1)"
  shows "loop_spec env tid i (map (\<lambda>p. (sizeof_data_packet, seal_packet p)) ps
      @ (sizeof_data_packet, bs') # ds) (n, (g, b), w) = (n1, (g1, b1 + 1), w1)"
proof -
  have "map packet_check (map (\<lambda>p. bytes_of_packet (p\<lparr>crc32_value := 0\<rparr>)) ps) = map check_of ps"
    using assms(1) by (auto simp: acceptable_def packet_check_sealed)
  with assms(4) show ?thesis
    by (simp add: loop_spec_def accepted_prefix_damaged [OF assms(1-3)] Let_def comp_def cong: map_cong)
qed

section \<open>An old client from end to end\<close>

lemma xor_buffer_take: "take k (xor_buffer iv pw bs) = xor_buffer iv pw (take k bs)"
  by (rule nth_equalityI) (auto simp: xor_buffer_nth)

text \<open>What the exclusive or (or nothing) makes of a short packet and the zeros after it.\<close>

lemma plain_decode_short:
  assumes "m = ENCRYPT_NONE \<or> m = ENCRYPT_XOR \<and> map_option transmitted_iv S = map_option transmitted_iv R"
    and "encrypt_buffer lib b (length b) pw m S = Some (wire, S')"
    and "length b \<le> sizeof_data_packet"
  shows "\<exists>rest. plain_decode pw m R (wire @ replicate (sizeof_data_packet - length b) 0) = b @ rest
    \<and> length rest = sizeof_data_packet - length b"
proof -
  let ?z = "replicate (sizeof_data_packet - length b) (0 :: byte)"
  show ?thesis
  proof (cases "m = ENCRYPT_XOR \<and> S \<noteq> None")
    case False
    with assms(1,2) have "wire = b" "R = None \<or> m \<noteq> ENCRYPT_XOR"
      by (auto simp: encrypt_buffer_def ENCRYPT_NONE_def ENCRYPT_XOR_def split: option.splits)
    then show ?thesis by (auto simp: plain_decode_def split: option.splits)
  next
    case True
    then obtain s where s: "S = Some s" "m = ENCRYPT_XOR" by auto
    with assms(1) obtain r where r: "R = Some r" "transmitted_iv r = transmitted_iv s"
      by (cases R) (auto simp: ENCRYPT_NONE_def ENCRYPT_XOR_def)
    have w: "wire = xor_buffer (transmitted_iv s) pw b" using assms(2) s by (simp add: encrypt_buffer_xor)
    let ?x = "xor_buffer (transmitted_iv s) pw (wire @ ?z)"
    have "take (length b) ?x = b" by (simp add: xor_buffer_take w)
    then have "?x = b @ drop (length b) ?x" by (metis append_take_drop_id)
    moreover have "plain_decode pw m R (wire @ ?z) = ?x"
      using s r w assms(3) by (simp add: plain_decode_def)
    ultimately show ?thesis using w by (intro exI [of _ "drop (length b) ?x"]) simp
  qed
qed

lemma old_client_queue:
  assumes "data_packets c = []" "in_buffer c = []" "bytes_received c = 0" "bytes_drained c = 0"
    and "length wire = OLD_PACKET_LENGTH" "received alloc wire n c = (n', Open c')"
  shows "\<exists>c''. eventcb_queue True c' = Some c'' \<and> data_packets c'' =
     [\<lparr>receive_packet = wire @ replicate (sizeof_data_packet - OLD_PACKET_LENGTH) 0,
       packet_length = OLD_PACKET_LENGTH\<rparr>]"
proof -
  have "c' = count_read (c\<lparr>in_buffer := wire\<rparr>)"
    using assms by (simp add: received_def readcb_outcome count_read_def OLD_PACKET_LENGTH_value
        sizeof_data_packet_value)
  with assms show ?thesis
    by (simp add: eventcb_queue_def count_read_def OLD_PACKET_LENGTH_value sizeof_data_packet_value)
qed

text \<open>In two pieces they are counted twice: the end of the connection finds no packet.\<close>

lemma old_client_in_pieces:
  assumes "data_packets c = []" "in_buffer c = []" "bytes_received c = 0"
    and "length wire = OLD_PACKET_LENGTH" "wire = u @ v" "u \<noteq> []"
    and "received alloc u n c = (nu, Open cu)" "received alloc v nu cu = (nv, Open cv)"
  shows "\<exists>n3 r3. eventcb lib mem True r nv cv = Some (n3, r3, Deleted)"
proof -
  have l: "length u + length v = OLD_PACKET_LENGTH" "length u \<noteq> 0" using assms(4-6) by auto
  have "cu = count_read (c\<lparr>in_buffer := u\<rparr>)"
    using assms(2,7) l by (simp add: received_def readcb_outcome OLD_PACKET_LENGTH_value
        sizeof_data_packet_value)
  then have "cv = count_read (count_read (c\<lparr>in_buffer := u\<rparr>)\<lparr>in_buffer := u @ v\<rparr>)"
    using assms(8) l by (simp add: received_def readcb_outcome OLD_PACKET_LENGTH_value
        sizeof_data_packet_value count_read_def)
  then have "bytes_received cv \<noteq> OLD_PACKET_LENGTH" "data_packets cv = []"
    using assms(1,3) l by (simp_all add: count_read_def)
  then show ?thesis by (simp add: eventcb_def eventcb_queue_def connection_closed_def Let_def case_prod_beta)
qed

lemma loop_spec_old:
  assumes "old_acceptable n p" "length rest = sizeof_data_packet - OLD_PACKET_LENGTH"
  shows "loop_spec env tid i [(OLD_PACKET_LENGTH, seal_packet p @ rest)] (n, gb, w)
       = deliver_spec env tid i [check_of p] (n, gb, w)"
proof -
  have "packet_check (bytes_of_packet (p\<lparr>crc32_value := 0\<rparr>) @ rest) = check_of p"
    using assms by (intro packet_check_old)
      (simp_all add: old_acceptable_def nsca_consts)
  then show ?thesis
    by (cases gb) (simp add: loop_spec_def check_packet_old [OF assms(1)] Let_def case_prod_beta)
qed

end
