(* ===== verification/Nsca_Worker.thy ===== *)
theory Nsca_Worker
  imports Nsca_Protocol
begin

text \<open>
  One worker's event loop as a step relation: libevent calls the handlers of the \<open>network\<close> and of
  its connections one at a time, in any order. \<open>conns\<close> are the clients that have an open socket,
  \<open>handed\<close> those whose connection has ended and whose queue is still to be processed, by a thread
  or by the event loop itself. \<open>process\<close> leaves open which instance the queue is decrypted with; when
  it is that of the \<open>network\<close>, its new state is kept there. (\<open>Nsca_System\<close> has the threads, and
  refines this relation.)
\<close>

record 'td worker =
  net :: "'td network"
  conns :: "'td network_client list"
  handed :: "'td network_client list"
  generator :: rnd
  w_world :: world

definition remove_nth :: "nat \<Rightarrow> 'a list \<Rightarrow> 'a list" where
  "remove_nth i xs = take i xs @ drop (Suc i) xs"

lemma length_remove_nth [simp]: "i < length xs \<Longrightarrow> length (remove_nth i xs) = length xs - 1"
  by (simp add: remove_nth_def)

definition to_process :: "'td closing \<Rightarrow> 'td network_client list" where
  "to_process cl = (case cl of Deleted \<Rightarrow> [] | To_thread c \<Rightarrow> [c] | Process c \<Rightarrow> [c])"

inductive worker_step :: "'td mcrypt \<Rightarrow> 'td worker \<Rightarrow> 'td worker \<Rightarrow> bool" for lib where
  accept: "listener_enabled (net s) \<Longrightarrow>
    listener_proxy bev_ok (generator s) (net s) = (n, r, Open c) \<Longrightarrow>
    worker_step lib s (s\<lparr>net := n, generator := r, conns := conns s @ [c]\<rparr>)"
| accept_fails: "listener_enabled (net s) \<Longrightarrow>
    listener_proxy bev_ok (generator s) (net s) = (n, r, Gone) \<Longrightarrow>
    worker_step lib s (s\<lparr>net := n, generator := r\<rparr>)"
| recv: "i < length (conns s) \<Longrightarrow> received alloc bs (net s) (conns s ! i) = (n, Open c) \<Longrightarrow>
    worker_step lib s (s\<lparr>net := n, conns := (conns s)[i := c]\<rparr>)"
| recv_refused: "i < length (conns s) \<Longrightarrow> received alloc bs (net s) (conns s ! i) = (n, Gone) \<Longrightarrow>
    worker_step lib s (s\<lparr>net := n, conns := remove_nth i (conns s)\<rparr>)"
| send: "i < length (conns s) \<Longrightarrow>
    worker_step lib s (s\<lparr>conns := (conns s)[i := writecb (net s) (conns s ! i)]\<rparr>)"
| close: "i < length (conns s) \<Longrightarrow>
    eventcb lib mem alloc (generator s) (net s) (conns s ! i) = Some (n, r, cl) \<Longrightarrow>
    worker_step lib s (s\<lparr>net := n, generator := r, conns := remove_nth i (conns s),
      handed := handed s @ to_process cl\<rparr>)"
| process: "i < length (handed s) \<Longrightarrow>
    process_queue lib alloc env tid CIp (net s, set_CI ref (handed s ! i), w_world s)
      = Some (CIp', n, c, w) \<Longrightarrow>
    ci = CI n \<or> ci = CIp' \<Longrightarrow>
    worker_step lib s (s\<lparr>net := n\<lparr>CI := ci\<rparr>, w_world := w, handed := remove_nth i (handed s)\<rparr>)"
| timer: "timer_armed (net s) \<Longrightarrow>
    timer_proxy e fopen_ok time_now ctime (net s) (w_world s) = (n, w) \<Longrightarrow>
    worker_step lib s (s\<lparr>net := n, w_world := w\<rparr>)"
| sigint: "worker_step lib s (s\<lparr>net := network_sigint (net s)\<rparr>)"

inductive worker_reach :: "'td mcrypt \<Rightarrow> 'td worker \<Rightarrow> bool" for lib where
  start: "new_network lib mem cfg t ct ifd iv r0 sw = Inr n0 \<Longrightarrow>
    network_run_start e n0 = (n, calls) \<Longrightarrow>
    worker_reach lib \<lparr>net = n, conns = [], handed = [], generator = r, w_world = w\<rparr>"
| step: "worker_reach lib s \<Longrightarrow> worker_step lib s s' \<Longrightarrow> worker_reach lib s'"

inductive_cases worker_stepE: "worker_step lib s s'"

section \<open>The counter of connections\<close>

lemma if_Inr_cases: "(if a then if b then Inr x else Inl y else Inr z) = Inr n \<Longrightarrow> n = x \<or> n = z"
  by (auto split: if_splits)

lemma new_network_start:
  assumes "new_network lib mem cfg t ct ifd iv r0 sw = Inr n0"
  shows "connections n0 = 0 \<and> \<not> loopexit n0"
  using assms unfolding new_network_def Let_def case_prod_beta
  by (elim if_Inr_cases [elim_format] disjE) simp_all

lemma network_run_start_simps:
  "connections (fst (network_run_start e n)) = connections n"
  "loopexit (fst (network_run_start e n)) = loopexit n"
  "timer_armed (fst (network_run_start e n))" "ev_base (fst (network_run_start e n))"
  by (simp_all add: network_run_start_def start_timer_def Let_def case_prod_beta split: option.split)

lemma network_start_connections:
  assumes "new_network lib mem cfg t ct ifd iv r0 sw = Inr n0" "network_run_start e n0 = (n, calls)"
  shows "connections n = 0" "\<not> loopexit n" "timer_armed n" "ev_base n"
  using new_network_start [OF assms(1)] network_run_start_simps [of e n0] assms(2) by simp_all

lemma listener_proxy_connections:
  "listener_proxy b r n = (n', r', Open c) \<Longrightarrow> connections n' = connections n + 1"
  "listener_proxy b r n = (n', r', Gone) \<Longrightarrow> connections n' = connections n"
  by (auto simp: listener_proxy_def take_variables_def nc_init_events_def proper_destroy_def Let_def
      case_prod_beta split: if_splits)

lemma received_connections:
  "received alloc bs n c = (n', Open c') \<Longrightarrow> connections n' = connections n"
  "received alloc bs n c = (n', Gone) \<Longrightarrow> connections n' = connections n - 1"
  by (auto simp: received_def readcb_outcome proper_destroy_def split: if_splits)

lemma eventcb_connections:
  "eventcb lib mem alloc r n c = Some (n', r', cl) \<Longrightarrow> connections n' = connections n - 1"
  by (auto simp: eventcb_def connection_closed_def Let_def case_prod_beta split: if_splits)

lemma timer_connections:
  "timer_proxy e f t ct n w = (n', w') \<Longrightarrow> connections n' = connections n"
  by (auto simp: timer_proxy_def network_stop_def Let_def case_prod_beta split: if_splits)

text \<open>Processing changes the FIFO clients and the two message counters only.\<close>

definition net_core :: "'td network \<Rightarrow> 'td network" where
  "net_core n = n\<lparr>fifoClients := None, message_success := 0, message_failed := 0\<rparr>"

lemma send_receive_message_core:
  "send_receive_message e tid pkt (n, c, w) = Some (n', c', w') \<Longrightarrow> net_core n' = net_core n"
  by (auto simp: send_receive_message_def net_core_def Let_def case_prod_beta
      split: option.splits if_splits)

text \<open>
  What every delivery keeps of the \<open>network\<close>, the loops keep, and what the calls of the cipher keep of
  the crypt instance.
\<close>

definition same_instance :: "'td crypt_instance option \<Rightarrow> 'td crypt_instance option \<Rightarrow> bool" where
  "same_instance CIp CIp' \<longleftrightarrow>
     (case (CIp, CIp') of
        (None, None) \<Rightarrow> True
      | (Some a, Some b) \<Rightarrow> IV b = IV a \<and> (td b = None \<longleftrightarrow> td a = None)
      | _ \<Rightarrow> False)"

lemma same_instance_refl [simp]: "same_instance x x"
  by (simp add: same_instance_def split: option.split)

lemma same_instance_trans: "same_instance x y \<Longrightarrow> same_instance y z \<Longrightarrow> same_instance x z"
  by (auto simp: same_instance_def split: option.splits)

lemma same_instance_Some:
  "same_instance (Some a) x \<longleftrightarrow> (\<exists>b. x = Some b \<and> IV b = IV a \<and> (td b = None \<longleftrightarrow> td a = None))"
  by (auto simp: same_instance_def split: option.splits)

text \<open>\<open>kept lib Q\<close>: \<open>Q\<close> stays true of an instance when its cipher decrypts a byte or is given a state.\<close>

definition kept :: "'td mcrypt \<Rightarrow> ('td crypt_instance option \<Rightarrow> bool) \<Rightarrow> bool" where
  "kept lib Q \<longleftrightarrow>
     (\<forall>ci t t'. Q (Some ci) \<longrightarrow> td ci = Some t \<longrightarrow>
        (\<exists>b. t' = snd (mdecrypt_generic lib t b)) \<or> (\<exists>st. t' = mcrypt_enc_set_state lib t st) \<longrightarrow>
        Q (Some (ci\<lparr>td := Some t'\<rparr>)))"

lemma kept_same_instance: "kept lib (same_instance x)"
  by (cases x) (auto simp: kept_def same_instance_def)

lemma kept_crypt_bytes:
  assumes "kept lib Q"
  shows "Q (Some ci) \<Longrightarrow> td ci = Some t \<Longrightarrow> Q (Some (ci\<lparr>td := Some (snd (crypt_bytes (mdecrypt_generic lib) t bs))\<rparr>))"
proof (induction bs arbitrary: ci t)
  case Nil
  then show ?case by (cases ci) simp
next
  case (Cons b bs)
  let ?t = "snd (mdecrypt_generic lib t b)"
  have "Q (Some (ci\<lparr>td := Some ?t\<rparr>))" using assms Cons.prems unfolding kept_def by blast
  from Cons.IH [OF this] show ?case by (simp add: case_prod_beta Let_def)
qed

lemma kept_set_state:
  "kept lib Q \<Longrightarrow> Q (Some ci) \<Longrightarrow> td ci = Some t \<Longrightarrow> Q (Some (ci\<lparr>td := Some (mcrypt_enc_set_state lib t st)\<rparr>))"
  unfolding kept_def by blast

lemma decrypt_buffer_kept:
  assumes "kept lib Q" "Q ci" "decrypt_buffer lib bs k pw m ci = Some (bs', ci')"
  shows "Q ci'"
  using assms(2,3) kept_crypt_bytes [OF assms(1)]
  by (auto simp: decrypt_buffer_def encrypt_buffer_def case_prod_beta Let_def split: option.splits if_splits)

definition delivery_keeps :: "nat \<Rightarrow> ('td network \<Rightarrow> bool) \<Rightarrow> bool" where
  "delivery_keeps tid P \<longleftrightarrow>
     (\<forall>e pkt n c w n' c' w'. P n \<longrightarrow> send_receive_message e tid pkt (n, c, w) = Some (n', c', w') \<longrightarrow> P n')"

lemma delivery_keepsD:
  "delivery_keeps tid P \<Longrightarrow> P n \<Longrightarrow> send_receive_message e tid pkt (n, c, w) = Some (n', c', w') \<Longrightarrow> P n'"
  unfolding delivery_keeps_def by blast

lemma nomcrypt_loop_keeps:
  assumes keeps: "delivery_keeps tid P"
    and kept: "kept lib Q"
    and "P n" "Q ci" "nomcrypt_loop lib env tid i ps ci (n, c, w) = Some (rest, ci', (n', c', w'))"
  shows "P n' \<and> Q ci'"
  using assms(3-5)
proof (induction ps arbitrary: i ci n c w)
  case Nil
  then show ?case by simp
next
  case (Cons p ps)
  then obtain bs ci1 where d: "decrypt_buffer lib (receive_packet p) sizeof_data_packet (password n)
      (decryption_method n) ci = Some (bs, ci1)"
    by (auto split: option.splits)
  have inst: "Q ci1" by (rule decrypt_buffer_kept [OF kept Cons.prems(2) d])
  show ?case
  proof (cases n "packet_length p" bs rule: check_packet_cases)
    case (ok bs1)
    with Cons.prems d obtain n1 c1 w1 where
        1: "send_receive_message (env i) tid bs1 (n, c, w) = Some (n1, c1, w1)"
        "nomcrypt_loop lib env tid (i + 1) ps ci1 (n1, c1, w1) = Some (rest, ci', (n', c', w'))"
      by (auto split: option.splits)
    then show ?thesis using Cons.IH [OF delivery_keepsD [OF keeps Cons.prems(1) 1(1)] inst 1(2)] by blast
  next
    case (bad v bs1)
    with Cons.prems d inst show ?thesis by (cases v) auto
  qed
qed

lemma mcrypt_loop_keeps:
  assumes keeps: "delivery_keeps tid P"
    and kept: "kept lib Q"
    and "P n" "Q (Some ci)" "mcrypt_loop lib env tid i ps ci (n, c, w) = Some (rest, ci', (n', c', w'))"
  shows "P n' \<and> Q (Some ci')"
  using assms(3-5)
proof (induction ps arbitrary: i ci n c w)
  case Nil
  then show ?case by simp
next
  case (Cons p ps)
  obtain t iv where t: "td ci = Some t" "IV ci = Some iv"
    using Cons.prems(3) by (auto split: option.splits)
  define t1 where "t1 = loop_cipher lib i t iv ci c"
  have head: "mcrypt_loop lib env tid i (p # ps) ci (n, c, w) =
      (case decrypt_buffer lib (receive_packet p) sizeof_data_packet (password n)
              (decryption_method n) (Some (ci\<lparr>td := Some t1\<rparr>)) of
         Some (bs, Some ci1) \<Rightarrow>
           (let c1 = (case td ci1 of Some t2 \<Rightarrow> save_mcrypt_state lib t2 c | None \<Rightarrow> c)
            in (case check_packet n (packet_length p) bs of
                  (Accepted, bs1) \<Rightarrow>
                    (case send_receive_message (env i) tid bs1 (n, c1, w) of
                       None \<Rightarrow> None
                     | Some s \<Rightarrow> mcrypt_loop lib env tid (i + 1) ps ci1 s)
                | (_, bs1) \<Rightarrow> Some (p\<lparr>receive_packet := bs1\<rparr> # ps, ci1, (n, count_failed c1, w))))
       | _ \<Rightarrow> None)"
    using t by (simp add: t1_def loop_cipher_def Let_def)
  with Cons.prems obtain bs ci1 where d: "decrypt_buffer lib (receive_packet p) sizeof_data_packet
      (password n) (decryption_method n) (Some (ci\<lparr>td := Some t1\<rparr>)) = Some (bs, Some ci1)"
    by (auto split: option.splits)
  have "Q (Some (ci\<lparr>td := Some t1\<rparr>))"
    unfolding t1_def loop_cipher_def using kept_set_state [OF kept Cons.prems(2) t(1)] by simp
  then have inst: "Q (Some ci1)" by (rule decrypt_buffer_kept [OF kept _ d])
  show ?case
  proof (cases n "packet_length p" bs rule: check_packet_cases)
    case (ok bs1)
    with Cons.prems d head obtain n1 c1 w1 c2 where
        1: "send_receive_message (env i) tid bs1 (n, c2, w) = Some (n1, c1, w1)"
        "mcrypt_loop lib env tid (i + 1) ps ci1 (n1, c1, w1) = Some (rest, ci', (n', c', w'))"
      by (auto simp: Let_def split: option.splits)
    then show ?thesis using Cons.IH [OF delivery_keepsD [OF keeps Cons.prems(1) 1(1)] inst 1(2)] by blast
  next
    case (bad v bs1)
    with Cons.prems d head inst show ?thesis by (cases v) (auto simp: Let_def)
  qed
qed

lemma report_core [simp]: "net_core (report_success_failed g b n) = net_core n"
  by (simp add: report_success_failed_def net_core_def Let_def)

lemma process_queue_keeps:
  assumes keeps: "delivery_keeps tid P"
    and report: "\<And>n g b. P n \<Longrightarrow> P (report_success_failed g b n)"
    and kept: "kept lib Q"
    and "P n" "Q CIp" "process_queue lib alloc env tid CIp (n, c, w) = Some (CIp', n', c', w')"
  shows "P n' \<and> Q CIp'"
proof -
  note loops = nomcrypt_loop_keeps [OF keeps kept assms(4)] mcrypt_loop_keeps [OF keeps kept assms(4)]
  have plain: "P n1 \<and> Q q"
    if "process_queue_nomcrypt lib env tid CIp (n, c, w) = Some (q, n1, c1, w1)" for q n1 c1 w1
  proof -
    from that obtain ps c2 where
        "nomcrypt_loop lib env tid 1 (data_packets c) CIp (n, c, w) = Some (ps, q, (n1, c2, w1))"
      by (auto simp: process_queue_nomcrypt_def split: option.splits)
    from loops(1) [OF assms(5) this] show ?thesis .
  qed
  have mcrypt: "P n1 \<and> Q q"
    if m: "process_queue_mcrypt lib alloc env tid CIp (n, c, w) = Some (q, n1, c1, w1)" for q n1 c1 w1
  proof (cases alloc)
    case True
    with m obtain ci ci1 ps c0 c2 where ci: "CIp = Some ci" "q = Some ci1"
        and l: "mcrypt_loop lib env tid 1 (data_packets c) ci (n, c0, w) = Some (ps, ci1, (n1, c2, w1))"
      by (auto simp: process_queue_mcrypt_def Let_def split: option.splits)
    from loops(2) [OF _ l] assms(5) ci show ?thesis by simp
  next
    case False
    with m assms(4,5) show ?thesis by (simp add: process_queue_mcrypt_def)
  qed
  from assms(6) obtain n1 c1 where
      q: "(if 1 < decryption_method n then process_queue_mcrypt lib alloc env tid CIp (n, c, w)
           else process_queue_nomcrypt lib env tid CIp (n, c, w)) = Some (CIp', n1, c1, w')"
    and n': "n' = report_success_failed (word_of_int (d_success c1)) (word_of_int (d_failed c1)) n1"
    by (auto simp: process_queue_def split: option.splits)
  have "P n1 \<and> Q CIp'"
    using q plain mcrypt by (cases "1 < decryption_method n") simp_all
  with report n' show ?thesis by blast
qed

lemma process_queue_core:
  assumes "process_queue lib alloc env tid CIp (n, c, w) = Some (CIp', n', c', w')"
  shows "net_core n' = net_core n"
proof -
  have "net_core n' = net_core n \<and> True"
    by (rule process_queue_keeps [where Q = "\<lambda>_. True", OF _ _ _ _ _ assms])
      (auto simp: kept_def delivery_keeps_def dest: send_receive_message_core)
  then show ?thesis by simp
qed

lemma net_core_connections:
  assumes "net_core n = net_core n'"
  shows "connections n = connections n'" "loopexit n = loopexit n'" "ev_base n = ev_base n'"
    "shutdown_requested n = shutdown_requested n'" "listener_enabled n = listener_enabled n'"
  using arg_cong [OF assms, of connections] arg_cong [OF assms, of loopexit] arg_cong [OF assms, of ev_base]
    arg_cong [OF assms, of shutdown_requested] arg_cong [OF assms, of listener_enabled]
  by (simp_all add: net_core_def)

definition worker_inv :: "'td worker \<Rightarrow> bool" where
  "worker_inv s \<longleftrightarrow> connections (net s) = word_of_nat (length (conns s))"

lemma worker_inv_step:
  assumes "worker_inv s" "worker_step lib s s'"
  shows "worker_inv s'"
  using assms(2)
proof (cases rule: worker_stepE
    [consumes 1, case_names accept accept_fails recv recv_refused send close process timer sigint])
  case (recv_refused i alloc bs n)
  then obtain k where "length (conns s) = Suc k" by (metis gr0_implies_Suc less_nat_zero_code not_gr_zero)
  with recv_refused assms(1) received_connections(2) [OF recv_refused(3)] show ?thesis
    by (simp add: worker_inv_def)
next
  case (close i mem alloc n r cl)
  then obtain k where "length (conns s) = Suc k" by (metis gr0_implies_Suc less_nat_zero_code not_gr_zero)
  with close assms(1) eventcb_connections [OF close(3)] show ?thesis by (simp add: worker_inv_def)
next
  case (process i alloc env tid CIp ref CIp' n c w ci)
  with assms(1) net_core_connections(1) [OF process_queue_core [OF process(3)]] show ?thesis
    by (simp add: worker_inv_def)
qed (use assms(1) in \<open>auto simp: worker_inv_def network_sigint_def add.commute
    dest: listener_proxy_connections received_connections timer_connections\<close>)

lemma worker_reach_inv: "worker_reach lib s \<Longrightarrow> worker_inv s"
proof (induction rule: worker_reach.induct)
  case (start mem cfg t ct ifd iv r0 sw n0 e n calls r w)
  then show ?case using network_start_connections [OF start] by (simp add: worker_inv_def)
next
  case (step s s')
  then show ?case by (blast intro: worker_inv_step)
qed

section \<open>Leaving the loop\<close>

lemma loopexit_only_timer:
  "listener_proxy b r n = (n', r', co) \<Longrightarrow> loopexit n' = loopexit n"
  "received alloc bs n c = (n', co') \<Longrightarrow> loopexit n' = loopexit n"
  "eventcb lib mem alloc r n c = Some (n', r', cl) \<Longrightarrow> loopexit n' = loopexit n"
  by (auto simp: listener_proxy_def take_variables_def nc_init_events_def proper_destroy_def Let_def
      case_prod_beta received_def readcb_outcome eventcb_def connection_closed_def split: if_splits)

text \<open>The loop is told to end only by the timer, when the counter of connections is zero.\<close>

lemma worker_step_loopexit:
  assumes "worker_step lib s s'" "\<not> loopexit (net s)" "loopexit (net s')"
  shows "connections (net s) = 0 \<and> shutdown_requested (net s) \<and> conns s' = conns s
    \<and> \<not> listener_enabled (net s')"
  using assms(1)
proof (cases rule: worker_stepE
    [consumes 1, case_names accept accept_fails recv recv_refused send close process timer sigint])
  case (process i alloc env tid CIp ref CIp' n c w ci)
  with assms(2,3) net_core_connections(2) [OF process_queue_core [OF process(3)]] show ?thesis by simp
next
  case (timer e f t ct n w)
  show ?thesis
  proof (cases "shutdown_requested (net s)")
    case True
    with timer assms(2,3) show ?thesis
      by (auto simp: timer_proxy_def case_prod_beta Let_def network_stop_def split: if_splits)
  next
    case False
    with timer assms(2,3) show ?thesis
      by (auto simp: timer_proxy_def case_prod_beta)
  qed
qed (use assms(2,3) in \<open>auto simp: network_sigint_def dest: loopexit_only_timer\<close>)

section \<open>Properties\<close>

text \<open>C14: In every state a worker can reach, its counter of connections is the number of clients with an
  open socket (as a 32-bit number): no way of ending a connection misses or doubles the decrement.\<close>

theorem connections_counted:
  assumes "worker_reach lib s"
  shows "connections (net s) = word_of_nat (length (conns s))"
  using worker_reach_inv [OF assms] by (simp add: worker_inv_def)

lemma worker_start_default:
  obtains s :: "byte worker" where "worker_reach feedback_cipher s" "conns s = []"
    "listener_enabled (net s)" "timer_armed (net s)" "ev_base (net s)" "\<not> loopexit (net s)"
    "connections (net s) = 0"
proof -
  obtain n0 :: "byte network" where n0:
      "new_network feedback_cipher (\<lambda>_. True) new_config 0 [] 7 [] rnd_initial example_stat_writer = Inr n0"
      "resultPathClient n0 = None" "connections n0 = 0" "\<not> loopexit n0"
    by (rule new_network_default)
  obtain n calls where n: "network_run_start example_watch_env n0 = (n, calls)" by fastforce
  with n0 have "listener_enabled n"
    by (auto simp: network_run_start_def start_timer_def Let_def)
  with network_start_connections [OF n0(1) n] worker_reach.start [OF n0(1) n, of rnd_initial spool_world]
  show thesis
    by (intro that [of "\<lparr>net = n, conns = [], handed = [], generator = rnd_initial, w_world = spool_world\<rparr>"])
      simp_all
qed

lemma connections_counted_witness:
  "\<exists>s :: byte worker. worker_reach feedback_cipher s \<and> length (conns s) = 1 \<and> connections (net s) = 1"
proof -
  obtain s :: "byte worker" where s: "worker_reach feedback_cipher s" "conns s = []" "listener_enabled (net s)"
    by (rule worker_start_default)
  obtain n r c where l: "listener_proxy True (generator s) (net s) = (n, r, Open c)"
    by (simp add: listener_proxy_def take_variables_def nc_init_events_def Let_def case_prod_beta)
  let ?s = "s\<lparr>net := n, generator := r, conns := conns s @ [c]\<rparr>"
  have "worker_reach feedback_cipher ?s"
    using worker_reach.step [OF s(1) worker_step.accept [OF s(3) l]] .
  from connections_counted [OF this] this s(2) show ?thesis by (intro exI [of _ ?s]) simp
qed



end
