(* ===== verification/Nsca_Log.thy ===== *)
theory Nsca_Log
  imports Nsca_World
begin

text \<open>
  \<open>log.cpp\<close>: which lines the four log calls print, and to which stream. The formatted message
  (\<open>vsnprintf\<close> without its bound) and the formatted time are arguments, and a call returns the
  lines it prints.
\<close>

record log_state =
  debug_enabled :: int
  log_output_enabled_stdout :: int
  log_output_enabled_stderr :: int
  debug_pid :: int

datatype out_stream = Stdout | Stderr

definition log_initial :: "int \<Rightarrow> log_state" where
  "log_initial process_id =
     \<lparr>debug_enabled = -1, log_output_enabled_stdout = -1, log_output_enabled_stderr = -1,
      debug_pid = process_id\<rparr>"

definition is_debug :: "log_state \<Rightarrow> bool" where
  "is_debug s = (debug_enabled s = 1)"

text \<open>\<open>err_open\<close> and \<open>out_open\<close>: whether \<open>fcntl (F_GETFD)\<close> succeeds on the stream's descriptor.\<close>

definition log_output_check :: "bool \<Rightarrow> bool \<Rightarrow> log_state \<Rightarrow> log_state" where
  "log_output_check err_open out_open s =
     s\<lparr>log_output_enabled_stderr := (if err_open then 1 else 0),
       log_output_enabled_stdout := (if out_open then 1 else 0)\<rparr>"

definition debug_enable :: "log_state \<Rightarrow> log_state" where
  "debug_enable s = s\<lparr>debug_enabled := 1\<rparr>"

definition debug_setpid :: "int \<Rightarrow> log_state \<Rightarrow> log_state" where
  "debug_setpid process_id s = s\<lparr>debug_pid := process_id\<rparr>"

text \<open>\<open>%-5s\<close>: padded on the right to five characters.\<close>

definition pad5 :: "string \<Rightarrow> string" where
  "pad5 s = s @ replicate (5 - length s) CHR '' ''"

definition global_sprintf :: "log_state \<Rightarrow> string \<Rightarrow> string \<Rightarrow> string \<Rightarrow> (out_stream \<times> string) list" where
  "global_sprintf s type timebuffer msg =
     (if log_output_enabled_stderr s \<noteq> 1 \<and> log_output_enabled_stdout s \<noteq> 1 then []
      else
        let buffer = snprintf 512 msg;
            line = timebuffer @ '' '' @ pad5 type @ '' ['' @ pad5 (show_int (debug_pid s)) @ ''] > '' @ buffer @ nl
        in if hd type = CHR ''D'' \<or> hd type = CHR ''I''
           then (if log_output_enabled_stdout s \<noteq> 0 then [(Stdout, line)] else [])
           else (if log_output_enabled_stderr s \<noteq> 0 then [(Stderr, line)] else []))"

definition debug_sprintf :: "log_state \<Rightarrow> string \<Rightarrow> string \<Rightarrow> (out_stream \<times> string) list" where
  "debug_sprintf s timebuffer msg =
     (if debug_enabled s \<noteq> 1 then [] else global_sprintf s ''DEBUG'' timebuffer msg)"

definition info_sprintf :: "log_state \<Rightarrow> string \<Rightarrow> string \<Rightarrow> (out_stream \<times> string) list" where
  "info_sprintf s timebuffer msg = global_sprintf s ''INFO'' timebuffer msg"

definition warning_sprintf :: "log_state \<Rightarrow> string \<Rightarrow> string \<Rightarrow> (out_stream \<times> string) list" where
  "warning_sprintf s timebuffer msg = global_sprintf s ''WARN'' timebuffer msg"

definition error_sprintf :: "log_state \<Rightarrow> string \<Rightarrow> string \<Rightarrow> (out_stream \<times> string) list" where
  "error_sprintf s timebuffer msg = global_sprintf s ''ERROR'' timebuffer msg"

lemma log_levels:
  "hd ''DEBUG'' = CHR ''D''" "hd ''INFO'' = CHR ''I''" "hd ''WARN'' = CHR ''W''" "hd ''ERROR'' = CHR ''E''"
  by simp_all

text \<open>Every line a call can print, and its length.\<close>

lemma global_sprintf_line:
  assumes "(st, l) \<in> set (global_sprintf s type t msg)"
  shows "length l \<le> length t + max 5 (length type) + max 5 (length (show_int (debug_pid s))) + 519
    \<and> (st = Stdout \<longrightarrow> log_output_enabled_stdout s \<noteq> 0)
    \<and> (st = Stderr \<longrightarrow> log_output_enabled_stderr s \<noteq> 0)"
  using assms
  by (auto simp: global_sprintf_def Let_def pad5_def snprintf_def max_def split: if_splits)

end
