(* ===== verification/Nsca_Process.thy ===== *)
theory Nsca_Process
  imports Nsca_Network
begin

text \<open>
  \<open>processManager.cpp\<close>: the master process and its workers. What the system answers (process ids,
  the time, the lookups of user and group) is an argument; signals it sends and identity changes
  are returned as lists. Signal handlers run between the steps of the main flow: \<open>signal_received\<close>
  is one handler, \<open>manager_loop\<close> the loop with the handlers that run in each of its pauses, and
  \<open>sys_step\<close> the finer interleaving around \<open>fork\<close>. (The two updates of \<open>workers_running\<close> are
  taken as atomic.)
\<close>

section \<open>State\<close>

definition PROCESS_MAIN :: int where [nsca_consts]: "PROCESS_MAIN = 1"
definition PROCESS_CHILD :: int where [nsca_consts]: "PROCESS_CHILD = 2"
definition PROCESS_STATE_RUNNING :: int where [nsca_consts]: "PROCESS_STATE_RUNNING = 1"
definition PROCESS_STATE_NOTRUNNING :: int where [nsca_consts]: "PROCESS_STATE_NOTRUNNING = 2"
definition SIGKILL :: int where [nsca_consts]: "SIGKILL = 9"
definition SIGUSR1 :: int where [nsca_consts]: "SIGUSR1 = 10"

record child_t =
  pid :: int
  process_state :: int
  child_started :: int

definition new_child :: child_t where
  "new_child = \<lparr>pid = 0, process_state = PROCESS_STATE_NOTRUNNING, child_started = 0\<rparr>"

text \<open>\<open>setPid\<close>, \<open>setProcessState\<close> and \<open>updateStarted\<close>; \<open>time\<close> gives the last its argument.\<close>

definition setPid :: "int \<Rightarrow> child_t \<Rightarrow> child_t" where
  [simp]: "setPid mpid c = c\<lparr>pid := mpid\<rparr>"

definition setProcessState :: "int \<Rightarrow> child_t \<Rightarrow> child_t" where
  [simp]: "setProcessState pstate c = c\<lparr>process_state := pstate\<rparr>"

definition updateStarted :: "int \<Rightarrow> child_t \<Rightarrow> child_t" where
  [simp]: "updateStarted time_now c = c\<lparr>child_started := time_now\<rparr>"

definition child_reset :: "child_t \<Rightarrow> child_t" where
  "child_reset c = (setProcessState PROCESS_STATE_NOTRUNNING (setPid 0 c))\<lparr>child_started := 0\<rparr>"

record 'td process_manager =
  process_mode :: int
  myPid :: int
  parentPid :: int
  maxWorker :: int
  workers :: "child_t list"
  workers_running :: int
  nw :: "'td network option"
  lockfd :: int
  process_internal_id :: int
  pm_started :: int
  pm_shutdown :: bool

definition new_process_manager :: "int \<Rightarrow> 'td process_manager" where
  "new_process_manager time_now =
     \<lparr>process_mode = 0, myPid = 0, parentPid = 0, maxWorker = 4, workers = [], workers_running = 0,
      nw = None, lockfd = -1, process_internal_id = 0, pm_started = time_now, pm_shutdown = False\<rparr>"

definition pm_reset :: "'td process_manager \<Rightarrow> 'td process_manager" where
  "pm_reset pm = pm\<lparr>process_mode := 0, myPid := 0, parentPid := 0, workers_running := 0,
     pm_shutdown := False, nw := None, lockfd := -1\<rparr>"

definition setProcessMode :: "int \<Rightarrow> 'td process_manager \<Rightarrow> 'td process_manager" where
  [simp]: "setProcessMode m pm = pm\<lparr>process_mode := m\<rparr>"

definition setInternalProcessId :: "int \<Rightarrow> 'td process_manager \<Rightarrow> 'td process_manager" where
  [simp]: "setInternalProcessId i pm = pm\<lparr>process_internal_id := i\<rparr>"

definition setStarted :: "int \<Rightarrow> 'td process_manager \<Rightarrow> 'td process_manager" where
  [simp]: "setStarted time_now pm = pm\<lparr>pm_started := time_now\<rparr>"

definition setPids :: "int \<Rightarrow> int \<Rightarrow> 'td process_manager \<Rightarrow> 'td process_manager" where
  "setPids own_pid own_ppid pm =
     (let pm1 = pm\<lparr>myPid := own_pid\<rparr>
      in if process_mode pm1 = PROCESS_CHILD then pm1\<lparr>parentPid := own_ppid\<rparr> else pm1)"

definition setMaxWorker :: "int \<Rightarrow> 'td process_manager \<Rightarrow> 'td process_manager" where
  "setMaxWorker mw pm =
     pm\<lparr>maxWorker := mw, workers := workers pm @ replicate (nat mw) new_child\<rparr>"

section \<open>Starting workers\<close>

text \<open>
  \<open>fork_pid\<close>: what \<open>fork\<close> returns; then the time, and in the child its own and its parent's id.
\<close>

record fork_env =
  fork_pid :: int
  fork_time :: int
  fork_mypid :: int
  fork_ppid :: int

text \<open>What the child sets up before it drops its privileges and works.\<close>

definition child_setup :: "fork_env \<Rightarrow> nat \<Rightarrow> 'td process_manager \<Rightarrow> 'td process_manager" where
  "child_setup e wid pm =
     setStarted (fork_time e) (setInternalProcessId (int wid)
       (setPids (fork_mypid e) (fork_ppid e) (setProcessMode PROCESS_CHILD (pm_reset pm))))"

definition record_child :: "fork_env \<Rightarrow> nat \<Rightarrow> 'td process_manager \<Rightarrow> 'td process_manager" where
  "record_child e wid pm =
     pm\<lparr>process_mode := PROCESS_MAIN,
       workers := (workers pm)[wid := (workers pm ! wid)\<lparr>child_started := fork_time e,
         process_state := PROCESS_STATE_RUNNING, pid := fork_pid e\<rparr>],
       workers_running := workers_running pm + 1\<rparr>"

definition startChild :: "fork_env \<Rightarrow> nat \<Rightarrow> 'td process_manager \<Rightarrow> 'td process_manager" where
  "startChild e wid pm =
     (if process_mode pm \<noteq> PROCESS_MAIN then pm
      else if process_state (workers pm ! wid) = PROCESS_STATE_RUNNING then pm
      else if fork_pid e = 0 then child_setup e wid pm
      else if 0 < fork_pid e then record_child e wid pm
      else pm)"

fun start_children ::
    "(nat \<Rightarrow> fork_env) \<Rightarrow> nat list \<Rightarrow> 'td process_manager \<Rightarrow> 'td process_manager" where
  "start_children es [] pm = pm"
| "start_children es (i # is) pm = start_children es is (startChild (es i) i pm)"

definition runWorkers :: "(nat \<Rightarrow> fork_env) \<Rightarrow> 'td process_manager \<Rightarrow> 'td process_manager" where
  "runWorkers es pm =
     (if process_mode pm \<noteq> PROCESS_MAIN then pm
      else if pm_shutdown pm then pm
      else start_children es [0..<nat (maxWorker pm)] pm)"

section \<open>Signals\<close>

definition killChilds :: "int \<Rightarrow> 'td process_manager \<Rightarrow> (int \<times> int) list" where
  "killChilds s pm = map (\<lambda>i. (pid (workers pm ! i), s)) [0..<nat (maxWorker pm)]"

definition pm_shutdown_call :: "'td process_manager \<Rightarrow> 'td process_manager" where
  "pm_shutdown_call pm =
     (let pm1 = pm\<lparr>pm_shutdown := True\<rparr>
      in (case nw pm1 of None \<Rightarrow> pm1 | Some n \<Rightarrow> pm1\<lparr>nw := Some (snd (network_stop n))\<rparr>))"

text \<open>\<open>Inl\<close> is the exit status; else the new state and the signals that were sent.\<close>

definition sigint_handler ::
    "'td process_manager \<Rightarrow> int + 'td process_manager \<times> (int \<times> int) list" where
  "sigint_handler pm =
     (if process_mode pm \<noteq> PROCESS_MAIN then Inr (pm, [])
      else if pm_shutdown pm then Inl 2
      else Inr (pm_shutdown_call pm, killChilds SIGUSR1 pm))"

text \<open>The search for the slot of a reaped process, and the handler on the processes reaped.\<close>

fun reap_slot :: "int \<Rightarrow> child_t list \<Rightarrow> child_t list option" where
  "reap_slot p [] = None"
| "reap_slot p (c # cs) =
     (if pid c = p then Some (child_reset c # cs)
      else (case reap_slot p cs of None \<Rightarrow> None | Some cs' \<Rightarrow> Some (c # cs')))"

definition reap_one :: "int \<Rightarrow> 'td process_manager \<Rightarrow> 'td process_manager" where
  "reap_one p pm =
     (let k = nat (maxWorker pm)
      in (case reap_slot p (take k (workers pm)) of
            None \<Rightarrow> pm
          | Some cs \<Rightarrow> pm\<lparr>workers := cs @ drop k (workers pm),
                          workers_running := workers_running pm - 1\<rparr>))"

definition sigchld_handler :: "int list \<Rightarrow> 'td process_manager \<Rightarrow> 'td process_manager" where
  "sigchld_handler reaped pm = foldl (\<lambda>pm p. reap_one p pm) pm reaped"

definition sigusr1_handler :: "'td process_manager \<Rightarrow> 'td process_manager" where
  "sigusr1_handler pm =
     (if process_mode pm \<noteq> PROCESS_CHILD then pm else pm_shutdown_call pm)"

text \<open>\<open>sighandler_proxy\<close>. For \<open>SIGCHLD\<close> the processes that \<open>waitpid\<close> returns.\<close>

datatype signal = Sig_chld "int list" | Sig_int | Sig_term | Sig_usr1

definition signal_received ::
    "signal \<Rightarrow> 'td process_manager \<Rightarrow> int + 'td process_manager \<times> (int \<times> int) list" where
  "signal_received s pm =
     (case s of
        Sig_chld ps \<Rightarrow> Inr (sigchld_handler ps pm, [])
      | Sig_int \<Rightarrow> sigint_handler pm
      | Sig_term \<Rightarrow> sigint_handler pm
      | Sig_usr1 \<Rightarrow> Inr (sigusr1_handler pm, []))"

fun signals_received ::
    "signal list \<Rightarrow> 'td process_manager \<Rightarrow> int + 'td process_manager \<times> (int \<times> int) list" where
  "signals_received [] pm = Inr (pm, [])"
| "signals_received (s # ss) pm =
     (case signal_received s pm of
        Inl x \<Rightarrow> Inl x
      | Inr (pm1, out1) \<Rightarrow>
          (case signals_received ss pm1 of
             Inl x \<Rightarrow> Inl x
           | Inr (pm2, out2) \<Rightarrow> Inr (pm2, out1 @ out2)))"

section \<open>The loop of the master\<close>

definition max_wait_for_shutdown :: int where "max_wait_for_shutdown = 15"

text \<open>
  The loop with several workers, on a list of rounds: what \<open>fork\<close> answers in a round and the
  signals that arrive in the pause after it. \<open>Out_of_rounds\<close>: the loop has not ended yet.
\<close>

datatype 'td loop_end =
    Loop_done "'td process_manager" "(int \<times> int) list"
  | Loop_exit int
  | Out_of_rounds

fun manager_loop ::
    "((nat \<Rightarrow> fork_env) \<times> signal list) list \<Rightarrow> int \<Rightarrow> 'td process_manager \<Rightarrow> 'td loop_end" where
  "manager_loop [] wait_for_shutdown pm = Out_of_rounds"
| "manager_loop ((es, sigs) # rounds) wait_for_shutdown pm =
     (let wfs = (if pm_shutdown pm then wait_for_shutdown + 1 else wait_for_shutdown)
      in if pm_shutdown pm \<and> workers_running pm = 0 then Loop_done pm []
         else if pm_shutdown pm \<and> max_wait_for_shutdown \<le> wfs
         then Loop_done pm (killChilds SIGKILL pm)
         else
           let pm1 = (if pm_shutdown pm then pm else runWorkers es pm)
           in (case signals_received sigs pm1 of
                 Inl x \<Rightarrow> Loop_exit x
               | Inr (pm2, _) \<Rightarrow> manager_loop rounds wfs pm2))"

section \<open>Lock and privileges\<close>

text \<open>
  The destructor: the \<open>network\<close> if there still is one, and the descriptor of the lock in the main
  process; the result is what the \<open>network\<close> releases and the descriptor that is closed.
\<close>

definition delete_process_manager ::
    "bool \<Rightarrow> bool \<Rightarrow> bool \<Rightarrow> 'td process_manager \<Rightarrow> world \<Rightarrow> (release list \<times> int option \<times> world) option" where
  "delete_process_manager initialized readable unlinked pm w =
     (let lock = (if lockfd pm \<noteq> -1 \<and> process_mode pm = PROCESS_MAIN then Some (lockfd pm) else None)
      in (case nw pm of
            None \<Rightarrow> Some ([], lock, w)
          | Some n \<Rightarrow>
              (case delete_network initialized readable unlinked n w of
                 None \<Rightarrow> None
               | Some (_, rel, w1) \<Rightarrow> Some (rel, lock, w1))))"

text \<open>\<open>lock_open\<close>: the descriptor \<open>open\<close> returns; \<open>lock_ok\<close>: whether \<open>flock\<close> succeeds.\<close>

definition pm_lock :: "int \<Rightarrow> bool \<Rightarrow> 'td process_manager \<Rightarrow> int \<times> 'td process_manager" where
  "pm_lock lock_open lock_ok pm =
     (if process_mode pm \<noteq> PROCESS_MAIN then (0, pm)
      else
        let pm1 = pm\<lparr>lockfd := lock_open\<rparr>
        in if lock_open < 0 then (-1, pm1) else if \<not> lock_ok then (-2, pm1) else (0, pm1))"

text \<open>
  \<open>super_limits\<close> asks for 65535 descriptors; a refusal is only logged. \<open>devnull_output\<close> gives the
  three standard streams to \<open>/dev/null\<close>, in order; \<open>None\<close> is the failed assertion.
\<close>

definition super_limits :: "(int \<Rightarrow> bool) \<Rightarrow> int \<Rightarrow> int" where
  "super_limits permitted limit = (let maxconn = 65535 in if permitted maxconn then maxconn else limit)"

datatype std_stream = Std_in | Std_out | Std_err

fun reopen_streams :: "(std_stream \<Rightarrow> bool) \<Rightarrow> std_stream list \<Rightarrow> std_stream list option" where
  "reopen_streams freopen_ok [] = Some []"
| "reopen_streams freopen_ok (x # xs) =
     (if freopen_ok x then map_option (Cons x) (reopen_streams freopen_ok xs) else None)"

definition devnull_output :: "(std_stream \<Rightarrow> bool) \<Rightarrow> std_stream list option" where
  "devnull_output freopen_ok = reopen_streams freopen_ok [Std_in, Std_out, Std_err]"

datatype id_call = Setgid int | Setuid int

text \<open>
  \<open>super_downgrade\<close>: \<open>getgr\<close> and \<open>getpw\<close> look the names up, \<open>set_ok\<close> is whether a change is
  permitted. \<open>Inl\<close> is the exit status; the list is what was called, in order.
\<close>

definition super_downgrade ::
    "(string \<Rightarrow> int option) \<Rightarrow> (string \<Rightarrow> int option) \<Rightarrow> (id_call \<Rightarrow> bool) \<Rightarrow> config \<Rightarrow>
     id_call list \<times> (int + config)" where
  "super_downgrade getgr getpw set_ok cfg =
     (let username = Get cfg ''nsca_user'' []; groupname = Get cfg ''nsca_group'' [];
          (calls1, r1) =
            (if groupname \<noteq> []
             then (case getgr (c_str groupname) of
                     None \<Rightarrow> ([], Inl 1)
                   | Some gid \<Rightarrow>
                       ([Setgid gid], if set_ok (Setgid gid) then Inr (Set ''gid'' (snprintf DBUFFER_4K_SIZE (show_int (c_int gid))) cfg) else Inl 1))
             else ([], Inr cfg))
      in (case r1 of
            Inl x \<Rightarrow> (calls1, Inl x)
          | Inr cfg1 \<Rightarrow>
              if username \<noteq> []
              then (case getpw (c_str username) of
                      None \<Rightarrow> (calls1, Inl 1)
                    | Some uid \<Rightarrow>
                        (calls1 @ [Setuid uid],
                         if set_ok (Setuid uid) then Inr (Set ''uid'' (snprintf DBUFFER_4K_SIZE (show_int (c_int uid))) cfg1) else Inl 1))
              else (calls1, Inr cfg1)))"

text \<open>
  \<open>loop\<close> as a whole: with one worker the process drops its privileges and works itself, else it is
  the master.
\<close>

datatype 'td pm_loop_end = Works_alone "id_call list" "int + config" | Managed "'td loop_end"

definition pm_loop ::
    "(string \<Rightarrow> int option) \<Rightarrow> (string \<Rightarrow> int option) \<Rightarrow> (id_call \<Rightarrow> bool) \<Rightarrow> config \<Rightarrow>
     ((nat \<Rightarrow> fork_env) \<times> signal list) list \<Rightarrow> 'td process_manager \<Rightarrow> 'td pm_loop_end" where
  "pm_loop getgr getpw set_ok cfg rounds pm =
     (if maxWorker pm = 1 then (let (calls, r) = super_downgrade getgr getpw set_ok cfg in Works_alone calls r)
      else Managed (manager_loop rounds 0 pm))"

section \<open>The count of running workers\<close>

definition running :: "child_t list \<Rightarrow> nat" where
  "running cs = length (filter (\<lambda>c. process_state c = PROCESS_STATE_RUNNING) cs)"

definition slot_ok :: "child_t \<Rightarrow> bool" where
  "slot_ok c \<longleftrightarrow> process_state c = PROCESS_STATE_RUNNING \<and> 0 < pid c
     \<or> process_state c = PROCESS_STATE_NOTRUNNING \<and> pid c = 0"

text \<open>
  The invariant of the master: there is a slot for each worker, a slot holds a process id exactly
  when it is running, and \<open>workers_running\<close> counts the running slots.
\<close>

definition master_inv :: "'td process_manager \<Rightarrow> bool" where
  "master_inv pm \<longleftrightarrow> process_mode pm = PROCESS_MAIN \<and> length (workers pm) = nat (maxWorker pm)
     \<and> list_all slot_ok (workers pm) \<and> workers_running pm = int (running (workers pm))"

lemma slot_ok_new [simp]: "slot_ok new_child" "slot_ok (child_reset c)"
  by (simp_all add: slot_ok_def new_child_def child_reset_def)

lemma running_simps [simp]:
  "running [] = 0"
  "running (c # cs) = (if process_state c = PROCESS_STATE_RUNNING then Suc (running cs) else running cs)"
  by (simp_all add: running_def)

lemma running_append [simp]: "running (as @ bs) = running as + running bs"
  by (simp add: running_def)

lemma running_start:
  "i < length cs \<Longrightarrow> process_state (cs ! i) \<noteq> PROCESS_STATE_RUNNING \<Longrightarrow>
   process_state c = PROCESS_STATE_RUNNING \<Longrightarrow> running (cs[i := c]) = Suc (running cs)"
proof (induction cs arbitrary: i)
  case Nil
  then show ?case by simp
next
  case (Cons d cs)
  then show ?case by (cases i) auto
qed

lemma reap_slot_ok:
  assumes "reap_slot p cs = Some cs'" "list_all slot_ok cs" "0 < p"
  shows "length cs' = length cs \<and> list_all slot_ok cs' \<and> running cs = Suc (running cs')"
  using assms
proof (induction cs arbitrary: cs')
  case Nil
  then show ?case by simp
next
  case (Cons c cs)
  have "process_state c = PROCESS_STATE_RUNNING" if "pid c = p"
    using that Cons.prems(2,3) by (auto simp: slot_ok_def)
  with Cons show ?case
    by (auto simp: child_reset_def nsca_consts slot_ok_def split: if_splits option.splits)
qed

lemma master_inv_reap_one:
  assumes "master_inv pm" "0 < p"
  shows "master_inv (reap_one p pm)"
proof (cases "reap_slot p (workers pm)")
  case None
  with assms show ?thesis by (simp add: reap_one_def master_inv_def)
next
  case (Some cs)
  with assms reap_slot_ok [OF Some] show ?thesis by (simp add: reap_one_def master_inv_def)
qed

lemma master_inv_sigchld:
  "master_inv pm \<Longrightarrow> \<forall>p \<in> set ps. 0 < p \<Longrightarrow> master_inv (sigchld_handler ps pm)"
  unfolding sigchld_handler_def
  by (induction ps arbitrary: pm) (simp_all add: master_inv_reap_one)

lemma master_inv_startChild:
  assumes "master_inv pm" "i < length (workers pm)" "fork_pid e \<noteq> 0"
  shows "master_inv (startChild e i pm)"
proof (cases "process_state (workers pm ! i) = PROCESS_STATE_RUNNING \<or> fork_pid e < 0")
  case True
  with assms show ?thesis by (auto simp: startChild_def)
next
  case False
  let ?c = "(workers pm ! i)\<lparr>child_started := fork_time e, process_state := PROCESS_STATE_RUNNING,
      pid := fork_pid e\<rparr>"
  have "slot_ok ?c" using False assms(3) by (simp add: slot_ok_def)
  then have "list_all slot_ok ((workers pm)[i := ?c])"
    using assms(1) by (auto simp: master_inv_def list_all_iff dest: set_update_subset_insert [THEN subsetD])
  moreover have "running ((workers pm)[i := ?c]) = Suc (running (workers pm))"
    using False assms(2) by (intro running_start) simp_all
  ultimately show ?thesis
    using assms False by (simp add: startChild_def record_child_def master_inv_def)
qed

lemma startChild_keeps:
  assumes "master_inv pm" "i < length (workers pm)" "fork_pid e \<noteq> 0"
  shows "maxWorker (startChild e i pm) = maxWorker pm" "pm_shutdown (startChild e i pm) = pm_shutdown pm"
    "length (workers (startChild e i pm)) = length (workers pm)"
    "nw (startChild e i pm) = nw pm"
  using assms(3) by (auto simp: startChild_def record_child_def)

lemma start_children_inv:
  assumes "master_inv pm" "\<forall>i \<in> set is. i < length (workers pm) \<and> fork_pid (es i) \<noteq> 0"
  shows "master_inv (start_children es is pm) \<and> pm_shutdown (start_children es is pm) = pm_shutdown pm
    \<and> maxWorker (start_children es is pm) = maxWorker pm"
  using assms
proof (induction "is" arbitrary: pm)
  case Nil
  then show ?case by simp
next
  case (Cons i "is")
  then have i: "i < length (workers pm)" "fork_pid (es i) \<noteq> 0" by simp_all
  from Cons.IH [of "startChild (es i) i pm"] Cons.prems
    master_inv_startChild [OF Cons.prems(1) i] startChild_keeps [OF Cons.prems(1) i]
  show ?case by simp
qed

lemma runWorkers_inv:
  assumes "master_inv pm" "\<forall>i. fork_pid (es i) \<noteq> 0"
  shows "master_inv (runWorkers es pm) \<and> pm_shutdown (runWorkers es pm) = pm_shutdown pm"
  using start_children_inv [OF assms(1), of "[0..<nat (maxWorker pm)]" es] assms
  by (auto simp: runWorkers_def master_inv_def)

text \<open>When every \<open>fork\<close> succeeds, all workers run afterwards.\<close>

lemma start_children_running:
  assumes "master_inv pm" "\<forall>i \<in> set is. i < length (workers pm) \<and> 0 < fork_pid (es i)"
    and "j \<in> set is \<or> j < length (workers pm) \<and> process_state (workers pm ! j) = PROCESS_STATE_RUNNING"
  shows "process_state (workers (start_children es is pm) ! j) = PROCESS_STATE_RUNNING"
  using assms
proof (induction "is" arbitrary: pm)
  case Nil
  then show ?case by simp
next
  case (Cons i "is")
  then have i: "i < length (workers pm)" "0 < fork_pid (es i)" by simp_all
  then have ne: "fork_pid (es i) \<noteq> 0" by simp
  let ?pm = "startChild (es i) i pm"
  have len: "length (workers ?pm) = length (workers pm)"
    by (rule startChild_keeps [OF Cons.prems(1) i(1) ne])
  have mode: "process_mode pm = PROCESS_MAIN" using Cons.prems(1) by (simp add: master_inv_def)
  have at: "process_state (workers ?pm ! i) = PROCESS_STATE_RUNNING"
    using i mode by (simp add: startChild_def record_child_def)
  have other: "process_state (workers ?pm ! k) = PROCESS_STATE_RUNNING"
    if "process_state (workers pm ! k) = PROCESS_STATE_RUNNING" "k < length (workers pm)" for k
    using that i mode by (auto simp: startChild_def record_child_def nth_list_update)
  have "j \<in> set is \<or> j < length (workers ?pm) \<and> process_state (workers ?pm ! j) = PROCESS_STATE_RUNNING"
    using Cons.prems(3) at other len i(1) by auto
  with Cons.IH [of ?pm] Cons.prems(2) len master_inv_startChild [OF Cons.prems(1) i(1) ne]
  show ?case by simp
qed

section \<open>Signals keep the invariant\<close>

fun signal_ok :: "signal \<Rightarrow> bool" where
  "signal_ok (Sig_chld ps) = (\<forall>p \<in> set ps. 0 < p)"
| "signal_ok _ = True"

lemma pm_shutdown_call_simps [simp]:
  "workers (pm_shutdown_call pm) = workers pm" "maxWorker (pm_shutdown_call pm) = maxWorker pm"
  "workers_running (pm_shutdown_call pm) = workers_running pm"
  "process_mode (pm_shutdown_call pm) = process_mode pm" "pm_shutdown (pm_shutdown_call pm)"
  by (auto simp: pm_shutdown_call_def Let_def split: option.splits)

lemma reap_keeps [simp]:
  "pm_shutdown (reap_one p pm) = pm_shutdown pm" "process_mode (reap_one p pm) = process_mode pm"
  by (auto simp: reap_one_def Let_def split: option.splits)

lemma sigchld_keeps [simp]:
  "pm_shutdown (sigchld_handler ps pm) = pm_shutdown pm"
  unfolding sigchld_handler_def by (induction ps arbitrary: pm) simp_all

lemma signal_received_inv:
  assumes "signal_received s pm = Inr (pm', out)" "master_inv pm" "signal_ok s"
  shows "master_inv pm' \<and> (pm_shutdown pm \<longrightarrow> pm_shutdown pm')"
  using assms master_inv_sigchld [of pm]
  by (cases s) (auto simp: signal_received_def sigint_handler_def sigusr1_handler_def
      master_inv_def nsca_consts split: if_splits)

lemma signals_received_inv:
  assumes "signals_received ss pm = Inr (pm', out)" "master_inv pm" "list_all signal_ok ss"
  shows "master_inv pm' \<and> (pm_shutdown pm \<longrightarrow> pm_shutdown pm')"
  using assms
proof (induction ss arbitrary: pm out)
  case Nil
  then show ?case by simp
next
  case (Cons s ss)
  then obtain pm1 out1 out2 where 1: "signal_received s pm = Inr (pm1, out1)"
      "signals_received ss pm1 = Inr (pm', out2)"
    by (auto split: sum.splits)
  then show ?case using signal_received_inv [OF 1(1)] Cons.IH [OF 1(2)] Cons.prems by simp
qed

section \<open>Shutting down\<close>

text \<open>From a shutdown request on, the loop ends within 15 rounds.\<close>

lemma manager_loop_ends:
  assumes "pm_shutdown pm" "master_inv pm" "\<forall>(es, ss) \<in> set rounds. list_all signal_ok ss"
    and "max_wait_for_shutdown \<le> wfs + int (length rounds)" "rounds \<noteq> []"
  shows "manager_loop rounds wfs pm \<noteq> Out_of_rounds"
  using assms
proof (induction rounds arbitrary: wfs pm)
  case Nil
  then show ?case by simp
next
  case (Cons r rounds)
  obtain es ss where r: "r = (es, ss)" by (cases r)
  show ?case
  proof (cases "workers_running pm = 0 \<or> max_wait_for_shutdown \<le> wfs + 1")
    case True
    with Cons.prems(1) r show ?thesis by (auto simp: Let_def)
  next
    case False
    show ?thesis
    proof (cases "signals_received ss pm")
      case (Inl x)
      with False Cons.prems(1) r show ?thesis by simp
    next
      case (Inr q)
      obtain pm1 out where q: "q = (pm1, out)" by (cases q)
      have "master_inv pm1" "pm_shutdown pm1"
        using signals_received_inv [of ss pm pm1 out] Inr q Cons.prems r by auto
      moreover have "rounds \<noteq> []" using False Cons.prems(4) by auto
      ultimately have "manager_loop rounds (wfs + 1) pm1 \<noteq> Out_of_rounds"
        using Cons.IH [of pm1 "wfs + 1"] Cons.prems(3,4) by simp
      with False Inr q Cons.prems(1) r show ?thesis by simp
    qed
  qed
qed

text \<open>What is true when it ends: no worker is left, or every slot has been sent \<open>SIGKILL\<close>.\<close>

lemma manager_loop_result:
  assumes "manager_loop rounds wfs pm = Loop_done pm' out"
  shows "pm_shutdown pm' \<and> (workers_running pm' = 0 \<and> out = [] \<or> out = killChilds SIGKILL pm')"
  using assms
proof (induction rounds arbitrary: wfs pm)
  case Nil
  then show ?case by simp
next
  case (Cons r rounds)
  obtain es ss where r: "r = (es, ss)" by (cases r)
  from Cons.prems Cons.IH show ?case
    by (auto simp: r Let_def split: if_splits sum.splits)
qed

section \<open>Workers and their processes\<close>

text \<open>
  The master together with the processes it has started. \<open>alive\<close> are its children that have not
  been reaped. A worker is started in two steps, as in the code: \<open>forked\<close> is a child that exists
  but is not yet in its slot. A handler can run between the two; \<open>race\<close> says whether the child just
  forked can be reaped there.
\<close>

record 'td sys =
  master :: "'td process_manager"
  alive :: "int set"
  forked :: "(nat \<times> fork_env) option"

definition forked_pids :: "'td sys \<Rightarrow> int set" where
  "forked_pids s = (case forked s of None \<Rightarrow> {} | Some (i, e) \<Rightarrow> {fork_pid e})"

definition can_start :: "nat \<Rightarrow> 'td process_manager \<Rightarrow> bool" where
  "can_start i pm \<longleftrightarrow> process_mode pm = PROCESS_MAIN \<and> i < length (workers pm)
     \<and> process_state (workers pm ! i) \<noteq> PROCESS_STATE_RUNNING"

inductive sys_step :: "bool \<Rightarrow> 'td sys \<Rightarrow> 'td sys \<Rightarrow> bool" for race where
  fork: "forked s = None \<Longrightarrow> can_start i (master s) \<Longrightarrow> 0 < fork_pid e \<Longrightarrow> fork_pid e \<notin> alive s \<Longrightarrow>
    sys_step race s (s\<lparr>alive := insert (fork_pid e) (alive s), forked := Some (i, e)\<rparr>)"
| record_pid: "forked s = Some (i, e) \<Longrightarrow>
    sys_step race s (s\<lparr>master := record_child e i (master s), forked := None\<rparr>)"
| sigchld: "distinct ps \<Longrightarrow> set ps \<subseteq> alive s \<Longrightarrow> race \<or> set ps \<inter> forked_pids s = {} \<Longrightarrow>
    sys_step race s (s\<lparr>master := sigchld_handler ps (master s), alive := alive s - set ps\<rparr>)"

inductive sys_reach :: "bool \<Rightarrow> 'td sys \<Rightarrow> bool" for race where
  init: "sys_reach race
    \<lparr>master = setMaxWorker mw ((new_process_manager t)\<lparr>process_mode := PROCESS_MAIN\<rparr>),
     alive = {}, forked = None\<rparr>"
| step: "sys_reach race s \<Longrightarrow> sys_step race s s' \<Longrightarrow> sys_reach race s'"

inductive_cases sys_stepE: "sys_step race s s'"

definition slot_pids :: "child_t list \<Rightarrow> int list" where
  "slot_pids cs = map pid (filter (\<lambda>c. process_state c = PROCESS_STATE_RUNNING) cs)"

text \<open>Without the race the slots are exactly the children: no one is lost and no one is double.\<close>

definition sys_inv :: "'td sys \<Rightarrow> bool" where
  "sys_inv s \<longleftrightarrow> master_inv (master s)
     \<and> distinct (slot_pids (workers (master s)))
     \<and> set (slot_pids (workers (master s))) \<inter> forked_pids s = {}
     \<and> set (slot_pids (workers (master s))) \<union> forked_pids s = alive s
     \<and> (\<forall>p \<in> alive s. 0 < p)
     \<and> (\<forall>i e. forked s = Some (i, e) \<longrightarrow> can_start i (master s) \<and> 0 < fork_pid e)"

lemma slot_pids_simps [simp]:
  "slot_pids [] = []"
  "slot_pids (c # cs) = (if process_state c = PROCESS_STATE_RUNNING then pid c # slot_pids cs else slot_pids cs)"
  by (simp_all add: slot_pids_def)

lemma slot_pids_start:
  assumes "i < length cs" "process_state (cs ! i) \<noteq> PROCESS_STATE_RUNNING"
    and "process_state c = PROCESS_STATE_RUNNING" "pid c \<notin> set (slot_pids cs)" "distinct (slot_pids cs)"
  shows "distinct (slot_pids (cs[i := c])) \<and> set (slot_pids (cs[i := c])) = insert (pid c) (set (slot_pids cs))"
  using assms
proof (induction cs arbitrary: i)
  case Nil
  then show ?case by simp
next
  case (Cons d cs)
  then show ?case by (cases i) (auto split: if_splits)
qed

lemma reap_slot_pids:
  assumes "list_all slot_ok cs" "0 < p" "distinct (slot_pids cs)"
  shows "case reap_slot p cs of
      None \<Rightarrow> p \<notin> set (slot_pids cs)
    | Some cs' \<Rightarrow> distinct (slot_pids cs') \<and> set (slot_pids cs') = set (slot_pids cs) - {p}
        \<and> (\<forall>i < length cs. process_state (cs ! i) \<noteq> PROCESS_STATE_RUNNING \<longrightarrow>
             process_state (cs' ! i) \<noteq> PROCESS_STATE_RUNNING)"
  using assms
proof (induction cs)
  case Nil
  then show ?case by simp
next
  case (Cons c cs)
  show ?case
  proof (cases "pid c = p")
    case True
    then have "process_state c = PROCESS_STATE_RUNNING" using Cons.prems by (auto simp: slot_ok_def)
    with True Cons.prems show ?thesis
      by (auto simp: child_reset_def nsca_consts nth_Cons split: nat.splits)
  next
    case False
    with Cons show ?thesis
      by (auto simp: nth_Cons split: option.splits nat.splits if_splits)
  qed
qed

lemma reap_one_pids:
  assumes "master_inv pm" "0 < p" "distinct (slot_pids (workers pm))"
  shows "distinct (slot_pids (workers (reap_one p pm)))
    \<and> set (slot_pids (workers (reap_one p pm))) = set (slot_pids (workers pm)) - {p}
    \<and> (\<forall>i. can_start i pm \<longrightarrow> can_start i (reap_one p pm))"
proof -
  have k: "take (nat (maxWorker pm)) (workers pm) = workers pm" "drop (nat (maxWorker pm)) (workers pm) = []"
    and ok: "list_all slot_ok (workers pm)" using assms(1) by (simp_all add: master_inv_def)
  show ?thesis
  proof (cases "reap_slot p (workers pm)")
    case None
    with reap_slot_pids [OF ok assms(2,3)] k assms(3) show ?thesis by (simp add: reap_one_def)
  next
    case (Some cs)
    have "length cs = length (workers pm)" using reap_slot_ok [OF Some ok assms(2)] by simp
    with Some reap_slot_pids [OF ok assms(2,3)] k show ?thesis
      by (simp add: reap_one_def can_start_def)
  qed
qed

lemma sigchld_pids:
  assumes "master_inv pm" "\<forall>p \<in> set ps. 0 < p" "distinct (slot_pids (workers pm))"
  shows "distinct (slot_pids (workers (sigchld_handler ps pm)))
    \<and> set (slot_pids (workers (sigchld_handler ps pm))) = set (slot_pids (workers pm)) - set ps
    \<and> (\<forall>i. can_start i pm \<longrightarrow> can_start i (sigchld_handler ps pm))"
  using assms unfolding sigchld_handler_def
proof (induction ps arbitrary: pm)
  case Nil
  then show ?case by simp
next
  case (Cons p ps)
  then have "0 < p" by simp
  from Cons.IH [of "reap_one p pm"] reap_one_pids [OF Cons.prems(1) this Cons.prems(3)]
    master_inv_reap_one [OF Cons.prems(1) this] Cons.prems(2)
  show ?case by auto
qed

lemma master_inv_record:
  assumes "master_inv pm" "can_start i pm" "0 < fork_pid e"
  shows "master_inv (record_child e i pm)"
  using master_inv_startChild [OF assms(1), of i e] assms(2,3)
  by (simp add: can_start_def startChild_def)

lemma master_inv_init:
  "master_inv (setMaxWorker mw ((new_process_manager t)\<lparr>process_mode := PROCESS_MAIN\<rparr>))"
proof -
  have "running (replicate k new_child) = 0" for k
    by (simp add: running_def new_child_def nsca_consts)
  then show ?thesis
    by (simp add: master_inv_def setMaxWorker_def new_process_manager_def list_all_length)
qed

lemma master_inv_setMaxWorker:
  assumes "process_mode pm = PROCESS_MAIN" "workers pm = []" "workers_running pm = 0"
  shows "master_inv (setMaxWorker mw pm)"
proof -
  have "running (replicate k new_child) = 0" for k
    by (simp add: running_def new_child_def nsca_consts)
  then show ?thesis using assms by (simp add: master_inv_def setMaxWorker_def list_all_length)
qed

lemma runWorkers_maxWorker:
  assumes "master_inv pm" "\<forall>i. fork_pid (es i) \<noteq> 0"
  shows "maxWorker (runWorkers es pm) = maxWorker pm"
  using start_children_inv [OF assms(1), of "[0..<nat (maxWorker pm)]" es] assms
  by (auto simp: runWorkers_def master_inv_def)

text \<open>After a round in which every \<open>fork\<close> succeeds the count of workers is the configured one.\<close>

lemma runWorkers_full:
  assumes "master_inv pm" "\<not> pm_shutdown pm" "\<forall>i. 0 < fork_pid (es i)" "0 \<le> maxWorker pm"
  shows "workers_running (runWorkers es pm) = maxWorker pm"
proof -
  let ?ids = "[0..<nat (maxWorker pm)]" and ?pm = "runWorkers es pm"
  have r: "?pm = start_children es ?ids pm"
    using assms(1,2) by (simp add: runWorkers_def master_inv_def)
  have ids: "\<forall>i \<in> set ?ids. i < length (workers pm) \<and> 0 < fork_pid (es i)"
    using assms(1,3) by (simp add: master_inv_def)
  then have "\<forall>i \<in> set ?ids. i < length (workers pm) \<and> fork_pid (es i) \<noteq> 0"
    by (metis less_irrefl)
  from start_children_inv [OF assms(1) this] r
  have inv: "master_inv ?pm" "maxWorker ?pm = maxWorker pm" by simp_all
  then have "\<forall>c \<in> set (workers ?pm). process_state c = PROCESS_STATE_RUNNING"
    using start_children_running [OF assms(1) ids] r by (auto simp: in_set_conv_nth master_inv_def)
  then have "running (workers ?pm) = length (workers ?pm)" by (simp add: running_def)
  with inv assms(4) show ?thesis by (simp add: master_inv_def)
qed

lemma sys_inv_step:
  assumes "sys_inv s" "sys_step False s s'"
  shows "sys_inv s'"
  using assms(2)
proof (cases rule: sys_stepE [consumes 1, case_names fork record_pid sigchld])
  case (fork i e)
  with assms(1) show ?thesis by (auto simp: sys_inv_def forked_pids_def)
next
  case (record_pid i e)
  let ?pm = "master s"
  have f: "can_start i ?pm" "0 < fork_pid e" "fork_pid e \<notin> set (slot_pids (workers ?pm))"
      "set (slot_pids (workers ?pm)) \<union> {fork_pid e} = alive s"
    using assms(1) record_pid(2) by (auto simp: sys_inv_def forked_pids_def)
  have "distinct (slot_pids (workers (record_child e i ?pm)))
      \<and> set (slot_pids (workers (record_child e i ?pm))) = insert (fork_pid e) (set (slot_pids (workers ?pm)))"
    using slot_pids_start [of i "workers ?pm" "(workers ?pm ! i)\<lparr>child_started := fork_time e,
        process_state := PROCESS_STATE_RUNNING, pid := fork_pid e\<rparr>"] f assms(1)
    by (simp add: record_child_def can_start_def sys_inv_def)
  with record_pid f assms(1) master_inv_record [OF _ f(1,2)] show ?thesis
    by (auto simp: sys_inv_def forked_pids_def)
next
  case (sigchld ps)
  have inv: "master_inv (master s)" "distinct (slot_pids (workers (master s)))"
    and pos: "\<forall>p \<in> set ps. 0 < p" using assms(1) sigchld by (auto simp: sys_inv_def)
  from sigchld assms(1) sigchld_pids [OF inv(1) pos inv(2)] master_inv_sigchld [OF inv(1) pos]
  show ?thesis by (auto simp: sys_inv_def forked_pids_def split: option.splits)
qed

lemma sys_reach_inv: "sys_reach False s \<Longrightarrow> sys_inv s"
proof (induction rule: sys_reach.induct)
  case (init mw t)
  have "slot_pids (replicate k new_child) = []" for k
    by (simp add: slot_pids_def new_child_def nsca_consts)
  then show ?case
    using master_inv_init [of mw t]
    by (simp add: sys_inv_def forked_pids_def setMaxWorker_def new_process_manager_def)
next
  case (step s s')
  then show ?case by (blast intro: sys_inv_step)
qed

text \<open>With the race: a child that is reaped before it is recorded, as steps.\<close>

lemma lost_worker_reach:
  assumes "sys_reach True s" "forked s = None" "alive s = {}" "can_start i (master s)" "0 < fork_pid e"
    and "reap_one (fork_pid e) (master s) = master s"
  shows "sys_reach True (s\<lparr>master := record_child e i (master s)\<rparr>)"
proof -
  define s1 where "s1 = s\<lparr>alive := insert (fork_pid e) (alive s), forked := Some (i, e)\<rparr>"
  define s2 where "s2 = s1\<lparr>master := sigchld_handler [fork_pid e] (master s1), alive := alive s1 - set [fork_pid e]\<rparr>"
  define s3 where "s3 = s2\<lparr>master := record_child e i (master s2), forked := None\<rparr>"
  have "sys_step True s s1" unfolding s1_def
    by (rule sys_step.fork) (use assms in simp_all)
  moreover have "sys_step True s1 s2" unfolding s2_def
    by (rule sys_step.sigchld) (simp_all add: s1_def)
  moreover have "sys_step True s2 s3" unfolding s3_def
    by (rule sys_step.record_pid) (simp add: s2_def s1_def)
  ultimately have "sys_reach True s3" using assms(1) by (blast intro: sys_reach.step)
  moreover have "s3 = s\<lparr>master := record_child e i (master s)\<rparr>"
    using assms(2,3,6) by (cases s) (simp add: s3_def s2_def s1_def sigchld_handler_def)
  ultimately show ?thesis by simp
qed

text \<open>A master without children that can start none stays as it is.\<close>

lemma sys_stuck:
  assumes "alive s = {}" "forked s = None" "\<And>i. \<not> can_start i (master s)"
  shows "{s'. sys_step race s s'} = {s}"
proof -
  have "s' = s" if "sys_step race s s'" for s'
    using that assms by (cases rule: sys_stepE) (auto simp: sigchld_handler_def)
  moreover have "sys_step race s s"
    using sys_step.sigchld [of "[]" s race] by (simp add: sigchld_handler_def)
  ultimately show ?thesis by blast
qed

section \<open>Properties\<close>

text \<open>C15: As long as no worker dies between \<open>fork\<close> and the recording of its process id, the slots
  marked as running hold exactly the children of the master (and the one just forked), each once,
  and \<open>workers_running\<close> is their number.\<close>

theorem master_knows_workers:
  assumes "sys_reach False s"
  shows "set (slot_pids (workers (master s))) \<union> forked_pids s = alive s
    \<and> distinct (slot_pids (workers (master s)))
    \<and> workers_running (master s) = int (length (slot_pids (workers (master s))))
    \<and> length (workers (master s)) = nat (maxWorker (master s))"
  using sys_reach_inv [OF assms] by (simp add: sys_inv_def master_inv_def slot_pids_def running_def)

lemma master_knows_workers_witness:
  "\<exists>s :: byte sys. sys_reach False s \<and> alive s = {77} \<and> slot_pids (workers (master s)) = [77]
     \<and> workers_running (master s) = 1"
proof -
  let ?e = "\<lparr>fork_pid = 77, fork_time = 5, fork_mypid = 0, fork_ppid = 0\<rparr>"
  define s0 where "s0 = (\<lparr>master = setMaxWorker 2 ((new_process_manager 0)\<lparr>process_mode := PROCESS_MAIN\<rparr>),
     alive = {}, forked = None\<rparr> :: byte sys)"
  define s1 where "s1 = s0\<lparr>alive := insert (fork_pid ?e) (alive s0), forked := Some (0, ?e)\<rparr>"
  define s2 where "s2 = s1\<lparr>master := record_child ?e 0 (master s1), forked := None\<rparr>"
  note defs = s0_def s1_def s2_def setMaxWorker_def new_process_manager_def new_child_def
  have "sys_reach False s0" unfolding s0_def by (rule sys_reach.init)
  moreover have "sys_step False s0 s1" unfolding s1_def
    by (rule sys_step.fork) (simp_all add: defs can_start_def nsca_consts)
  moreover have "sys_step False s1 s2" unfolding s2_def
    by (rule sys_step.record_pid) (simp add: s1_def)
  ultimately have r: "sys_reach False s2" by (blast intro: sys_reach.step)
  have "slot_pids (workers (master s2)) = [77]" "alive s2 = {77}"
    by (simp_all add: defs record_child_def slot_pids_def nsca_consts numeral_eq_Suc)
  with master_knows_workers [OF r] r show ?thesis by auto
qed

text \<open>C34: When a worker dies between \<open>fork\<close> and the recording of its process id, the handler finds no slot
  for it, and the slot is marked as running afterwards. The master can lose all its workers in this
  way: it has no child, counts two, and nothing that can happen changes that.\<close>

theorem workers_lost_by_race:
  "\<exists>s :: 'td sys. sys_reach True s \<and> alive s = {} \<and> workers_running (master s) = 2
     \<and> maxWorker (master s) = 2 \<and> {s'. sys_step True s s'} = {s}
     \<and> (\<forall>es. runWorkers es (master s) = master s)"
proof -
  define s0 where "s0 = (\<lparr>master = setMaxWorker 2 ((new_process_manager 0)\<lparr>process_mode := PROCESS_MAIN\<rparr>),
     alive = {}, forked = None\<rparr> :: 'td sys)"
  let ?e = "\<lambda>p. \<lparr>fork_pid = p, fork_time = 0, fork_mypid = 0, fork_ppid = 0\<rparr>"
  define s1 where "s1 = s0\<lparr>master := record_child (?e 77) 0 (master s0)\<rparr>"
  define s2 where "s2 = s1\<lparr>master := record_child (?e 78) 1 (master s1)\<rparr>"
  note defs = s0_def s1_def s2_def setMaxWorker_def new_process_manager_def new_child_def record_child_def
  have s0: "sys_reach True s0" unfolding s0_def by (rule sys_reach.init)
  have s1: "sys_reach True s1" unfolding s1_def
    by (rule lost_worker_reach [OF s0]) (simp_all add: defs can_start_def nsca_consts reap_one_def numeral_2_eq_2)
  have s2: "sys_reach True s2" unfolding s2_def
    by (rule lost_worker_reach [OF s1]) (simp_all add: defs can_start_def nsca_consts reap_one_def numeral_2_eq_2)
  have "\<not> can_start i (master s2)" for i
    by (auto simp: defs can_start_def nsca_consts numeral_2_eq_2 nth_Cons split: nat.splits)
  then have "{s'. sys_step True s2 s'} = {s2}"
    using sys_stuck [of s2] by (simp add: defs)
  moreover have "runWorkers es (master s2) = master s2" for es
    by (simp add: defs runWorkers_def startChild_def numeral_eq_Suc nsca_consts)
  ultimately show ?thesis using s2 by (intro exI [of _ s2]) (simp add: defs)
qed

text \<open>If every \<open>fork\<close> succeeds, a round of the master without a shutdown request leaves every slot
  running: workers that have died are started again.\<close>

theorem runWorkers_restarts:
  assumes "master_inv pm" "\<not> pm_shutdown pm" "\<forall>i. 0 < fork_pid (es i)"
  shows "workers_running (runWorkers es pm) = maxWorker pm \<or> maxWorker pm < 0"
proof -
  let ?is = "[0..<nat (maxWorker pm)]"
  have es: "\<forall>i \<in> set ?is. i < length (workers pm) \<and> 0 < fork_pid (es i)"
    using assms(1,3) by (simp add: master_inv_def)
  have "fork_pid (es i) \<noteq> 0" for i using assms(3) by (metis less_irrefl)
  with es have ne: "\<forall>i \<in> set ?is. i < length (workers pm) \<and> fork_pid (es i) \<noteq> 0" by blast
  let ?pm = "start_children es ?is pm"
  have run: "runWorkers es pm = ?pm" using assms(1,2) by (simp add: runWorkers_def master_inv_def)
  have inv: "master_inv ?pm" "maxWorker ?pm = maxWorker pm"
    using start_children_inv [OF assms(1) ne] by simp_all
  have "process_state (workers ?pm ! j) = PROCESS_STATE_RUNNING" if "j < nat (maxWorker pm)" for j
    using start_children_running [OF assms(1) es] that by simp
  then have "filter (\<lambda>c. process_state c = PROCESS_STATE_RUNNING) (workers ?pm) = workers ?pm"
    using inv by (auto simp: filter_id_conv in_set_conv_nth master_inv_def)
  then have "running (workers ?pm) = nat (maxWorker pm)"
    using inv by (simp add: running_def master_inv_def)
  then show ?thesis using inv(1) by (auto simp: run master_inv_def)
qed

lemma runWorkers_restarts_witness:
  "workers_running (runWorkers (\<lambda>i. \<lparr>fork_pid = 100 + int i, fork_time = 0, fork_mypid = 0, fork_ppid = 0\<rparr>)
     (setMaxWorker 3 ((new_process_manager 0)\<lparr>process_mode := PROCESS_MAIN\<rparr>) :: byte process_manager)) = 3"
  using runWorkers_restarts [OF master_inv_init [of 3 0],
      of "\<lambda>i. \<lparr>fork_pid = 100 + int i, fork_time = 0, fork_mypid = 0, fork_ppid = 0\<rparr>"]
  by (auto simp: setMaxWorker_def new_process_manager_def)

text \<open>C25: Once a shutdown has been requested the master leaves its loop within 15 rounds, whatever
  signals arrive; if it leaves it by itself, then no worker is running any more or every slot has
  been sent \<open>SIGKILL\<close>.\<close>

theorem manager_loop_terminates:
  assumes "pm_shutdown pm" "master_inv pm" "\<forall>(es, ss) \<in> set rounds. list_all signal_ok ss"
    and "15 \<le> length rounds"
  shows "case manager_loop rounds 0 pm of
      Out_of_rounds \<Rightarrow> False
    | Loop_exit x \<Rightarrow> True
    | Loop_done pm' out \<Rightarrow> workers_running pm' = 0 \<and> out = [] \<or> out = killChilds SIGKILL pm'"
proof -
  have "manager_loop rounds 0 pm \<noteq> Out_of_rounds"
    using assms by (intro manager_loop_ends) (auto simp: max_wait_for_shutdown_def)
  with manager_loop_result [of rounds 0 pm] show ?thesis by (cases "manager_loop rounds 0 pm") auto
qed

lemma manager_loop_terminates_witness:
  "case manager_loop (replicate 15 (\<lambda>_. \<lparr>fork_pid = 9, fork_time = 0, fork_mypid = 0, fork_ppid = 0\<rparr>, [Sig_chld []])) 0
     ((setMaxWorker 2 ((new_process_manager 0)\<lparr>process_mode := PROCESS_MAIN\<rparr>) :: byte process_manager)
       \<lparr>pm_shutdown := True\<rparr>) of
     Out_of_rounds \<Rightarrow> False | Loop_exit x \<Rightarrow> True
   | Loop_done pm' out \<Rightarrow> workers_running pm' = 0 \<and> out = [] \<or> out = killChilds SIGKILL pm'"
proof (rule manager_loop_terminates)
  show "master_inv ((setMaxWorker 2 ((new_process_manager 0)\<lparr>process_mode := PROCESS_MAIN\<rparr>) :: byte process_manager)
      \<lparr>pm_shutdown := True\<rparr>)"
    using master_inv_init [of 2 0] by (simp add: master_inv_def)
qed simp_all

text \<open>C28: A worker drops its group before its user, goes on only after every change it was configured
  to make has succeeded, and changes nothing else.\<close>

theorem super_downgrade_order:
  assumes "super_downgrade getgr getpw set_ok cfg = (calls, Inr cfg')"
  shows "calls = (case (Get cfg ''nsca_group'' [], getgr (c_str (Get cfg ''nsca_group'' []))) of
                    ([], _) \<Rightarrow> [] | (_, Some g) \<Rightarrow> [Setgid g] | (_, None) \<Rightarrow> [])
               @ (case (Get cfg ''nsca_user'' [], getpw (c_str (Get cfg ''nsca_user'' []))) of
                    ([], _) \<Rightarrow> [] | (_, Some u) \<Rightarrow> [Setuid u] | (_, None) \<Rightarrow> [])
    \<and> list_all set_ok calls
    \<and> (Get cfg ''nsca_group'' [] \<noteq> [] \<longrightarrow> getgr (c_str (Get cfg ''nsca_group'' [])) \<noteq> None)
    \<and> (Get cfg ''nsca_user'' [] \<noteq> [] \<longrightarrow> getpw (c_str (Get cfg ''nsca_user'' [])) \<noteq> None)"
  using assms
  by (cases "Get cfg ''nsca_group'' []"; cases "Get cfg ''nsca_user'' []";
      cases "getgr (c_str (Get cfg ''nsca_group'' []))"; cases "getpw (c_str (Get cfg ''nsca_user'' []))")
    (auto simp: super_downgrade_def Let_def split: if_splits)

lemma super_downgrade_order_witness:
  "\<exists>cfg'. super_downgrade (\<lambda>_. Some 33) (\<lambda>_. Some 44) (\<lambda>_. True)
      (Set ''nsca_user'' ''u'' (Set ''nsca_group'' ''g'' new_config)) = ([Setgid 33, Setuid 44], Inr cfg')"
proof -
  let ?cfg = "Set ''nsca_user'' ''u'' (Set ''nsca_group'' ''g'' new_config)"
  obtain calls cfg' where d: "super_downgrade (\<lambda>_. Some 33) (\<lambda>_. Some 44) (\<lambda>_. True) ?cfg = (calls, Inr cfg')"
    by (simp add: super_downgrade_def Let_def)
  from super_downgrade_order [OF d] d show ?thesis by simp
qed

section \<open>A worker that comes back from its work\<close>

text \<open>
  A child that \<open>loop\<close> has started returns from \<open>work\<close> into \<open>startChild\<close>, \<open>runWorkers\<close> and then the
  loop of the master, whose guards test its own mode.
\<close>

lemma signal_received_child:
  assumes "process_mode pm = PROCESS_CHILD" "\<not> pm_shutdown pm" "s \<noteq> Sig_usr1"
  shows "\<exists>pm'. signal_received s pm = Inr (pm', []) \<and> process_mode pm' = PROCESS_CHILD \<and> \<not> pm_shutdown pm'"
proof (cases s)
  case (Sig_chld ps)
  have "process_mode (foldl (\<lambda>pm p. reap_one p pm) q ps) = process_mode q
      \<and> pm_shutdown (foldl (\<lambda>pm p. reap_one p pm) q ps) = pm_shutdown q" for q :: "'a process_manager"
    by (induction ps arbitrary: q) (simp_all add: reap_one_def Let_def split: option.split)
  with Sig_chld assms show ?thesis by (simp add: signal_received_def sigchld_handler_def)
qed (use assms in \<open>simp_all add: signal_received_def sigint_handler_def nsca_consts\<close>)

lemma signals_received_child:
  assumes "process_mode pm = PROCESS_CHILD" "\<not> pm_shutdown pm" "Sig_usr1 \<notin> set sigs"
  shows "\<exists>pm'. signals_received sigs pm = Inr (pm', []) \<and> process_mode pm' = PROCESS_CHILD \<and> \<not> pm_shutdown pm'"
  using assms
proof (induction sigs arbitrary: pm)
  case Nil
  then show ?case by simp
next
  case (Cons s sigs)
  then obtain pm1 where 1: "signal_received s pm = Inr (pm1, [])" "process_mode pm1 = PROCESS_CHILD"
      "\<not> pm_shutdown pm1"
    using signal_received_child [of pm s] by auto
  with Cons.IH [OF 1(2,3)] Cons.prems(3) show ?case by auto
qed

lemma manager_loop_child:
  assumes "process_mode pm = PROCESS_CHILD" "\<not> pm_shutdown pm"
    and "\<forall>(es, sigs) \<in> set rounds. Sig_usr1 \<notin> set sigs"
  shows "manager_loop rounds k pm = Out_of_rounds"
  using assms
proof (induction rounds arbitrary: k pm)
  case Nil
  then show ?case by simp
next
  case (Cons r rounds)
  obtain es sigs where r: "r = (es, sigs)" by (cases r)
  with Cons.prems obtain pm1 where "signals_received sigs pm = Inr (pm1, [])"
      "process_mode pm1 = PROCESS_CHILD" "\<not> pm_shutdown pm1"
    using signals_received_child [of pm sigs] by auto
  moreover have "runWorkers es pm = pm" using Cons.prems(1) by (simp add: runWorkers_def nsca_consts)
  ultimately show ?case using Cons.IH [of pm1 k] Cons.prems by (simp add: r Let_def)
qed



text \<open>Between the loss of a worker and its restart its slot holds process id 0, and \<open>killChilds\<close>
  then sends the signal to process 0, which is the master's whole process group.\<close>

theorem killChilds_empty_slot:
  assumes "master_inv pm" "workers_running pm < maxWorker pm"
  shows "(0, s) \<in> set (killChilds s pm)"
proof -
  have "length (filter (\<lambda>c. process_state c = PROCESS_STATE_RUNNING) (workers pm)) < length (workers pm)"
    using assms by (simp add: master_inv_def running_def)
  then have "filter (\<lambda>c. process_state c = PROCESS_STATE_RUNNING) (workers pm) \<noteq> workers pm" by auto
  then obtain c where c: "c \<in> set (workers pm)" "process_state c \<noteq> PROCESS_STATE_RUNNING"
    by (auto simp: filter_id_conv)
  then have "pid c = 0" using assms(1) by (auto simp: master_inv_def list_all_iff slot_ok_def)
  moreover obtain i where "i < length (workers pm)" "workers pm ! i = c"
    using c(1) by (auto simp: in_set_conv_nth)
  ultimately show ?thesis using assms(1) by (force simp: killChilds_def master_inv_def)
qed

lemma killChilds_empty_slot_witness:
  "(0, SIGUSR1) \<in> set (killChilds SIGUSR1
     (setMaxWorker 2 ((new_process_manager 0)\<lparr>process_mode := PROCESS_MAIN\<rparr>) :: byte process_manager))"
  by (rule killChilds_empty_slot [OF master_inv_init]) (simp add: setMaxWorker_def new_process_manager_def)

end
