(* ===== verification/Nsca_Threads.thy ===== *)
theory Nsca_Threads
  imports Nsca_Client
begin

text \<open>
  \<open>crypt_thread_t.cpp\<close> and \<open>threadManager.cpp\<close>: the threads that process the queues of closed
  connections, and the round robin that hands them out. A thread is a step relation: \<open>tpc\<close> is the
  point of \<open>crypt_thread_t::loop\<close> it has reached, and the calls \<open>add\<close> and \<open>join\<close> of the event
  loop's thread are steps of their own, interleaved with it. The mutex is held between \<open>T_check\<close>
  and \<open>T_block\<close> only; \<open>add\<close> has to wait for it, \<open>join\<close> does not take it.
\<close>

section \<open>Jobs\<close>

definition THREADMANAGER_METHOD_COMPUTE_HANDSHAKE :: int where [nsca_consts]:
  "THREADMANAGER_METHOD_COMPUTE_HANDSHAKE = 1"
definition THREADMANAGER_METHOD_DECRYPT_PACKET :: int where [nsca_consts]:
  "THREADMANAGER_METHOD_DECRYPT_PACKET = 2"

record 'c crypt_queue_item =
  job_method :: int
  networkClient :: 'c

text \<open>
  What the loop does with a job: the crypt instance of the thread is given to the client, whose
  queue is then processed with it. \<open>None\<close> is undefined behaviour in the processing. A client with
  an instance of its own keeps it; then \<open>own\<close> is that instance.
\<close>

definition run_job ::
    "'td mcrypt \<Rightarrow> bool \<Rightarrow> (nat \<Rightarrow> send_env) \<Rightarrow> nat \<Rightarrow> 'td network_client crypt_queue_item \<Rightarrow>
     'td crypt_instance option \<times> 'td network \<times> world \<Rightarrow>
     ('td crypt_instance option \<times> 'td network \<times> world) option" where
  "run_job lib alloc env tid item = (\<lambda>(tCI, n, w).
     (if job_method item = THREADMANAGER_METHOD_DECRYPT_PACKET \<and> tCI \<noteq> None
      then
        let c = set_CI CI_thread (networkClient item)
        in (if has_own_CI c
            then (case process_queue lib alloc env tid (own_CI c) (n, c, w) of
                    None \<Rightarrow> None
                  | Some (_, (n1, _, w1)) \<Rightarrow> Some (tCI, n1, w1))
            else (case process_queue lib alloc env tid tCI (n, c, w) of
                    None \<Rightarrow> None
                  | Some (tCI1, (n1, _, w1)) \<Rightarrow> Some (tCI1, n1, w1)))
      else Some (tCI, n, w)))"

section \<open>One thread\<close>

text \<open>
  \<open>T_lock\<close>: about to lock, at the top of the loop or after a wake-up; \<open>T_check\<close>: evaluating the
  predicate; \<open>T_block\<close>: it was false, about to release the mutex and sleep; \<open>T_wait\<close>: asleep;
  \<open>T_run\<close>: processing a job; \<open>T_test\<close>: at the condition of the loop; \<open>T_done\<close>: finished.
  \<open>joiner\<close> is how far \<open>join\<close> has come. \<open>added\<close> and \<open>finished\<close> record the jobs handed over and
  those the thread is done with.
\<close>

datatype 'j tpc = T_lock | T_check | T_block | T_wait | T_run 'j | T_test | T_done

datatype joiner = J_none | J_flag_set | J_notified

record 'j crypt_thread =
  tpc :: "'j tpc"
  queue_items :: "'j list"
  shutdown_flag :: bool
  notifying :: bool
  joiner :: joiner
  added :: "'j list"
  finished :: "'j list"

definition new_crypt_thread :: "'j crypt_thread" where
  "new_crypt_thread =
     \<lparr>tpc = T_lock, queue_items = [], shutdown_flag = False, notifying = False, joiner = J_none,
      added = [], finished = []\<rparr>"

definition holds_mutex :: "'j crypt_thread \<Rightarrow> bool" where
  "holds_mutex t \<longleftrightarrow> tpc t = T_check \<or> tpc t = T_block"

text \<open>\<open>add\<close>: the push under the mutex, then \<open>notify_one\<close>.\<close>

definition ct_push :: "'j \<Rightarrow> 'j crypt_thread \<Rightarrow> 'j crypt_thread" where
  "ct_push j t = t\<lparr>queue_items := queue_items t @ [j], added := added t @ [j], notifying := True\<rparr>"

definition ct_wake :: "'j crypt_thread \<Rightarrow> 'j crypt_thread" where
  "ct_wake t = (if tpc t = T_wait then t\<lparr>tpc := T_lock\<rparr> else t)"

text \<open>One step of the loop of the thread (\<open>None\<close>: it cannot move by itself).\<close>

definition ct_loop_step :: "'j crypt_thread \<Rightarrow> 'j crypt_thread option" where
  "ct_loop_step t =
     (case tpc t of
        T_lock \<Rightarrow> Some (t\<lparr>tpc := T_check\<rparr>)
      | T_check \<Rightarrow>
          if queue_items t = [] \<and> \<not> shutdown_flag t then Some (t\<lparr>tpc := T_block\<rparr>)
          else (case queue_items t of
                  [] \<Rightarrow> Some (t\<lparr>tpc := T_test\<rparr>)
                | j # js \<Rightarrow> Some (t\<lparr>tpc := T_run j, queue_items := js\<rparr>))
      | T_block \<Rightarrow> Some (t\<lparr>tpc := T_wait\<rparr>)
      | T_wait \<Rightarrow> None
      | T_run j \<Rightarrow> Some (t\<lparr>tpc := T_test, finished := finished t @ [j]\<rparr>)
      | T_test \<Rightarrow> Some (t\<lparr>tpc := (if shutdown_flag t then T_done else T_lock)\<rparr>)
      | T_done \<Rightarrow> None)"

text \<open>
  All steps. \<open>spurious\<close> is a wake-up without a notification, which the standard allows. The
  event loop's thread does one call at a time and calls \<open>join\<close> last.
\<close>

inductive ct_step :: "'j crypt_thread \<Rightarrow> 'j crypt_thread \<Rightarrow> bool" where
  loop_step: "ct_loop_step t = Some t' \<Longrightarrow> ct_step t t'"
| spurious: "tpc t = T_wait \<Longrightarrow> ct_step t (ct_wake t)"
| add_push: "\<not> holds_mutex t \<Longrightarrow> \<not> notifying t \<Longrightarrow> joiner t = J_none \<Longrightarrow> ct_step t (ct_push j t)"
| add_notify: "notifying t \<Longrightarrow> ct_step t (ct_wake (t\<lparr>notifying := False\<rparr>))"
| join_flag: "\<not> notifying t \<Longrightarrow> joiner t = J_none \<Longrightarrow>
    ct_step t (t\<lparr>shutdown_flag := True, joiner := J_flag_set\<rparr>)"
| join_notify: "joiner t = J_flag_set \<Longrightarrow> ct_step t (ct_wake (t\<lparr>joiner := J_notified\<rparr>))"

inductive ct_reach :: "'j crypt_thread \<Rightarrow> bool" where
  init: "ct_reach new_crypt_thread"
| step: "ct_reach t \<Longrightarrow> ct_step t t' \<Longrightarrow> ct_reach t'"

inductive_cases ct_stepE: "ct_step t t'"

definition in_progress :: "'j crypt_thread \<Rightarrow> 'j list" where
  "in_progress t = (case tpc t of T_run j \<Rightarrow> [j] | _ \<Rightarrow> [])"

definition ct_inv :: "'j crypt_thread \<Rightarrow> bool" where
  "ct_inv t \<longleftrightarrow>
     finished t @ in_progress t @ queue_items t = added t
     \<and> (tpc t = T_block \<or> tpc t = T_wait \<longrightarrow> queue_items t = [] \<or> notifying t)
     \<and> (tpc t = T_block \<longrightarrow> queue_items t = [])
     \<and> (tpc t = T_done \<longrightarrow> shutdown_flag t)
     \<and> (shutdown_flag t \<longleftrightarrow> joiner t \<noteq> J_none)"

lemma ct_inv_loop_step: "ct_inv t \<Longrightarrow> ct_loop_step t = Some t' \<Longrightarrow> ct_inv t'"
  by (cases "tpc t"; cases "queue_items t")
    (auto simp: ct_loop_step_def ct_inv_def in_progress_def split: if_splits)

lemma ct_wake_simps [simp]:
  "queue_items (ct_wake t) = queue_items t" "added (ct_wake t) = added t"
  "finished (ct_wake t) = finished t" "shutdown_flag (ct_wake t) = shutdown_flag t"
  "notifying (ct_wake t) = notifying t" "joiner (ct_wake t) = joiner t"
  "in_progress (ct_wake t) = in_progress t"
  "tpc (ct_wake t) = (if tpc t = T_wait then T_lock else tpc t)"
  by (simp_all add: ct_wake_def in_progress_def)

lemma in_progress_update [simp]:
  "in_progress (t\<lparr>notifying := b\<rparr>) = in_progress t" "in_progress (t\<lparr>joiner := k\<rparr>) = in_progress t"
  "in_progress (t\<lparr>shutdown_flag := b\<rparr>) = in_progress t" "in_progress (t\<lparr>added := js\<rparr>) = in_progress t"
  "in_progress (t\<lparr>queue_items := js\<rparr>) = in_progress t"
  by (simp_all add: in_progress_def)

lemma ct_inv_step: "ct_inv t \<Longrightarrow> ct_step t t' \<Longrightarrow> ct_inv t'"
  by (erule ct_stepE) (auto simp: ct_inv_loop_step, auto simp: ct_inv_def ct_push_def holds_mutex_def)

lemma ct_reach_inv: "ct_reach t \<Longrightarrow> ct_inv t"
proof (induction rule: ct_reach.induct)
  case init
  then show ?case by (simp add: ct_inv_def new_crypt_thread_def in_progress_def)
next
  case (step t t')
  then show ?case by (blast intro: ct_inv_step)
qed

text \<open>The loop on its own, \<open>k\<close> steps.\<close>

fun ct_loop :: "nat \<Rightarrow> 'j crypt_thread \<Rightarrow> 'j crypt_thread option" where
  "ct_loop 0 t = Some t"
| "ct_loop (Suc k) t = (case ct_loop_step t of None \<Rightarrow> None | Some t' \<Rightarrow> ct_loop k t')"

lemma ct_loop_add: "ct_loop (k + m) t = (case ct_loop k t of None \<Rightarrow> None | Some t' \<Rightarrow> ct_loop m t')"
  by (induction k arbitrary: t) (auto split: option.splits)

lemma ct_loop_reach: "ct_reach t \<Longrightarrow> ct_loop k t = Some t' \<Longrightarrow> ct_reach t'"
  by (induction k arbitrary: t) (auto split: option.splits intro: ct_reach.step ct_step.loop_step)

text \<open>One job takes four steps of the loop.\<close>

lemma ct_loop_job:
  assumes "tpc t = T_lock" "queue_items t = j # js" "\<not> shutdown_flag t"
  shows "ct_loop 4 t = Some (t\<lparr>queue_items := js, finished := finished t @ [j]\<rparr>)"
  using assms by (cases t) (simp add: ct_loop_step_def numeral_eq_Suc)

lemma ct_loop_drains:
  assumes "tpc t = T_lock" "\<not> shutdown_flag t"
  shows "ct_loop (4 * length (queue_items t)) t
       = Some (t\<lparr>queue_items := [], finished := finished t @ queue_items t\<rparr>)"
  using assms
proof (induction "queue_items t" arbitrary: t)
  case Nil
  then show ?case by (cases t) simp
next
  case (Cons j js)
  let ?t = "t\<lparr>queue_items := js, finished := finished t @ [j]\<rparr>"
  have "ct_loop 4 t = Some ?t" using Cons.prems Cons.hyps(2) by (intro ct_loop_job) simp_all
  moreover have "ct_loop (4 * length js) ?t = Some (?t\<lparr>queue_items := [], finished := finished ?t @ js\<rparr>)"
    using Cons.hyps(1) [of ?t] Cons.prems by simp
  ultimately have "ct_loop (4 + 4 * length js) t = Some (?t\<lparr>queue_items := [], finished := finished ?t @ js\<rparr>)"
    by (simp only: ct_loop_add option.case)
  moreover have "4 * length (queue_items t) = 4 + 4 * length js" using Cons.hyps(2) by (simp flip: Cons.hyps(2))
  ultimately show ?case by (simp flip: Cons.hyps(2))
qed

text \<open>After a request to stop it is one job more, whatever is in the queue.\<close>

lemma ct_loop_last_job:
  assumes "tpc t = T_lock" "shutdown_flag t" "queue_items t = j # js"
  shows "ct_loop 4 t = Some (t\<lparr>tpc := T_done, queue_items := js, finished := finished t @ [j]\<rparr>)"
  using assms by (cases t) (simp add: ct_loop_step_def numeral_eq_Suc)

inductive ct_steps :: "'j crypt_thread \<Rightarrow> 'j crypt_thread \<Rightarrow> bool" where
  no_step: "ct_steps t t"
| more_steps: "ct_steps t t' \<Longrightarrow> ct_step t' t'' \<Longrightarrow> ct_steps t t''"

lemma ct_done_stays:
  assumes "ct_steps t t'" "tpc t = T_done"
  shows "tpc t' = T_done \<and> finished t' = finished t"
  using assms
  by (induction rule: ct_steps.induct)
    (auto elim!: ct_stepE simp: ct_loop_step_def ct_push_def ct_wake_def)

section \<open>The interface of a job queue\<close>

text \<open>What the manager needs of a thread: a job that is handed over comes last.\<close>

locale job_queue =
  fixes push :: "'j \<Rightarrow> 'q \<Rightarrow> 'q"
    and jobs :: "'q \<Rightarrow> 'j list"
  assumes jobs_push: "jobs (push j q) = jobs q @ [j]"
begin

fun deal :: "nat \<Rightarrow> 'j list \<Rightarrow> 'q list \<Rightarrow> 'q list" where
  "deal k [] qs = qs"
| "deal k (j # js) qs =
     deal (Suc k) js (qs[k mod length qs := push j (qs ! (k mod length qs))])"

lemma length_deal [simp]: "length (deal k js qs) = length qs"
  by (induction k js qs rule: deal.induct) simp_all

text \<open>The jobs a queue gets from a round robin: those at its positions.\<close>

lemma deal_jobs:
  "i < length qs \<Longrightarrow>
   jobs (deal k js qs ! i) = jobs (qs ! i) @ nths js {x. (k + x) mod length qs = i}"
proof (induction k js qs rule: deal.induct)
  case (1 k qs)
  then show ?case by simp
next
  case (2 k j js qs)
  then show ?case
    by (cases "k mod length qs = i") (simp_all add: jobs_push nths_Cons)
qed

end

interpretation thread_queue: job_queue ct_push added
  by unfold_locales (simp add: ct_push_def)

section \<open>The thread manager\<close>

record ('j, 'td) thread_manager =
  max_crypt_threads :: int
  crypt_threads :: "('j crypt_thread \<times> 'td crypt_instance option) list option"
  lazy_job_counter :: int
  shared_transmitted_iv :: "byte list"

text \<open>
  A \<open>crypt_thread_t\<close> together with its member \<open>CI\<close> is a pair. Its destructor deletes the \<open>std::thread\<close>;
  when that has not been joined, which waits for its end, the program is terminated: the result is
  whether it goes on.
\<close>

definition ct_set_CI ::
    "'td crypt_instance option \<Rightarrow> 'j crypt_thread \<times> 'td crypt_instance option \<Rightarrow>
     'j crypt_thread \<times> 'td crypt_instance option" where
  [simp]: "ct_set_CI myCI tc = (fst tc, myCI)"

definition ct_get_CI :: "'j crypt_thread \<times> 'td crypt_instance option \<Rightarrow> 'td crypt_instance option" where
  [simp]: "ct_get_CI tc = snd tc"

definition delete_crypt_thread :: "'j crypt_thread \<times> 'td crypt_instance option \<Rightarrow> bool" where
  "delete_crypt_thread tc \<longleftrightarrow> tpc (fst tc) = T_done"

text \<open>\<open>rand\<close>, \<open>urandom\<close> and \<open>time\<close> are those of \<open>generate_transmitted_iv_secure\<close>.\<close>

definition new_thread_manager ::
    "(int \<Rightarrow> nat \<Rightarrow> nat) \<Rightarrow> int option \<Rightarrow> int \<Rightarrow> config \<Rightarrow> ('j, 'td) thread_manager" where
  "new_thread_manager rand urandom time cfg =
     \<lparr>max_crypt_threads = c_int (GetInt cfg ''nsca_threads_per_worker'' 0), crypt_threads = None,
      lazy_job_counter = 0,
      shared_transmitted_iv = generate_transmitted_iv_secure rand urandom time\<rparr>"

text \<open>The one instance: \<open>new_tm\<close> is what the constructor makes, when there is none yet.\<close>

definition threadManager_getInstance ::
    "('j, 'td) thread_manager \<Rightarrow> ('j, 'td) thread_manager option \<Rightarrow>
     ('j, 'td) thread_manager option \<times> ('j, 'td) thread_manager" where
  "threadManager_getInstance new_tm i = (case i of None \<Rightarrow> (Some new_tm, new_tm) | Some tm \<Rightarrow> (i, tm))"

text \<open>
  \<open>start\<close>: one thread and one crypt instance each. The result of \<open>encrypt_init\<close> is ignored; what
  it left in \<open>lCI\<close> is used. \<open>mem i\<close> are the allocations for thread \<open>i\<close>. (\<open>None\<close>: a negative
  number of threads, for which \<open>new[]\<close> throws.)
\<close>

definition thread_manager_start ::
    "'td mcrypt \<Rightarrow> (nat \<Rightarrow> alloc_site \<Rightarrow> bool) \<Rightarrow> config \<Rightarrow> rnd \<Rightarrow> ('j, 'td) thread_manager \<Rightarrow>
     ('j, 'td) thread_manager option" where
  "thread_manager_start lib mem cfg r tm =
     (if crypt_threads tm \<noteq> None then Some tm
      else if max_crypt_threads tm < 0 then None
      else
        let m = c_int (GetInt cfg ''decryption_method'' 0);
            pw = Get cfg ''password'' []
        in Some (tm\<lparr>crypt_threads :=
             Some (map (\<lambda>i. ct_set_CI
                            (fst (snd (encrypt_init lib (mem i) pw m (Some (shared_transmitted_iv tm)) r)))
                            (new_crypt_thread, None))
                   [0..<nat (max_crypt_threads tm)])\<rparr>))"

text \<open>
  \<open>add_job\<close>. \<open>None\<close> is the undefined behaviour of an index outside the array.
\<close>

definition add_job :: "'j \<Rightarrow> ('j, 'td) thread_manager \<Rightarrow> ('j, 'td) thread_manager option" where
  "add_job j tm =
     (case crypt_threads tm of
        None \<Rightarrow> Some tm
      | Some ts \<Rightarrow>
          let i = (if max_crypt_threads tm \<le> lazy_job_counter tm then 0 else lazy_job_counter tm)
          in if 0 \<le> i \<and> i < int (length ts)
             then Some (tm\<lparr>crypt_threads :=
                          Some (ts[nat i := (ct_push j (fst (ts ! nat i)), snd (ts ! nat i))]),
                        lazy_job_counter := i + 1\<rparr>)
             else None)"

fun add_jobs :: "'j list \<Rightarrow> ('j, 'td) thread_manager \<Rightarrow> ('j, 'td) thread_manager option" where
  "add_jobs [] tm = Some tm"
| "add_jobs (j # js) tm = (case add_job j tm of None \<Rightarrow> None | Some tm' \<Rightarrow> add_jobs js tm')"

text \<open>
  \<open>threadManager::join\<close>: every thread is joined, which waits until it is done, then its crypt
  instance is cleaned up. The threads are given as the calls of \<open>join\<close> find them once they have
  waited: \<open>Join_blocked\<close> when one of them never ends.
\<close>

datatype join_end = Joined "cleanup_call list" | Join_blocked | Join_undefined

fun join_threads ::
    "bool \<Rightarrow> int \<Rightarrow> ('j crypt_thread \<times> 'td crypt_instance option) list \<Rightarrow> join_end" where
  "join_threads initialized m [] = Joined []"
| "join_threads initialized m ((t, CIp) # ts) =
     (if tpc t \<noteq> T_done then Join_blocked
      else (case encrypt_cleanup initialized m (ct_get_CI (t, CIp)) of
              None \<Rightarrow> Join_undefined
            | Some calls \<Rightarrow>
                (case join_threads initialized m ts of
                   Joined cs \<Rightarrow> Joined (calls @ cs)
                 | Join_blocked \<Rightarrow> Join_blocked
                 | Join_undefined \<Rightarrow> Join_undefined)))"

definition thread_manager_join :: "bool \<Rightarrow> config \<Rightarrow> ('j, 'td) thread_manager \<Rightarrow> join_end" where
  "thread_manager_join initialized cfg tm =
     (case crypt_threads tm of
        None \<Rightarrow> Joined []
      | Some ts \<Rightarrow> join_threads initialized (c_int (GetInt cfg ''decryption_method'' 0)) ts)"

text \<open>
  The destructor: how many threads it deletes; \<open>None\<close> when deleting one of them terminates the program.
\<close>

definition delete_thread_manager :: "('j, 'td) thread_manager \<Rightarrow> nat option" where
  "delete_thread_manager tm =
     (case crypt_threads tm of
        None \<Rightarrow> Some 0
      | Some ts \<Rightarrow>
          if list_all delete_crypt_thread (take (nat (max_crypt_threads tm)) ts)
          then Some (length (take (nat (max_crypt_threads tm)) ts)) else None)"

definition manager_inv :: "('j, 'td) thread_manager \<Rightarrow> bool" where
  "manager_inv tm \<longleftrightarrow>
     (\<exists>ts. crypt_threads tm = Some ts \<and> ts \<noteq> [] \<and> int (length ts) = max_crypt_threads tm)
     \<and> 0 \<le> lazy_job_counter tm \<and> lazy_job_counter tm \<le> max_crypt_threads tm"

lemma manager_inv_pos: "manager_inv tm \<Longrightarrow> 0 < max_crypt_threads tm"
  unfolding manager_inv_def by (metis length_greater_0_conv of_nat_0_less_iff)

lemma manager_inv_start:
  assumes "thread_manager_start lib mem cfg r (new_thread_manager rand u t cfg) = Some tm"
    and "0 < c_int (GetInt cfg ''nsca_threads_per_worker'' 0)"
  shows "manager_inv tm"
  using assms
  by (auto simp: thread_manager_start_def new_thread_manager_def manager_inv_def Let_def split: if_splits)

definition threads_of :: "('j, 'td) thread_manager \<Rightarrow> 'j crypt_thread list" where
  "threads_of tm = (case crypt_threads tm of None \<Rightarrow> [] | Some ts \<Rightarrow> map fst ts)"

text \<open>One call is one step of the round robin.\<close>

lemma add_job_deal:
  assumes "manager_inv tm"
  obtains tm' where "add_job j tm = Some tm'" "manager_inv tm'"
    "lazy_job_counter tm' = (let c = lazy_job_counter tm in if max_crypt_threads tm \<le> c then 1 else c + 1)"
    "max_crypt_threads tm' = max_crypt_threads tm"
    "threads_of tm' = (let k = nat (lazy_job_counter tm) mod length (threads_of tm)
                       in (threads_of tm)[k := ct_push j (threads_of tm ! k)])"
proof -
  obtain ts where ts: "crypt_threads tm = Some ts" "ts \<noteq> []" "int (length ts) = max_crypt_threads tm"
    and c: "0 \<le> lazy_job_counter tm" "lazy_job_counter tm \<le> max_crypt_threads tm"
    using assms by (auto simp: manager_inv_def)
  define i where "i = (if max_crypt_threads tm \<le> lazy_job_counter tm then 0 else lazy_job_counter tm)"
  have i: "0 \<le> i" "i < int (length ts)"
    using ts c manager_inv_pos [OF assms] by (auto simp: i_def)
  have m: "nat i = nat (lazy_job_counter tm) mod length ts"
  proof (cases "max_crypt_threads tm \<le> lazy_job_counter tm")
    case True
    then have "nat (lazy_job_counter tm) = length ts" using c ts(3) by simp
    with True show ?thesis by (simp add: i_def)
  next
    case False
    then have "nat (lazy_job_counter tm) < length ts" using c ts(3) by simp
    with False show ?thesis by (simp add: i_def)
  qed
  let ?tm = "tm\<lparr>crypt_threads := Some (ts[nat i := (ct_push j (fst (ts ! nat i)), snd (ts ! nat i))]),
      lazy_job_counter := i + 1\<rparr>"
  show thesis
  proof (rule that [of ?tm])
    show "add_job j tm = Some ?tm" using ts(1) i by (simp add: add_job_def flip: i_def)
    show "manager_inv ?tm" using ts i by (simp add: manager_inv_def)
    show "threads_of ?tm = (let k = nat (lazy_job_counter tm) mod length (threads_of tm)
                            in (threads_of tm)[k := ct_push j (threads_of tm ! k)])"
      using ts(1) i by (simp add: threads_of_def map_update Let_def flip: m)
  qed (simp_all add: i_def)
qed

lemma add_jobs_deal:
  assumes "manager_inv tm" "k mod nat (max_crypt_threads tm) = nat (lazy_job_counter tm) mod nat (max_crypt_threads tm)"
  shows "\<exists>tm'. add_jobs js tm = Some tm' \<and> manager_inv tm'
    \<and> threads_of tm' = thread_queue.deal k js (threads_of tm)"
  using assms
proof (induction js arbitrary: tm k)
  case Nil
  then show ?case by simp
next
  case (Cons j js)
  obtain tm1 where 1: "add_job j tm = Some tm1" "manager_inv tm1"
      "lazy_job_counter tm1 = (let c = lazy_job_counter tm in if max_crypt_threads tm \<le> c then 1 else c + 1)"
      "max_crypt_threads tm1 = max_crypt_threads tm"
      "threads_of tm1 = (let k = nat (lazy_job_counter tm) mod length (threads_of tm)
                         in (threads_of tm)[k := ct_push j (threads_of tm ! k)])"
    using add_job_deal [OF Cons.prems(1)] .
  let ?m = "nat (max_crypt_threads tm)"
  have len: "length (threads_of tm) = ?m" "0 < ?m" and c: "0 \<le> lazy_job_counter tm"
      "lazy_job_counter tm \<le> max_crypt_threads tm"
    using Cons.prems(1) manager_inv_pos [OF Cons.prems(1)]
    by (auto simp: manager_inv_def threads_of_def)
  have "Suc k mod ?m = Suc (nat (lazy_job_counter tm)) mod ?m"
    using Cons.prems(2) by (metis mod_Suc_eq)
  also have "\<dots> = nat (lazy_job_counter tm1) mod ?m"
  proof (cases "max_crypt_threads tm \<le> lazy_job_counter tm")
    case True
    with c 1(3) show ?thesis by (simp add: mod_Suc)
  next
    case False
    with c 1(3) show ?thesis by (simp add: nat_add_distrib)
  qed
  finally have "Suc k mod nat (max_crypt_threads tm1) = nat (lazy_job_counter tm1) mod nat (max_crypt_threads tm1)"
    using 1(4) by simp
  with Cons.IH [OF 1(2)] 1(1,5) len Cons.prems(2) show ?case by (simp add: Let_def)
qed

section \<open>Properties\<close>

text \<open>C16: In every interleaving the jobs a thread has finished, the one it is working on and those in
  its queue are, in this order, the jobs it was given: none is lost, doubled or overtaken. The
  thread sleeps on a non-empty queue only until the pending notification arrives, and ends only
  when it has been asked to.\<close>

theorem thread_jobs_in_order:
  assumes "ct_reach t"
  shows "finished t @ in_progress t @ queue_items t = added t
    \<and> (queue_items t \<noteq> [] \<and> ct_loop_step t = None \<longrightarrow> notifying t \<or> tpc t = T_done)
    \<and> (tpc t = T_done \<longrightarrow> joiner t \<noteq> J_none)"
  using ct_reach_inv [OF assms]
  by (auto simp: ct_inv_def ct_loop_step_def split: tpc.splits if_splits list.splits)

lemma ct_reach_two: "ct_reach (ct_push (2 :: nat) ((ct_push 1 new_crypt_thread)\<lparr>notifying := False\<rparr>))"
proof -
  have a: "ct_reach (ct_push (1 :: nat) new_crypt_thread)"
    by (rule ct_reach.step [OF ct_reach.init ct_step.add_push])
      (simp_all add: new_crypt_thread_def holds_mutex_def)
  have "ct_step (ct_push (1 :: nat) new_crypt_thread) ((ct_push 1 new_crypt_thread)\<lparr>notifying := False\<rparr>)"
    using ct_step.add_notify [of "ct_push (1 :: nat) new_crypt_thread"]
    by (simp add: ct_push_def ct_wake_def new_crypt_thread_def)
  with a have b: "ct_reach ((ct_push (1 :: nat) new_crypt_thread)\<lparr>notifying := False\<rparr>)"
    by (rule ct_reach.step)
  show ?thesis
    by (rule ct_reach.step [OF b ct_step.add_push])
      (simp_all add: new_crypt_thread_def holds_mutex_def ct_push_def)
qed

lemma thread_jobs_in_order_witness:
  "queue_items (ct_push (2 :: nat) ((ct_push 1 new_crypt_thread)\<lparr>notifying := False\<rparr>)) = [1, 2]"
  using thread_jobs_in_order [OF ct_reach_two]
  by (simp add: ct_push_def new_crypt_thread_def in_progress_def)

text \<open>A thread that is at the top of its loop and not asked to stop finishes every queued job, in
  order, within four steps of its own for each. Once it has been asked to stop it does one job more
  and ends: the others stay in its queue for good, and their packets are lost.\<close>

theorem thread_finishes_queue:
  assumes "tpc t = T_lock"
  shows "(\<not> shutdown_flag t \<longrightarrow>
      (\<exists>t'. ct_loop (4 * length (queue_items t)) t = Some t' \<and> queue_items t' = []
         \<and> finished t' = finished t @ queue_items t))
    \<and> (shutdown_flag t \<and> queue_items t = j # js \<longrightarrow>
      (\<exists>t'. ct_loop 4 t = Some t' \<and> finished t' = finished t @ [j] \<and> queue_items t' = js
         \<and> tpc t' = T_done \<and> (\<forall>t''. ct_steps t' t'' \<longrightarrow> finished t'' = finished t @ [j])))"
  using ct_loop_drains [OF assms] ct_loop_last_job [OF assms] ct_done_stays by fastforce

lemma thread_finishes_queue_witness:
  "(\<exists>t'. ct_loop 8 (ct_push (2 :: nat) (ct_push 1 new_crypt_thread)) = Some t' \<and> finished t' = [1, 2])
   \<and> (\<exists>t'. ct_loop 4 ((ct_push (2 :: nat) (ct_push 1 new_crypt_thread))\<lparr>shutdown_flag := True\<rparr>) = Some t'
        \<and> finished t' = [1] \<and> queue_items t' = [2])"
proof -
  let ?t = "ct_push (2 :: nat) (ct_push 1 new_crypt_thread)"
  have "tpc ?t = T_lock" "tpc (?t\<lparr>shutdown_flag := True\<rparr>) = T_lock" "queue_items ?t = [1, 2]"
    "finished ?t = []" "\<not> shutdown_flag ?t"
    by (simp_all add: ct_push_def new_crypt_thread_def)
  with thread_finishes_queue [of ?t] thread_finishes_queue [of "?t\<lparr>shutdown_flag := True\<rparr>" 1 "[2]"]
  show ?thesis by auto
qed

text \<open>C40: \<open>join\<close> can hang: the flag is set without the mutex, so the thread can have found it false
  and go to sleep after the notification. In the state reached nothing but a spurious wake-up is
  left to happen.\<close>

theorem join_can_hang:
  "\<exists>t :: nat crypt_thread. ct_reach t \<and> tpc t = T_wait \<and> joiner t = J_notified
     \<and> {t'. ct_step t t'} = {ct_wake t}"
proof -
  define t0 where "t0 = (new_crypt_thread :: nat crypt_thread)"
  define t1 where "t1 = t0\<lparr>tpc := T_block\<rparr>"
  define t2 where "t2 = t1\<lparr>shutdown_flag := True, joiner := J_flag_set\<rparr>"
  define t3 where "t3 = t2\<lparr>joiner := J_notified\<rparr>"
  define t4 where "t4 = t3\<lparr>tpc := T_wait\<rparr>"
  note defs = t0_def t1_def t2_def t3_def t4_def new_crypt_thread_def
  have "ct_loop 2 t0 = Some t1" by (simp add: defs ct_loop_step_def numeral_eq_Suc)
  then have "ct_reach t1" by (rule ct_loop_reach [rotated]) (simp add: t0_def ct_reach.init)
  moreover have "ct_step t1 t2" unfolding t2_def by (rule ct_step.join_flag) (simp_all add: defs)
  moreover have "ct_step t2 t3"
    using ct_step.join_notify [of t2] by (simp add: defs ct_wake_def)
  moreover have "ct_step t3 t4" by (rule ct_step.loop_step) (simp add: defs ct_loop_step_def)
  ultimately have "ct_reach t4" by (blast intro: ct_reach.step)
  moreover have t4: "tpc t4 = T_wait" "joiner t4 = J_notified" by (simp_all add: defs)
  moreover have "\<forall>t'. ct_step t4 t' \<longrightarrow> t' = ct_wake t4"
    by (auto elim!: ct_stepE) (auto simp: defs ct_loop_step_def)
  then have "{t'. ct_step t4 t'} = {ct_wake t4}" using ct_step.spurious [OF t4(1)] by blast
  ultimately show ?thesis by blast
qed

text \<open>\<open>add_job\<close> deals the jobs round robin: every call finds a thread inside the array, and from
  the start thread \<open>i\<close> of \<open>m\<close> is given exactly the jobs whose number is \<open>i\<close> modulo \<open>m\<close>.\<close>

theorem add_jobs_round_robin:
  assumes "thread_manager_start lib mem cfg r (new_thread_manager rand u t cfg) = Some tm"
    and "0 < c_int (GetInt cfg ''nsca_threads_per_worker'' 0)"
  shows "\<exists>tm'. add_jobs js tm = Some tm'
    \<and> length (threads_of tm') = nat (c_int (GetInt cfg ''nsca_threads_per_worker'' 0))
    \<and> (\<forall>i < length (threads_of tm').
         added (threads_of tm' ! i) = nths js {x. x mod length (threads_of tm') = i})"
proof -
  have inv: "manager_inv tm" by (rule manager_inv_start [OF assms])
  have st: "lazy_job_counter tm = 0" "max_crypt_threads tm = c_int (GetInt cfg ''nsca_threads_per_worker'' 0)"
    and new: "\<forall>i < length (threads_of tm). added (threads_of tm ! i) = []"
    using assms by (auto simp: thread_manager_start_def new_thread_manager_def threads_of_def
        new_crypt_thread_def Let_def split: if_splits)
  have len: "length (threads_of tm) = nat (max_crypt_threads tm)"
    using inv by (auto simp: manager_inv_def threads_of_def)
  obtain tm' where tm': "add_jobs js tm = Some tm'"
      "threads_of tm' = thread_queue.deal 0 js (threads_of tm)"
    using add_jobs_deal [OF inv, of 0 js] st by auto
  with len new st thread_queue.deal_jobs [of _ "threads_of tm" 0 js] show ?thesis by simp
qed

lemma add_jobs_round_robin_witness:
  "\<exists>tm'. add_jobs [10, 11, 12 :: nat] (the (thread_manager_start feedback_cipher (\<lambda>_ _. True)
        (Set ''nsca_threads_per_worker'' ''4'' new_config) rnd_initial
        (new_thread_manager (\<lambda>_ _. 0) None 0 (Set ''nsca_threads_per_worker'' ''4'' new_config)))) = Some tm'
     \<and> length (threads_of tm') = 4"
proof -
  let ?cfg = "Set ''nsca_threads_per_worker'' ''4'' new_config"
  let ?tm0 = "new_thread_manager (\<lambda>_ _. 0) None 0 ?cfg :: (nat, byte) thread_manager"
  have g: "c_int (GetInt ?cfg ''nsca_threads_per_worker'' 0) = 4" by (simp add: store_simps)
  then obtain tm where tm: "thread_manager_start feedback_cipher (\<lambda>_ _. True) ?cfg rnd_initial ?tm0 = Some tm"
    by (simp add: thread_manager_start_def new_thread_manager_def Let_def)
  then show ?thesis using add_jobs_round_robin [OF tm, of "[10, 11, 12]"] g by auto
qed

section \<open>The crypt instances of the threads\<close>

lemma started_instances:
  assumes "thread_manager_start lib mem cfg r tm0 = Some tm" "crypt_threads tm0 = None"
    and "crypt_threads tm = Some ts" "i < length ts"
  shows "i < nat (max_crypt_threads tm0)"
    and "snd (ts ! i) = fst (snd (encrypt_init lib (mem i) (Get cfg ''password'' [])
           (c_int (GetInt cfg ''decryption_method'' 0)) (Some (shared_transmitted_iv tm0)) r))"
  using assms by (auto simp: thread_manager_start_def Let_def split: if_splits)

lemma join_threads_ok:
  assumes "list_all (\<lambda>(t, CIp). tpc t = T_done \<and> encrypt_cleanup initialized m CIp \<noteq> None) ts"
  shows "\<exists>cs. join_threads initialized m ts = Joined cs"
  using assms by (induction ts) (auto split: prod.splits)

lemma join_threads_done:
  "join_threads initialized m ts = Joined cs \<Longrightarrow> list_all delete_crypt_thread ts"
  by (induction ts arbitrary: cs) (auto simp: delete_crypt_thread_def split: option.splits join_end.splits if_splits)

text \<open>After the join the manager can be deleted.\<close>

lemma joined_deletes:
  assumes "thread_manager_join initialized cfg tm = Joined cs"
  shows "delete_thread_manager tm \<noteq> None"
proof (cases "crypt_threads tm")
  case (Some ts)
  with assms join_threads_done have "list_all delete_crypt_thread ts" by (auto simp: thread_manager_join_def)
  with Some show ?thesis by (auto simp: delete_thread_manager_def list_all_iff dest: in_set_takeD)
qed (simp add: delete_thread_manager_def)

lemma join_threads_undefined:
  assumes "(t, CIp) \<in> set ts" "encrypt_cleanup initialized m CIp = None"
  shows "\<nexists>cs. join_threads initialized m ts = Joined cs"
  using assms by (induction ts) (auto split: option.splits join_end.splits if_splits)

text \<open>A client without an instance of its own cannot be processed with a cipher that was never opened.\<close>

lemma run_job_unopened:
  assumes "1 < decryption_method n" "IV ci = None"
  shows "run_job lib True env tid
      \<lparr>job_method = THREADMANAGER_METHOD_DECRYPT_PACKET, networkClient = c\<lparr>has_own_CI := False\<rparr>\<rparr>
      (Some ci, n, w) = None"
  using assms by (simp add: run_job_def process_queue_def process_queue_mcrypt_def set_CI_def Let_def)

end
