(* ===== verification/Nsca_Main.thy ===== *)
theory Nsca_Main
  imports Nsca_Log Nsca_Process Nsca_Threads
begin

text \<open>
  \<open>main.cpp\<close>: the options, the order in which options, file and checks fill the store, and the
  start of the master. \<open>getopt\<close> is the list of options it returns with their arguments; exit
  statuses and returns of \<open>main\<close> are \<open>Inl\<close>.
\<close>

section \<open>Options\<close>

record options =
  opt_config :: config
  opt_daemonize :: bool
  opt_max_workers :: int
  opt_threads :: int
  opt_log :: log_state

definition initial_options :: "log_state \<Rightarrow> options" where
  "initial_options ls =
     \<lparr>opt_config = setConfigPath ''/etc/nagios/nsca.cfg'' new_config, opt_daemonize = True,
      opt_max_workers = 0, opt_threads = -1, opt_log = ls\<rparr>"

definition option_step :: "char \<times> string option \<Rightarrow> options \<Rightarrow> int + options" where
  "option_step = (\<lambda>(c, optarg) opts.
     (if c = CHR ''h'' then Inl 1
      else if c = CHR ''f'' then Inr (opts\<lparr>opt_daemonize := False\<rparr>)
      else if c = CHR ''d''
      then Inr (opts\<lparr>opt_config := Set ''debug'' ''1'' (opt_config opts), opt_log := debug_enable (opt_log opts)\<rparr>)
      else if c = CHR ''c''
      then (case optarg of None \<Rightarrow> Inr opts | Some a \<Rightarrow> Inr (opts\<lparr>opt_config := setConfigPath a (opt_config opts)\<rparr>))
      else if c = CHR ''n''
      then (case optarg of
              None \<Rightarrow> Inr opts
            | Some a \<Rightarrow> let w = c_int (strtol a)
                        in if w < 0 \<or> 100 < w then Inl 1 else Inr (opts\<lparr>opt_max_workers := w\<rparr>))
      else if c = CHR ''t''
      then (case optarg of
              None \<Rightarrow> Inr opts
            | Some a \<Rightarrow> let t = c_int (strtol a)
                        in if t < 0 \<or> 1000 < t then Inl 1 else Inr (opts\<lparr>opt_threads := t\<rparr>))
      else Inr opts))"

fun parse_options :: "(char \<times> string option) list \<Rightarrow> options \<Rightarrow> int + options" where
  "parse_options [] opts = Inr opts"
| "parse_options (x # xs) opts =
     (case option_step x opts of Inl r \<Rightarrow> Inl r | Inr opts' \<Rightarrow> parse_options xs opts')"

section \<open>Configuration\<close>

text \<open>\<open>files\<close>: the contents of a path, \<open>None\<close> when it cannot be opened.\<close>

definition override_settings :: "options \<Rightarrow> config \<Rightarrow> config" where
  "override_settings opts cfg =
     (let c1 = (if opt_max_workers opts \<noteq> 0
                then Set ''nsca_workers'' (snprintf 10 (show_int (opt_max_workers opts))) cfg else cfg)
      in if opt_threads opts \<noteq> -1
         then Set ''nsca_threads_per_worker'' (snprintf 10 (show_int (opt_threads opts))) c1 else c1)"

definition main_config ::
    "bool \<Rightarrow> (string \<Rightarrow> string option) \<Rightarrow> options \<Rightarrow> int + config \<times> bool" where
  "main_config workers_enabled files opts =
     (case read_config (opt_config opts) (files (pathConfig (opt_config opts))) of
        Inl x \<Rightarrow> Inl x
      | Inr cfg \<Rightarrow>
          (let (rc, cfg', dbg) = check_config workers_enabled (override_settings opts cfg)
           in if rc \<noteq> 0 then Inl 1 else Inr (cfg', dbg)))"

definition main_start ::
    "bool \<Rightarrow> (string \<Rightarrow> string option) \<Rightarrow> (char \<times> string option) list \<Rightarrow> log_state \<Rightarrow>
     int + config \<times> bool \<times> bool" where
  "main_start workers_enabled files args ls =
     (case parse_options args (initial_options ls) of
        Inl x \<Rightarrow> Inl x
      | Inr opts \<Rightarrow>
          (case main_config workers_enabled files opts of
             Inl x \<Rightarrow> Inl x
           | Inr (cfg, dbg) \<Rightarrow> Inr (cfg, dbg, opt_daemonize opts)))"

section \<open>The master\<close>

text \<open>\<open>writepid\<close>: the file and its contents, or the exit status.\<close>

definition writepid :: "int \<Rightarrow> bool \<Rightarrow> config \<Rightarrow> world \<Rightarrow> int + world" where
  "writepid own_pid fopen_ok cfg w =
     (if own_pid \<le> 0 then Inl 1
      else if \<not> fopen_ok then Inl 1
      else
        let pidfile = c_str (Get cfg ''pid_file'' ''/var/run/nagios/nsca.pid'');
            w1 = open_trunc pidfile w
        in Inr (w1\<lparr>fs := (fs w1)(pidfile \<mapsto>
             (the (fs w1 pidfile))\<lparr>file_data := snprintf FILENAME_MAX (show_int own_pid @ nl)\<rparr>)\<rparr>))"

text \<open>
  \<open>mainloop\<close> up to the loop: \<open>Inl\<close> is its return value or the exit status; else the master, and
  whether this process goes on to \<open>loop\<close> (a worker that \<open>fork\<close> has made returns instead).
\<close>

definition mainloop_start ::
    "int \<Rightarrow> int \<Rightarrow> bool \<Rightarrow> int \<Rightarrow> bool \<Rightarrow> (nat \<Rightarrow> fork_env) \<Rightarrow> config \<Rightarrow> world \<Rightarrow>
     int + 'td process_manager \<times> world \<times> bool" where
  "mainloop_start time_now lock_open lock_ok own_pid fopen_ok es cfg w =
     (let nworkers = c_int (GetInt cfg ''nsca_workers'' 4);
          pm0 = setPids own_pid 0 (setProcessMode PROCESS_MAIN (new_process_manager time_now));
          (rc, pm1) = pm_lock lock_open lock_ok pm0
      in if rc \<noteq> 0 then Inl 1
         else
           let pm2 = setMaxWorker nworkers pm1
           in if nworkers = 1
              then (case writepid own_pid fopen_ok cfg w of
                      Inl x \<Rightarrow> Inl x | Inr w1 \<Rightarrow> Inr (pm2, w1, True))
              else
                let pm3 = runWorkers es pm2
                in if process_mode pm3 = PROCESS_MAIN
                   then (case writepid own_pid fopen_ok cfg w of
                           Inl x \<Rightarrow> Inl x | Inr w1 \<Rightarrow> Inr (pm3, w1, True))
                   else Inr (pm3, w, False))"

text \<open>
  The rest of \<open>main\<close>: in the background the process forks (\<open>daemon_pid\<close> is what \<open>fork\<close> returns) and
  the child goes on; \<open>main_run\<close> is the whole of \<open>main\<close> up to the loop of the master.
\<close>

definition main_daemonize :: "bool \<Rightarrow> int \<Rightarrow> int + unit" where
  "main_daemonize daemonize daemon_pid =
     (if daemonize
      then (if 0 < daemon_pid then Inl 0 else if daemon_pid = 0 then Inr () else Inl 2)
      else Inr ())"

definition main_run ::
    "bool \<Rightarrow> (string \<Rightarrow> string option) \<Rightarrow> (char \<times> string option) list \<Rightarrow> log_state \<Rightarrow> int \<Rightarrow>
     int \<Rightarrow> int \<Rightarrow> bool \<Rightarrow> int \<Rightarrow> bool \<Rightarrow> (nat \<Rightarrow> fork_env) \<Rightarrow> world \<Rightarrow>
     int + 'td process_manager \<times> world \<times> bool" where
  "main_run workers_enabled files args ls daemon_pid time_now lock_open lock_ok own_pid fopen_ok es w =
     (case main_start workers_enabled files args ls of
        Inl x \<Rightarrow> Inl x
      | Inr (cfg, dbg, daemonize) \<Rightarrow>
          (case main_daemonize daemonize daemon_pid of
             Inl x \<Rightarrow> Inl x
           | Inr _ \<Rightarrow> mainloop_start time_now lock_open lock_ok own_pid fopen_ok es cfg w))"

section \<open>The work of a worker\<close>

text \<open>
  \<open>processManager::work\<close> up to the event loop: the threads are started, then the \<open>network\<close> is
  made with the shared IV of the thread manager. \<open>None\<close>: a guard or a failure stops it.
\<close>

definition work_start ::
    "'td mcrypt \<Rightarrow> (nat \<Rightarrow> alloc_site \<Rightarrow> bool) \<Rightarrow> (alloc_site \<Rightarrow> bool) \<Rightarrow> config \<Rightarrow> int \<Rightarrow> string \<Rightarrow>
     int \<Rightarrow> rnd \<Rightarrow> stat_writer \<Rightarrow> ('j, 'td) thread_manager \<Rightarrow> 'td process_manager \<Rightarrow>
     (('j, 'td) thread_manager \<times> (string + 'td network)) option" where
  "work_start lib tmem mem cfg time_now ctime inotify_fd r sw tm pm =
     (if process_mode pm \<noteq> PROCESS_CHILD \<and> maxWorker pm \<noteq> 1 then None
      else (case thread_manager_start lib tmem cfg r tm of
              None \<Rightarrow> None
            | Some tm1 \<Rightarrow>
                Some (tm1, new_network lib mem cfg time_now ctime inotify_fd
                             (shared_transmitted_iv tm1) r sw)))"

text \<open>
  The rest of \<open>work\<close>, from the end of the event loop: what the network releases, how the join
  of the threads ends, and the number of threads that are deleted with the manager then (\<open>None\<close> when
  \<open>join\<close> does not return, or the program is terminated). The network is deleted first.
\<close>

definition work_end ::
    "bool \<Rightarrow> bool \<Rightarrow> bool \<Rightarrow> config \<Rightarrow> 'td network \<Rightarrow> ('j, 'td) thread_manager \<Rightarrow> world \<Rightarrow>
     (release list \<times> join_end \<times> nat option \<times> world) option" where
  "work_end initialized readable unlinked cfg n tm w =
     (let (n1, calls) = network_run_end n
      in (case delete_network initialized readable unlinked n1 w of
            None \<Rightarrow> None
          | Some (_, rel, w1) \<Rightarrow>
              (let je = thread_manager_join initialized cfg tm
               in Some (map Watch calls @ rel, je,
                        (case je of Joined _ \<Rightarrow> delete_thread_manager tm | _ \<Rightarrow> None), w1))))"

section \<open>Lemmas\<close>

text \<open>When the threads can be joined the manager is deleted without terminating the program.\<close>

lemma work_end_deletes:
  "work_end initialized a b cfg n tm w = Some (rel, Joined cs, d, w1) \<Longrightarrow> d \<noteq> None"
  using joined_deletes by (fastforce simp: work_end_def Let_def case_prod_beta split: option.splits)

text \<open>The watch of the spool directory is taken down once, by the end of \<open>run\<close>, not again by the destructor.\<close>

lemma work_end_watch_once:
  assumes "work_end initialized a b cfg n tm w = Some (rel, je, d, w1)"
  shows "[x. Watch x \<leftarrow> rel] = (case resultPathClient n of None \<Rightarrow> [] | Some c \<Rightarrow> snd (result_path_uninit c))"
proof -
  have "[x. Watch x \<leftarrow> map Watch xs @ ys] = xs @ [x. Watch x \<leftarrow> ys]" for xs ys by (induction xs) simp_all
  moreover have "[x. Watch x \<leftarrow> map Cleanup xs] = []" "[x. Watch x \<leftarrow> map (\<lambda>c. Close_fifo (fd c)) ys] = []"
    for xs and ys :: "fifo_client list" by (induction xs) (induction ys, simp_all)
  moreover have "snd (result_path_uninit (fst (result_path_uninit c))) = []" for c
    by (simp add: result_path_uninit_def unwatch_directory_def Let_def)
  ultimately show ?thesis
    using assms
    by (auto simp: work_end_def network_run_end_def delete_network_def Let_def case_prod_beta
        split: option.splits if_splits)
qed

definition options_ok :: "options \<Rightarrow> bool" where
  "options_ok opts \<longleftrightarrow> 0 \<le> opt_max_workers opts \<and> opt_max_workers opts \<le> 100
     \<and> -1 \<le> opt_threads opts \<and> opt_threads opts \<le> 1000"

lemma option_step_ok: "options_ok opts \<Longrightarrow> option_step x opts = Inr opts' \<Longrightarrow> options_ok opts'"
  by (cases x) (auto simp: option_step_def options_ok_def Let_def split: if_splits option.splits)

lemma parse_options_ok: "options_ok opts \<Longrightarrow> parse_options xs opts = Inr opts' \<Longrightarrow> options_ok opts'"
  by (induction xs arbitrary: opts) (auto split: sum.splits dest: option_step_ok)

lemma initial_options_ok: "options_ok (initial_options ls)"
  by (simp add: options_ok_def initial_options_def)

lemma strtol_show_small:
  assumes "0 \<le> i" "i < 10 ^ 9"
  shows "strtol (snprintf 10 (show_int i)) = i"
proof -
  have "length (show_nat (nat i)) \<le> 9" using assms length_show_nat [of "nat i" 8] by simp
  then show ?thesis using assms strtol_show_nat [of "nat i"] by (simp add: show_int_def snprintf_def)
qed

text \<open>An option given on the command line is what the checked store returns.\<close>

lemma check_config_workers:
  assumes "check_config True c = (0, c', dbg)" "1 \<le> c_int (GetInt c ''nsca_workers'' 0)"
    and "c_int (GetInt c ''nsca_workers'' 0) \<le> 2000"
  shows "GetInt c' ''nsca_workers'' d = GetInt c ''nsca_workers'' d"
  using assms by (auto simp: check_config_def Let_def store_simps split: if_splits)

lemma check_config_threads:
  assumes "check_config we c = (0, c', dbg)" "0 \<le> c_int (GetInt c ''nsca_threads_per_worker'' 4)"
    and "c_int (GetInt c ''nsca_threads_per_worker'' 4) \<le> 1000"
  shows "GetInt c' ''nsca_threads_per_worker'' d = GetInt c ''nsca_threads_per_worker'' d"
  using assms by (auto simp: check_config_def Let_def store_simps split: if_splits)

section \<open>Properties\<close>

text \<open>A number of workers or threads given on the command line wins over the configuration file and
  survives the checks, whatever the file says.\<close>

theorem command_line_wins:
  assumes "parse_options args (initial_options ls) = Inr opts"
    and "main_config True files opts = Inr (cfg, dbg)"
  shows "(opt_max_workers opts \<noteq> 0 \<longrightarrow> GetInt cfg ''nsca_workers'' d = opt_max_workers opts)
    \<and> (opt_threads opts \<noteq> -1 \<longrightarrow> GetInt cfg ''nsca_threads_per_worker'' d = opt_threads opts)"
proof -
  have ok: "options_ok opts" using parse_options_ok [OF initial_options_ok assms(1)] .
  obtain c0 where c: "check_config True (override_settings opts c0) = (0, cfg, dbg)"
    using assms(2) by (auto simp: main_config_def split: sum.splits if_splits prod.splits)
  have "GetInt cfg ''nsca_workers'' d = opt_max_workers opts" if "opt_max_workers opts \<noteq> 0"
  proof -
    have g: "GetInt (override_settings opts c0) ''nsca_workers'' d' = opt_max_workers opts" for d'
      using ok that by (simp add: override_settings_def Let_def store_simps strtol_show_small options_ok_def)
    with check_config_workers [OF c] ok that show ?thesis by (simp add: c_int_id options_ok_def)
  qed
  moreover have "GetInt cfg ''nsca_threads_per_worker'' d = opt_threads opts" if "opt_threads opts \<noteq> -1"
  proof -
    have g: "GetInt (override_settings opts c0) ''nsca_threads_per_worker'' d' = opt_threads opts" for d'
      using ok that by (simp add: override_settings_def Let_def store_simps strtol_show_small options_ok_def)
    with check_config_threads [OF c] ok that show ?thesis by (simp add: c_int_id options_ok_def)
  qed
  ultimately show ?thesis by simp
qed

lemma command_line_wins_witness:
  "\<exists>opts cfg dbg. parse_options [(CHR ''f'', None), (CHR ''n'', Some ''4'')] (initial_options (log_initial 9)) = Inr opts
     \<and> main_config True (\<lambda>_. Some ''nsca_workers=1'') opts = Inr (cfg, dbg)
     \<and> GetInt cfg ''nsca_workers'' 1 = 4"
proof -
  obtain opts where o1: "parse_options [(CHR ''f'', None), (CHR ''n'', Some ''4'')]
      (initial_options (log_initial 9)) = Inr opts" "opt_max_workers opts = 4"
    by (simp add: option_step_def)
  have "data (opt_config opts) = Map.empty" "opt_threads opts = -1"
    using o1(1) by (auto simp: option_step_def initial_options_def setConfigPath_def new_config_def)
  obtain c0 where c0: "read_config (opt_config opts) (Some ''nsca_workers=1'') = Inr c0"
    by (simp add: read_config_def)
  have "c0 = Set ''nsca_workers'' ''1'' (opt_config opts)"
  proof -
    have "''nsca_workers'' \<in> valid_keywords (opt_config opts)"
      using o1(1) by (auto simp: option_step_def initial_options_def setConfigPath_def new_config_def
          allowed_config_keys_def)
    moreover have "trim ''nsca_workers=1'' (Some line_seps) = ''nsca_workers=1''" by code_simp
    moreover have "cut_comment ''nsca_workers=1'' 14 = ''nsca_workers=1''" by code_simp
    ultimately have "config_line (opt_config opts) ''nsca_workers=1'' = Set ''nsca_workers'' ''1'' (opt_config opts)"
      by (simp add: config_line_def c_str_def)
    moreover have "fgets DBUFFER_4K_SIZE ''nsca_workers=1'' = (''nsca_workers=1'', [])"
      by (simp add: fgets_def DBUFFER_4K_SIZE_def)
    ultimately show ?thesis
      using c0 by (simp add: read_config_def read_config_loop.simps)
  qed
  then obtain cfg where m: "main_config True (\<lambda>_. Some ''nsca_workers=1'') opts = Inr (cfg, False)"
    using c0 o1(2) \<open>opt_threads opts = -1\<close> \<open>data (opt_config opts) = Map.empty\<close>
    by (simp add: main_config_def check_config_def override_settings_def Let_def GetInt_def Set_def)
  from command_line_wins [OF o1(1) m, of 1] o1 m show ?thesis by auto
qed

text \<open>What \<open>mainloop\<close> has established when the process enters the loop.\<close>

lemma writepid_file:
  assumes "writepid own_pid fopen_ok cfg w = Inr w1"
  shows "0 < own_pid \<and> map_option file_data (fs w1 (c_str (Get cfg ''pid_file'' ''/var/run/nagios/nsca.pid'')))
      = Some (snprintf FILENAME_MAX (show_int own_pid @ nl))"
  using assms by (auto simp: writepid_def Let_def split: if_splits)

lemma mainloop_start_master:
  assumes "mainloop_start t lock_open lock_ok own_pid fopen_ok es cfg w
     = (Inr (pm, w', True) :: int + 'td process_manager \<times> world \<times> bool)"
  obtains pm2 :: "'td process_manager" where "0 \<le> lock_open" "lock_ok"
    "writepid own_pid fopen_ok cfg w = Inr w'" "master_inv pm2" "\<not> pm_shutdown pm2" "maxWorker pm2 = c_int (GetInt cfg ''nsca_workers'' 4)"
    "workers_running pm2 = 0" "pm = (if maxWorker pm2 = 1 then pm2 else runWorkers es pm2)"
proof -
  let ?mw = "c_int (GetInt cfg ''nsca_workers'' 4)"
  define pm0 where "pm0 = (setPids own_pid 0 ((new_process_manager t)\<lparr>process_mode := PROCESS_MAIN\<rparr>)
     :: 'td process_manager)"
  define pm2 where "pm2 = setMaxWorker ?mw (pm0\<lparr>lockfd := lock_open\<rparr>)"
  have 0: "process_mode pm0 = PROCESS_MAIN" "workers pm0 = []" "workers_running pm0 = 0" "\<not> pm_shutdown pm0"
    by (simp_all add: pm0_def setPids_def new_process_manager_def Let_def nsca_consts)
  then have 2: "master_inv pm2" "\<not> pm_shutdown pm2" "maxWorker pm2 = ?mw" "workers_running pm2 = 0"
    by (simp_all add: pm2_def master_inv_setMaxWorker) (simp_all add: setMaxWorker_def)
  have "0 \<le> lock_open \<and> lock_ok \<and> writepid own_pid fopen_ok cfg w = Inr w'
      \<and> pm = (if maxWorker pm2 = 1 then pm2 else runWorkers es pm2)"
    using assms 0(1)
    by (auto simp: mainloop_start_def pm_lock_def Let_def pm2_def setMaxWorker_def simp flip: pm0_def
        split: if_splits sum.splits)
  with 2 that show thesis by blast
qed

lemma main_config_checked:
  assumes "main_config we files opts = Inr (cfg, dbg)"
  obtains c where "check_config we c = (0, cfg, dbg)"
  using assms
  by (auto simp: main_config_def Let_def case_prod_beta split: sum.splits if_splits) (metis prod.collapse)

lemma main_start_workers:
  assumes "main_start we files args ls = Inr (cfg, dbg, daemonize)"
  shows "in_range 1 2000 (GetInt cfg ''nsca_workers'' 4)"
proof -
  obtain opts where "main_config we files opts = Inr (cfg, dbg)"
    using assms by (auto simp: main_start_def split: sum.splits)
  then obtain c where "check_config we c = (0, cfg, dbg)" by (rule main_config_checked)
  from check_config_settled(3) [OF this] show ?thesis by (simp add: store.settled_def)
qed

text \<open>The master goes on only with the lock on its executable, so that a second instance ends at
  once; the process that enters the loop is the master, with its own process id in the pid file,
  and a worker that \<open>fork\<close> has made neither enters the loop nor writes that file.\<close>

theorem mainloop_single_instance:
  assumes "mainloop_start t lock_open lock_ok own_pid fopen_ok es cfg w
     = (Inr (pm, w', enters) :: int + 'td process_manager \<times> world \<times> bool)"
  shows "0 \<le> lock_open \<and> lock_ok
    \<and> (if enters
       then process_mode pm = PROCESS_MAIN \<and> 0 < own_pid
         \<and> map_option file_data (fs w' (c_str (Get cfg ''pid_file'' ''/var/run/nagios/nsca.pid'')))
             = Some (snprintf FILENAME_MAX (show_int own_pid @ nl))
       else process_mode pm \<noteq> PROCESS_MAIN \<and> w' = w)"
proof -
  define pm0 where "pm0 = (setPids own_pid 0 ((new_process_manager t)\<lparr>process_mode := PROCESS_MAIN\<rparr>)
     :: 'td process_manager)"
  have mode0: "process_mode pm0 = PROCESS_MAIN" by (simp add: pm0_def setPids_def Let_def nsca_consts)
  have wr: "0 < own_pid \<and> map_option file_data (fs w1 (c_str (Get cfg ''pid_file'' ''/var/run/nagios/nsca.pid'')))
      = Some (snprintf FILENAME_MAX (show_int own_pid @ nl))"
    if "writepid own_pid fopen_ok cfg w = Inr w1" for w1
    using that by (auto simp: writepid_def Let_def split: if_splits)
  show ?thesis
    using assms mode0 wr
    by (auto simp: mainloop_start_def pm_lock_def setMaxWorker_def Let_def simp flip: pm0_def
        split: if_splits sum.splits)
qed

lemma mainloop_single_instance_witness:
  "case (mainloop_start 0 3 True 77 True (\<lambda>_. \<lparr>fork_pid = 99, fork_time = 0, fork_mypid = 0, fork_ppid = 0\<rparr>)
      (Set ''nsca_workers'' ''1'' new_config) spool_world :: int + byte process_manager \<times> world \<times> bool) of
     Inl _ \<Rightarrow> False
   | Inr (pm, w', enters) \<Rightarrow> enters \<and> map_option file_data (fs w' ''/var/run/nagios/nsca.pid'')
        = Some (snprintf FILENAME_MAX (show_int 77 @ nl))"
proof -
  let ?m = "mainloop_start 0 3 True 77 True (\<lambda>_. \<lparr>fork_pid = 99, fork_time = 0, fork_mypid = 0, fork_ppid = 0\<rparr>)
      (Set ''nsca_workers'' ''1'' new_config) spool_world :: int + byte process_manager \<times> world \<times> bool"
  have "GetInt (Set ''nsca_workers'' ''1'' new_config) ''nsca_workers'' 4 = 1" by (simp add: store_simps)
  then obtain pm w' where m: "?m = Inr (pm, w', True)"
    by (simp add: mainloop_start_def pm_lock_def setPids_def new_process_manager_def writepid_def Let_def
        nsca_consts)
  have "c_str (Get (Set ''nsca_workers'' ''1'' new_config) ''pid_file'' ''/var/run/nagios/nsca.pid'')
      = ''/var/run/nagios/nsca.pid''"
    by (simp add: Get_def Set_def new_config_def c_str_def)
  with mainloop_single_instance [OF m] m show ?thesis by simp
qed

text \<open>A log call prints at most one line: nothing when neither stream is open, debug lines only
  when debugging is on, errors and warnings to standard error and the rest to standard output, each
  only if that stream was found open.\<close>

theorem log_calls_checked:
  assumes "s' = log_output_check err_open out_open s"
  shows "length (error_sprintf s' t msg) = (if err_open then 1 else 0)
    \<and> length (warning_sprintf s' t msg) = (if err_open then 1 else 0)
    \<and> length (info_sprintf s' t msg) = (if out_open then 1 else 0)
    \<and> length (debug_sprintf s' t msg) = (if out_open \<and> is_debug s' then 1 else 0)
    \<and> fst ` set (error_sprintf s' t msg @ warning_sprintf s' t msg) \<subseteq> {Stderr}
    \<and> fst ` set (info_sprintf s' t msg @ debug_sprintf s' t msg) \<subseteq> {Stdout}"
  using assms
  by (auto simp: error_sprintf_def warning_sprintf_def info_sprintf_def debug_sprintf_def is_debug_def
      global_sprintf_def log_output_check_def Let_def)

lemma log_calls_checked_witness:
  "debug_sprintf (log_output_check True True (log_initial 9)) ''now'' ''x'' = []
   \<and> length (error_sprintf (log_output_check True True (log_initial 9)) ''now'' ''x'') = 1"
  using log_calls_checked [OF refl, of True True "log_initial 9" "''now''" "''x''"]
  by (simp add: is_debug_def log_output_check_def log_initial_def)



end
