(* ===== verification/Nsca_System.thy ===== *)
theory Nsca_System
  imports Nsca_Worker Nsca_Main "HOL-Library.Multiset"
begin

text \<open>
  A worker process as a whole: the event loop of \<open>Nsca_Worker\<close> with the threads of \<open>Nsca_Threads\<close>. The
  step relation \<open>system_step\<close> interleaves the callbacks of the event loop with the threads; a closed
  connection goes through \<open>add_job\<close> to a thread, or is processed by the callback itself when there
  are no threads. The worker relation, where any client that was handed over may be processed at
  any time, is its specification: \<open>Nsca_System_Refine\<close> has the simulation.
\<close>

section \<open>State and steps\<close>

type_synonym 'td job = "'td network_client crypt_queue_item"

text \<open>\<open>handed\<close> of the event loop is empty here: the clients are in the queues of the threads.\<close>

record 'td system =
  event_loop :: "'td worker"
  pool :: "('td job, 'td) thread_manager"

definition decrypt_job :: "'td network_client \<Rightarrow> 'td job" where
  "decrypt_job c = \<lparr>job_method = THREADMANAGER_METHOD_DECRYPT_PACKET, networkClient = c\<rparr>"

text \<open>The thread \<open>add_job\<close> will choose, and when \<open>crypt_thread_t::add\<close> can enter.\<close>

definition next_thread :: "('j, 'td) thread_manager \<Rightarrow> nat" where
  "next_thread p = nat (if max_crypt_threads p \<le> lazy_job_counter p then 0 else lazy_job_counter p)"

definition can_add :: "'j crypt_thread \<Rightarrow> bool" where
  "can_add t \<longleftrightarrow> \<not> holds_mutex t \<and> \<not> notifying t \<and> joiner t = J_none"

text \<open>The instance a client's pointer leads to, when the event loop processes the client.\<close>

definition client_instance :: "'td network \<Rightarrow> 'td network_client \<Rightarrow> 'td crypt_instance option" where
  "client_instance n c =
     (case ci_pointer c of CI_network \<Rightarrow> CI n | CI_own \<Rightarrow> own_CI c | _ \<Rightarrow> None)"

definition keep_instance ::
    "'td network_client \<Rightarrow> 'td crypt_instance option \<Rightarrow> 'td network \<Rightarrow> 'td network" where
  "keep_instance c CIp n = n\<lparr>CI := (if ci_pointer c = CI_network then CIp else CI n)\<rparr>"

definition set_thread ::
    "nat \<Rightarrow> 'j crypt_thread \<times> 'td crypt_instance option \<Rightarrow> ('j, 'td) thread_manager \<Rightarrow>
     ('j, 'td) thread_manager" where
  "set_thread k tc p = p\<lparr>crypt_threads := map_option (\<lambda>ts. ts[k := tc]) (crypt_threads p)\<rparr>"

definition thread_at ::
    "('j, 'td) thread_manager \<Rightarrow> nat \<Rightarrow> ('j crypt_thread \<times> 'td crypt_instance option) option" where
  "thread_at p k =
     (case crypt_threads p of None \<Rightarrow> None | Some ts \<Rightarrow> if k < length ts then Some (ts ! k) else None)"

inductive system_step :: "'td mcrypt \<Rightarrow> 'td system \<Rightarrow> 'td system \<Rightarrow> bool" for lib where
  callback: "worker_step lib (event_loop s) e \<Longrightarrow> handed e = [] \<Longrightarrow>
    system_step lib s (s\<lparr>event_loop := e\<rparr>)"
| to_thread: "event_loop s = e \<Longrightarrow> i < length (conns e) \<Longrightarrow>
    eventcb lib mem alloc (generator e) (net e) (conns e ! i) = Some (n, r, To_thread c) \<Longrightarrow>
    thread_at (pool s) (next_thread (pool s)) = Some (t, CIp) \<Longrightarrow> can_add t \<Longrightarrow>
    add_job (decrypt_job c) (pool s) = Some p \<Longrightarrow>
    system_step lib s (s\<lparr>event_loop := e\<lparr>net := n, generator := r, conns := remove_nth i (conns e)\<rparr>,
      pool := p\<rparr>)"
| at_once: "event_loop s = e \<Longrightarrow> i < length (conns e) \<Longrightarrow>
    eventcb lib mem alloc (generator e) (net e) (conns e ! i) = Some (n, r, Process c) \<Longrightarrow>
    process_queue lib alloc' env 0 (client_instance n c) (n, c, w_world e) = Some (CIp, n', c', w) \<Longrightarrow>
    system_step lib s (s\<lparr>event_loop := e\<lparr>net := keep_instance c CIp n', generator := r,
      conns := remove_nth i (conns e), w_world := w\<rparr>\<rparr>)"
| thread_moves: "thread_at (pool s) k = Some (t, CIp) \<Longrightarrow> (\<forall>j. tpc t \<noteq> T_run j) \<Longrightarrow>
    ct_loop_step t = Some t' \<Longrightarrow>
    system_step lib s (s\<lparr>pool := set_thread k (t', CIp) (pool s)\<rparr>)"
| thread_wakes: "thread_at (pool s) k = Some (t, CIp) \<Longrightarrow> tpc t = T_wait \<Longrightarrow>
    system_step lib s (s\<lparr>pool := set_thread k (ct_wake t, CIp) (pool s)\<rparr>)"
| thread_notified: "thread_at (pool s) k = Some (t, CIp) \<Longrightarrow> notifying t \<Longrightarrow>
    system_step lib s (s\<lparr>pool := set_thread k (ct_wake (t\<lparr>notifying := False\<rparr>), CIp) (pool s)\<rparr>)"
| thread_runs: "event_loop s = e \<Longrightarrow> thread_at (pool s) k = Some (t, CIp) \<Longrightarrow> tpc t = T_run j \<Longrightarrow>
    run_job lib alloc env k j (CIp, net e, w_world e) = Some (CIp', n, w) \<Longrightarrow>
    ct_loop_step t = Some t' \<Longrightarrow>
    system_step lib s (s\<lparr>event_loop := e\<lparr>net := n, w_world := w\<rparr>,
      pool := set_thread k (t', CIp') (pool s)\<rparr>)"

text \<open>
  The start: \<open>processManager::work\<close> with the settings \<open>cfg\<close> makes the threads and the \<open>network\<close>, and
  \<open>run\<close> goes up to the loop.
\<close>

definition system_start ::
    "'td mcrypt \<Rightarrow> (nat \<Rightarrow> alloc_site \<Rightarrow> bool) \<Rightarrow> config \<Rightarrow> 'td system \<Rightarrow> bool" where
  "system_start lib tmem cfg s \<longleftrightarrow>
     (\<exists>mem t ct ifd r sw rand urandom time pm we inet_pton can_bind e n0 n calls p g w.
        work_start lib tmem mem cfg t ct ifd r sw (new_thread_manager rand urandom time cfg) pm
          = Some (p, Inr n0)
        \<and> network_run_open we inet_pton can_bind e cfg n0 = Some (n, calls)
        \<and> s = \<lparr>event_loop = \<lparr>net = n, conns = [], handed = [], generator = g, w_world = w\<rparr>, pool = p\<rparr>)"

lemma system_startE:
  assumes "system_start lib tmem cfg s"
  obtains mem t ct ifd r sw rand urandom time e n0 n calls p g w where
    "thread_manager_start lib tmem cfg r (new_thread_manager rand urandom time cfg) = Some p"
    "new_network lib mem cfg t ct ifd (shared_transmitted_iv p) r sw = Inr n0"
    "network_run_start e n0 = (n, calls)"
    "s = \<lparr>event_loop = \<lparr>net = n, conns = [], handed = [], generator = g, w_world = w\<rparr>, pool = p\<rparr>"
  using assms
  by (auto simp: system_start_def work_start_def network_run_open_def split: if_splits option.splits)

inductive system_reach ::
    "'td mcrypt \<Rightarrow> (nat \<Rightarrow> alloc_site \<Rightarrow> bool) \<Rightarrow> config \<Rightarrow> 'td system \<Rightarrow> bool" for lib tmem cfg where
  start: "system_start lib tmem cfg s \<Longrightarrow> system_reach lib tmem cfg s"
| step: "system_reach lib tmem cfg s \<Longrightarrow> system_step lib s s' \<Longrightarrow> system_reach lib tmem cfg s'"

inductive_cases system_stepE: "system_step lib s s'"

section \<open>The clients the threads hold\<close>

definition pending :: "'td job crypt_thread \<Rightarrow> 'td network_client list" where
  "pending t = map networkClient (in_progress t @ queue_items t)"

definition pool_clients :: "('td job, 'td) thread_manager \<Rightarrow> 'td network_client multiset" where
  "pool_clients p = (\<Sum>t \<leftarrow> threads_of p. mset (pending t))"

lemma pool_clients_empty:
  assumes "\<forall>t \<in> set (threads_of p). pending t = []"
  shows "pool_clients p = {#}"
proof -
  have "map (\<lambda>t. mset (pending t)) (threads_of p) = map (\<lambda>_. {#}) (threads_of p)"
    using assms by (intro map_cong) simp_all
  then show ?thesis by (simp only: pool_clients_def sum_list_0)
qed

lemma thread_at_iff:
  "thread_at p k = Some tc \<longleftrightarrow> (\<exists>ts. crypt_threads p = Some ts \<and> k < length ts \<and> ts ! k = tc)"
  by (auto simp: thread_at_def split: option.splits)

lemma sum_list_map_update:
  fixes f :: "'a \<Rightarrow> 'b::cancel_comm_monoid_add"
  assumes "k < length xs"
  shows "f (xs ! k) + sum_list (map f (xs[k := x])) = f x + sum_list (map f xs)"
  using assms
proof (induction xs arbitrary: k)
  case Nil
  then show ?case by simp
next
  case (Cons y xs)
  show ?case
  proof (cases k)
    case 0
    then show ?thesis by (simp add: ac_simps)
  next
    case (Suc m)
    then have "f y + (f (xs ! m) + sum_list (map f (xs[m := x]))) = f y + (f x + sum_list (map f xs))"
      using Cons by simp
    with Suc show ?thesis by (simp add: ac_simps)
  qed
qed

lemma pool_clients_set_thread:
  assumes "thread_at p k = Some (t, CIp)"
  shows "mset (pending t) + pool_clients (set_thread k (t', CIp') p) = mset (pending t') + pool_clients p"
proof -
  obtain ts where ts: "crypt_threads p = Some ts" "k < length ts" "ts ! k = (t, CIp)"
    using assms by (auto simp: thread_at_iff)
  then show ?thesis
    using sum_list_map_update [of k "map fst ts" "\<lambda>t. mset (pending t)" t']
    by (simp add: pool_clients_def threads_of_def set_thread_def map_update comp_def)
qed

lemma pending_wake [simp]: "pending (ct_wake t) = pending t"
  by (simp add: pending_def)

lemma pending_notifying [simp]: "pending (t\<lparr>notifying := b\<rparr>) = pending t"
  by (simp add: pending_def)

lemma pending_moves:
  "ct_loop_step t = Some t' \<Longrightarrow> \<forall>j. tpc t \<noteq> T_run j \<Longrightarrow> pending t' = pending t"
  by (cases "tpc t"; cases "queue_items t")
    (auto simp: ct_loop_step_def pending_def in_progress_def split: if_splits)

lemma pending_runs:
  "tpc t = T_run j \<Longrightarrow> ct_loop_step t = Some t' \<Longrightarrow> pending t = networkClient j # pending t'"
  by (auto simp: ct_loop_step_def pending_def in_progress_def)

text \<open>\<open>add_job\<close> adds its job to the clients of the pool, whichever thread it chooses.\<close>

lemma add_job_clients:
  assumes "add_job j p = Some p'" "thread_at p (next_thread p) = Some (t, CIp)"
  shows "pool_clients p' = add_mset (networkClient j) (pool_clients p)"
    and "threads_of p' = (threads_of p)[next_thread p := ct_push j t]"
    and "thread_at p' (next_thread p) = Some (ct_push j t, CIp)"
proof -
  obtain ts where ts: "crypt_threads p = Some ts" "next_thread p < length ts" "ts ! next_thread p = (t, CIp)"
    using assms(2) by (auto simp: thread_at_iff)
  then show u: "threads_of p' = (threads_of p)[next_thread p := ct_push j t]"
    using assms(1)
    by (auto simp: add_job_def threads_of_def next_thread_def map_update Let_def split: if_splits)
  show "thread_at p' (next_thread p) = Some (ct_push j t, CIp)"
    using assms(1) ts by (auto simp: add_job_def thread_at_def next_thread_def Let_def split: if_splits)
  have "pending (ct_push j t) = pending t @ [networkClient j]"
    by (simp add: pending_def ct_push_def in_progress_def)
  moreover have "next_thread p < length (threads_of p)" "threads_of p ! next_thread p = t"
    using ts by (simp_all add: threads_of_def)
  ultimately show "pool_clients p' = add_mset (networkClient j) (pool_clients p)"
    using sum_list_map_update [of "next_thread p" "threads_of p" "\<lambda>t. mset (pending t)" "ct_push j t"]
    by (simp add: pool_clients_def u)
qed

end
