(* ===== verification/Nsca_Handshake.thy ===== *)
theory Nsca_Handshake
  imports Nsca_Worker
begin

text \<open>
  The two ends of a connection agree on the cipher: a client makes its instance from the password and
  the IV of the greeting, and whatever the server's instance was used for before, it starts a queue
  in the state the client started in.
\<close>

section \<open>What the code relies on of libmcrypt\<close>

text \<open>
  The states a cipher can be in once it has been initialised with a key. The code relies on this:
  giving such a state the IV by \<open>mcrypt_enc_set_state\<close> is the same as the initialisation with that
  key and IV.
\<close>

inductive keyed :: "'td mcrypt \<Rightarrow> 'td \<Rightarrow> byte list \<Rightarrow> nat \<Rightarrow> 'td \<Rightarrow> bool" for lib t k ks where
  initialised: "keyed lib t k ks (mcrypt_generic_init lib t k ks iv)"
| used: "keyed lib t k ks st \<Longrightarrow> keyed lib t k ks (snd (mdecrypt_generic lib st b))"
| state_set: "keyed lib t k ks st \<Longrightarrow> keyed lib t k ks (mcrypt_enc_set_state lib st bs)"

definition cipher_laws :: "'td mcrypt \<Rightarrow> bool" where
  "cipher_laws lib \<longleftrightarrow>
     stream_cipher (mcrypt_generic lib) (mdecrypt_generic lib)
     \<and> (\<forall>t. mcrypt_enc_set_state lib t (mcrypt_enc_get_state lib t) = t)
     \<and> (\<forall>t k ks st iv. keyed lib t k ks st \<longrightarrow> length iv = mcrypt_enc_get_iv_size lib t \<longrightarrow>
          mcrypt_enc_set_state lib st iv = mcrypt_generic_init lib t k ks iv)"

lemma feedback_cipher_laws: "cipher_laws feedback_cipher"
proof -
  have "mcrypt_enc_get_iv_size feedback_cipher t = 1" "mcrypt_enc_set_state feedback_cipher st iv = hd iv"
    "mcrypt_generic_init feedback_cipher t k ks iv = hd iv" for t st iv k ks
    by (simp_all add: feedback_cipher_def)
  moreover have "mcrypt_enc_get_state feedback_cipher t = [t]" for t by (simp add: feedback_cipher_def)
  ultimately show ?thesis using feedback_cipher_stream by (simp add: cipher_laws_def)
qed

section \<open>An instance made from a password and an IV\<close>

definition cipher_of :: "'td mcrypt \<Rightarrow> string \<Rightarrow> int \<Rightarrow> byte list \<Rightarrow> 'td crypt_instance option \<Rightarrow> bool" where
  "cipher_of lib pw m iv CIp \<longleftrightarrow>
     (\<exists>ci. CIp = Some ci \<and> transmitted_iv ci = take TRANSMITTED_IV_SIZE iv
        \<and> (m \<noteq> ENCRYPT_NONE \<longrightarrow> m \<noteq> ENCRYPT_XOR \<longrightarrow>
             (\<exists>t st. mcrypt_module_open lib (mcrypt_algorithm_name m) ''cfb'' = Some t
                \<and> iv_size ci = mcrypt_enc_get_iv_size lib t \<and> iv_size ci \<le> TRANSMITTED_IV_SIZE
                \<and> IV ci = Some (take (iv_size ci) (transmitted_iv ci)) \<and> td ci = Some st
                \<and> keyed lib t (crypt_key (mcrypt_enc_get_key_size lib t) pw) (mcrypt_enc_get_key_size lib t) st)))"

lemma encrypt_init_cipher_of:
  assumes "encrypt_init lib mem pw m (Some iv) r = (OK, CIp, r')"
  shows "cipher_of lib pw m iv CIp"
proof (cases "m = ENCRYPT_NONE \<or> m = ENCRYPT_XOR")
  case True
  with assms show ?thesis
    by (auto simp: cipher_of_def encrypt_init_def nsca_consts split: if_splits)
next
  case False
  with assms obtain ci t0 where
    "CIp = Some ci" "r' = r" "transmitted_iv ci = take TRANSMITTED_IV_SIZE iv"
    "mcrypt_module_open lib (mcrypt_algorithm_name m) ''cfb'' = Some t0"
    "iv_size ci = mcrypt_enc_get_iv_size lib t0" "iv_size ci \<le> TRANSMITTED_IV_SIZE"
    "IV ci = Some (take (iv_size ci) (transmitted_iv ci))"
    "keysize ci = mcrypt_enc_get_key_size lib t0"
    "key ci = Some (crypt_key (keysize ci) pw)"
    "td ci = Some (mcrypt_generic_init lib t0 (crypt_key (keysize ci) pw) (keysize ci)
       (take (iv_size ci) (transmitted_iv ci)))"
    by (auto elim: encrypt_init_mcrypt_ok)
  then show ?thesis by (auto simp: cipher_of_def intro: keyed.initialised)
qed

lemma kept_cipher_of: "kept lib (cipher_of lib pw m iv)"
  unfolding kept_def cipher_of_def by (auto intro: keyed.intros)

lemma cipher_of_ready: "cipher_of lib pw m iv CIp \<Longrightarrow> decryption_method n = m \<Longrightarrow> 0 \<le> m \<Longrightarrow> cipher_ready n CIp"
  by (auto simp: cipher_of_def cipher_ready_def nsca_consts)

text \<open>The sender's fresh instance and the receiver's used one are in step.\<close>

lemma cipher_of_in_step:
  assumes "encrypt_init lib mem pw m (Some iv) r = (OK, S, r')" "cipher_of lib pw m iv R"
    and "0 \<le> m" "1 < m \<Longrightarrow> cipher_laws lib" "length iv = TRANSMITTED_IV_SIZE"
  shows "in_step lib m S R"
proof (cases "m = ENCRYPT_NONE \<or> m = ENCRYPT_XOR")
  case True
  with encrypt_init_cipher_of [OF assms(1)] assms(2) show ?thesis
    by (auto simp: in_step_def cipher_of_def)
next
  case False
  then have m: "1 < m" using assms(3) by (auto simp: nsca_consts)
  obtain s t where s: "S = Some s" "mcrypt_module_open lib (mcrypt_algorithm_name m) ''cfb'' = Some t"
    "td s = Some (mcrypt_generic_init lib t (crypt_key (mcrypt_enc_get_key_size lib t) pw)
       (mcrypt_enc_get_key_size lib t) (take (mcrypt_enc_get_iv_size lib t) iv))"
    using False assms(1,5) by (auto elim!: encrypt_init_mcrypt_ok)
  obtain q st where q: "R = Some q" "td q = Some st" "IV q = Some (take (mcrypt_enc_get_iv_size lib t) iv)"
    "iv_size q = mcrypt_enc_get_iv_size lib t" "iv_size q \<le> TRANSMITTED_IV_SIZE"
    "keyed lib t (crypt_key (mcrypt_enc_get_key_size lib t) pw) (mcrypt_enc_get_key_size lib t) st"
    using False assms(2,5) s(2) by (auto simp: cipher_of_def)
  then have "mcrypt_enc_set_state lib st (take (iv_size q) (take (mcrypt_enc_get_iv_size lib t) iv)) = the (td s)"
    using assms(4,5) m s(3) by (auto simp: cipher_laws_def)
  with s q m assms(4) show ?thesis by (auto simp: in_step_def cipher_laws_def)
qed

end
