(* ===== verification/Nsca_System_Inv.thy ===== *)
theory Nsca_System_Inv
  imports Nsca_System Nsca_Handshake
begin

text \<open>
  What holds in every state a worker with its threads can reach, once all its crypt instances could be
  set up: the invariant \<open>system_inv\<close>, and that processing is defined under it.
\<close>

section \<open>Definedness of processing\<close>

definition fifos_all :: "nat \<Rightarrow> 'td network \<Rightarrow> bool" where
  "fifos_all k n \<longleftrightarrow> (\<forall>fcs. fifoClients n = Some fcs \<longrightarrow> length fcs = k \<and> list_all fifo_inv fcs)"

lemma fifos_all_ok: "fifos_all k n \<Longrightarrow> tid < k \<Longrightarrow> fifos_ok tid n"
  by (simp add: fifos_all_def fifos_ok_def)

lemma send_result_length:
  "send_result e tid chk n w = (n', ok, w') \<Longrightarrow> map_option length (fifoClients n') = map_option length (fifoClients n)"
  by (auto simp: send_result_def Let_def case_prod_beta split: option.splits if_splits)

lemma fifos_all_send:
  assumes "fifos_all k n" "tid < k" "send_receive_message e tid pkt (n, c, w) = Some (n', c', w')"
  shows "fifos_all k n'"
proof -
  note ok = fifos_all_ok [OF assms(1,2)]
  obtain b where s: "send_result e tid (packet_check pkt) n w = (n', b, w')"
    using assms(3) send_receive_message_result [OF ok, of e pkt c w]
    by (cases "send_result e tid (packet_check pkt) n w") simp
  from send_result_fifos_ok [OF ok s] send_result_length [OF s] assms(1) show ?thesis
    by (cases "fifoClients n") (auto simp: fifos_all_def fifos_ok_def)
qed

lemma fifos_all_report [simp]: "fifos_all k (report_success_failed g b n) = fifos_all k n"
  by (simp add: fifos_all_def report_success_failed_def Let_def)

lemma process_queue_all:
  assumes "process_queue lib alloc env tid CIp (n, c, w) = Some (CIp', n', c', w')" "fifos_all k n" "tid < k"
    and "kept lib Q" "Q CIp"
  shows "fifos_all k n' \<and> Q CIp'"
proof -
  have "delivery_keeps tid (fifos_all k)"
    unfolding delivery_keeps_def using fifos_all_send [OF _ assms(3)] by blast
  from process_queue_keeps [OF this _ assms(4,2,5,1)] show ?thesis by simp
qed

lemma process_queue_defined:
  assumes "cipher_ready n CIp" "fifos_ok tid n"
    and "\<And>t. mcrypt_enc_set_state lib t (mcrypt_enc_get_state lib t) = t"
  shows "\<exists>CIp' n' c' w'. process_queue lib alloc env tid CIp (n, c, w) = Some (CIp', n', c', w')"
proof -
  obtain n1 g b w1 where "loop_spec env tid 1 (queue_decoded lib n CIp (data_packets c))
      (n, (d_success c, d_failed c), w) = (n1, (g, b), w1)"
    by (metis prod_cases3 surj_pair)
  from process_queue_refines [OF assms this]
  have "\<exists>CIp' n' c' w'. process_queue lib True env tid CIp (n, c, w) = Some (CIp', n', c', w')" by blast
  moreover have "process_queue lib alloc env tid CIp (n, c, w) = process_queue lib True env tid CIp (n, c, w)"
    if "alloc \<or> \<not> 1 < decryption_method n"
    using that by (auto simp: process_queue_def)
  moreover have "\<exists>CIp' n' c' w'. process_queue lib False env tid CIp (n, c, w) = Some (CIp', n', c', w')"
    if "1 < decryption_method n"
    using that by (simp add: process_queue_def process_queue_mcrypt_def)
  ultimately show ?thesis by (cases "alloc \<or> \<not> 1 < decryption_method n") (simp, auto)
qed

section \<open>What the callbacks keep of the network\<close>

definition statics :: "'td network \<Rightarrow>
    (int \<times> int \<times> int \<times> bool) \<times> (string \<times> byte list \<times> int \<times> int \<times> string) \<times> fifo_client list option
      \<times> (u64 \<times> u64) \<times> bool \<times> 'td crypt_instance option" where
  "statics n = ((decryption_method n, nsca_threads_per_worker n, max_checks_per_connection n,
      shared_crypt_instance n), (password n, shared_transmission_iv n, max_packet_age n, max_packet_age_enabled n,
      command_file n), fifoClients n, (message_success n, message_failed n), use_network_CI n, CI n)"

lemma statics_simps [simp]:
  "statics (n\<lparr>connections := k\<rparr>) = statics n" "statics (n\<lparr>counter := k'\<rparr>) = statics n"
  "statics (n\<lparr>loopbreak := b\<rparr>) = statics n" "statics (n\<lparr>shutdown_requested := b\<rparr>) = statics n"
  "statics (n\<lparr>listener_enabled := b\<rparr>) = statics n" "statics (n\<lparr>loopexit := b\<rparr>) = statics n"
  "statics (n\<lparr>timer_armed := b\<rparr>) = statics n"
  by (simp_all add: statics_def shared_crypt_instance_def)

lemma statics_listener: "listener_proxy b r n = (n', r', co) \<Longrightarrow> statics n' = statics n"
  by (auto simp: listener_proxy_def take_variables_def nc_init_events_def proper_destroy_def Let_def
      case_prod_beta split: if_splits)

lemma statics_received: "received alloc bs n c = (n', co) \<Longrightarrow> statics n' = statics n"
  by (auto simp: received_def readcb_outcome proper_destroy_def split: if_splits)

lemma statics_closed: "connection_closed lib mem r n c = (n', r', cl) \<Longrightarrow> statics n' = statics n"
  by (auto simp: connection_closed_def Let_def case_prod_beta split: if_splits)

lemma statics_eventcb: "eventcb lib mem alloc r n c = Some (n', r', cl) \<Longrightarrow> statics n' = statics n"
  by (auto simp: eventcb_def dest: statics_closed)

lemma statics_tick: "statics (fst (timer_tick e f t ct n w)) = statics n"
  by (simp add: timer_tick_def Let_def statics_def shared_crypt_instance_def split: option.split)

lemma statics_timer: "timer_proxy e f t ct n w = (n', w') \<Longrightarrow> statics n' = statics n"
  using statics_tick [of e f t ct n w]
  by (auto simp: timer_proxy_def network_stop_def Let_def case_prod_beta split: if_splits)

lemma statics_run_start: "network_run_start e n = (n', calls) \<Longrightarrow> statics n' = statics n"
  by (auto simp: network_run_start_def start_timer_def Let_def case_prod_beta statics_def
      shared_crypt_instance_def split: option.splits)

lemma statics_eqD:
  assumes "statics n' = statics n"
  shows "decryption_method n' = decryption_method n" "nsca_threads_per_worker n' = nsca_threads_per_worker n"
    "max_checks_per_connection n' = max_checks_per_connection n"
    "shared_crypt_instance n' = shared_crypt_instance n" "fifoClients n' = fifoClients n"
    "use_network_CI n' = use_network_CI n" "CI n' = CI n"
    "password n' = password n" "shared_transmission_iv n' = shared_transmission_iv n"
    "max_packet_age n' = max_packet_age n" "max_packet_age_enabled n' = max_packet_age_enabled n"
    "command_file n' = command_file n" "message_success n' = message_success n" "message_failed n' = message_failed n"
  using assms by (simp_all add: statics_def)

lemma net_core_eqD:
  assumes "net_core n' = net_core n"
  shows "decryption_method n' = decryption_method n" "nsca_threads_per_worker n' = nsca_threads_per_worker n"
    "max_checks_per_connection n' = max_checks_per_connection n"
    "shared_crypt_instance n' = shared_crypt_instance n"
    "use_network_CI n' = use_network_CI n" "CI n' = CI n"
    "password n' = password n" "shared_transmission_iv n' = shared_transmission_iv n"
  using assms [THEN arg_cong, of decryption_method] assms [THEN arg_cong, of nsca_threads_per_worker]
    assms [THEN arg_cong, of max_checks_per_connection] assms [THEN arg_cong, of decryption_mode]
    assms [THEN arg_cong, of use_network_CI] assms [THEN arg_cong, of CI]
    assms [THEN arg_cong, of password] assms [THEN arg_cong, of shared_transmission_iv]
  by (simp_all add: net_core_def shared_crypt_instance_def)

section \<open>The invariant\<close>

text \<open>The instance made from the password and the IV \<open>iv\<close>, however often it has been used.\<close>

abbreviation server_cipher ::
    "'td mcrypt \<Rightarrow> 'td network \<Rightarrow> byte list \<Rightarrow> 'td crypt_instance option \<Rightarrow> bool" where
  "server_cipher lib n iv CIp \<equiv> cipher_of lib (password n) (decryption_method n) iv CIp"

text \<open>The IV that is in the greeting of a connection (\<open>writecb\<close>).\<close>

definition greeting_iv :: "'td network \<Rightarrow> 'td network_client \<Rightarrow> byte list" where
  "greeting_iv n c = (case transmission_iv c of Some v \<Rightarrow> v | None \<Rightarrow> shared_transmission_iv n)"

definition net_ok :: "'td mcrypt \<Rightarrow> 'td network \<Rightarrow> bool" where
  "net_ok lib n \<longleftrightarrow> 0 \<le> decryption_method n \<and> 0 \<le> nsca_threads_per_worker n
     \<and> fifos_all (max 1 (nat (nsca_threads_per_worker n))) n
     \<and> length (shared_transmission_iv n) = TRANSMITTED_IV_SIZE
     \<and> (CI n \<noteq> None \<longrightarrow> server_cipher lib n (shared_transmission_iv n) (CI n))
     \<and> (nsca_threads_per_worker n = 0 \<and> shared_crypt_instance n \<longrightarrow> use_network_CI n \<and> CI n \<noteq> None)"

definition peer_ok :: "'td network \<Rightarrow> 'td network_client \<Rightarrow> bool" where
  "peer_ok n c \<longleftrightarrow> \<not> has_own_CI c \<and> d_success c = 0 \<and> d_failed c = 0
     \<and> (transmission_iv c = None \<longleftrightarrow> shared_crypt_instance n)
     \<and> length (greeting_iv n c) = TRANSMITTED_IV_SIZE
     \<and> (nsca_threads_per_worker n = 0 \<and> shared_crypt_instance n \<longrightarrow> ci_pointer c = CI_network)"

definition conn_ok :: "'td network \<Rightarrow> 'td network_client \<Rightarrow> bool" where
  "conn_ok n c \<longleftrightarrow> (\<exists>s. conn_inv (max_checks_per_connection n) s c) \<and> peer_ok n c"

text \<open>A client whose connection has ended: its own instance, if it has one, is made from its IV.\<close>

definition client_ok :: "'td mcrypt \<Rightarrow> 'td network \<Rightarrow> 'td network_client \<Rightarrow> bool" where
  "client_ok lib n c \<longleftrightarrow> d_success c = 0 \<and> d_failed c = 0
     \<and> length (greeting_iv n c) = TRANSMITTED_IV_SIZE
     \<and> (if has_own_CI c then server_cipher lib n (greeting_iv n c) (own_CI c) else transmission_iv c = None)"

definition job_ok :: "'td mcrypt \<Rightarrow> 'td network \<Rightarrow> 'td job \<Rightarrow> bool" where
  "job_ok lib n j \<longleftrightarrow> job_method j = THREADMANAGER_METHOD_DECRYPT_PACKET \<and> client_ok lib n (networkClient j)"

definition thread_ok ::
    "'td mcrypt \<Rightarrow> 'td network \<Rightarrow> 'td job crypt_thread \<times> 'td crypt_instance option \<Rightarrow> bool" where
  "thread_ok lib n tc \<longleftrightarrow> ct_reach (fst tc) \<and> joiner (fst tc) = J_none
     \<and> server_cipher lib n (shared_transmission_iv n) (snd tc)
     \<and> list_all (job_ok lib n) (in_progress (fst tc) @ queue_items (fst tc))"

definition pool_ok :: "'td mcrypt \<Rightarrow> 'td network \<Rightarrow> ('td job, 'td) thread_manager \<Rightarrow> bool" where
  "pool_ok lib n p \<longleftrightarrow> max_crypt_threads p = nsca_threads_per_worker n
     \<and> 0 \<le> lazy_job_counter p \<and> lazy_job_counter p \<le> max_crypt_threads p
     \<and> (\<exists>ts. crypt_threads p = Some ts \<and> int (length ts) = max_crypt_threads p \<and> list_all (thread_ok lib n) ts)"

definition system_inv :: "'td mcrypt \<Rightarrow> 'td system \<Rightarrow> bool" where
  "system_inv lib s \<longleftrightarrow>
     (let e = event_loop s
      in handed e = [] \<and> net_ok lib (net e) \<and> list_all (conn_ok (net e)) (conns e)
         \<and> pool_ok lib (net e) (pool s))"

text \<open>Two networks with the same settings are the same to connections, jobs and threads.\<close>

definition same_settings :: "'td network \<Rightarrow> 'td network \<Rightarrow> bool" where
  "same_settings n n' \<longleftrightarrow> decryption_method n' = decryption_method n
     \<and> nsca_threads_per_worker n' = nsca_threads_per_worker n
     \<and> max_checks_per_connection n' = max_checks_per_connection n
     \<and> shared_crypt_instance n' = shared_crypt_instance n
     \<and> password n' = password n \<and> shared_transmission_iv n' = shared_transmission_iv n"

lemma same_settings_oks:
  assumes "same_settings n n'"
  shows "conn_ok n' = conn_ok n" "client_ok lib n' = client_ok lib n" "job_ok lib n' = job_ok lib n"
    "thread_ok lib n' = thread_ok lib n" "pool_ok lib n' = pool_ok lib n"
proof -
  have g: "greeting_iv n' = greeting_iv n"
    using assms by (simp add: fun_eq_iff greeting_iv_def same_settings_def split: option.split)
  then show c: "client_ok lib n' = client_ok lib n"
    using assms by (simp add: fun_eq_iff client_ok_def same_settings_def)
  show j: "job_ok lib n' = job_ok lib n" by (simp add: fun_eq_iff job_ok_def c)
  show t: "thread_ok lib n' = thread_ok lib n"
    using assms by (intro ext) (simp add: thread_ok_def j same_settings_def)
  show "conn_ok n' = conn_ok n"
    using assms g by (simp add: fun_eq_iff conn_ok_def peer_ok_def same_settings_def)
  show "pool_ok lib n' = pool_ok lib n" using assms by (intro ext) (simp add: pool_ok_def t same_settings_def)
qed

lemma statics_settings: "statics n' = statics n \<Longrightarrow> same_settings n n'"
  by (simp add: same_settings_def statics_def)

lemma statics_net_ok: "statics n' = statics n \<Longrightarrow> net_ok lib n' = net_ok lib n"
  using statics_eqD [of n' n] by (simp add: net_ok_def fifos_all_def)

text \<open>Processing keeps the network in order, and the instance it uses.\<close>

lemma process_queue_net_ok:
  assumes "process_queue lib alloc env tid CIp (n, c, w) = Some (CIp', n', c', w')"
    and "net_ok lib n" "tid < max 1 (nat (nsca_threads_per_worker n))"
  shows "same_settings n n'" "net_ok lib n'"
    and "server_cipher lib n iv CIp \<Longrightarrow> server_cipher lib n' iv CIp'"
    and "CIp = CI n \<Longrightarrow> CIp \<noteq> None \<Longrightarrow> net_ok lib (n'\<lparr>CI := CIp'\<rparr>)"
proof -
  note core = net_core_eqD [OF process_queue_core [OF assms(1)]]
  note keeps = process_queue_all [OF assms(1) _ assms(3)]
  have f: "fifos_all (max 1 (nat (nsca_threads_per_worker n))) n"
    using assms(2) by (simp add: net_ok_def)
  have f': "fifos_all (max 1 (nat (nsca_threads_per_worker n))) n'"
    using keeps [OF f kept_same_instance same_instance_refl] by simp
  have cipher: "server_cipher lib n iv CIp'" if "server_cipher lib n iv CIp" for iv
    using keeps [OF f kept_cipher_of that] by simp
  from core show "same_settings n n'" by (simp add: same_settings_def)
  from core f' assms(2) show "net_ok lib n'" by (simp add: net_ok_def)
  show "server_cipher lib n iv CIp \<Longrightarrow> server_cipher lib n' iv CIp'"
    using cipher core by simp
  show "net_ok lib (n'\<lparr>CI := CIp'\<rparr>)" if "CIp = CI n" "CIp \<noteq> None"
  proof -
    have c: "server_cipher lib n (shared_transmission_iv n) CIp'"
      using cipher that assms(2) by (auto simp: net_ok_def)
    then have "CIp' \<noteq> None" by (auto simp: cipher_of_def)
    with c core f' assms(2) that show ?thesis
      by (simp add: net_ok_def fifos_all_def shared_crypt_instance_def)
  qed
qed

section \<open>Callbacks keep the invariant\<close>

lemma conn_ok_accepted:
  assumes "listener_proxy b r n = (n', r', Open c)" "net_ok lib n"
  shows "conn_ok n c"
proof -
  have "conn_inv (max_checks_per_connection n) [] c"
    using listener_proxy_conn [OF assms(1)] by (simp add: conn_inv_def)
  moreover have "ci_pointer c = CI_network" if "use_network_CI n" "CI n \<noteq> None"
    using assms(1) that
    by (auto simp: listener_proxy_def take_variables_def nc_init_events_def set_CI_def new_network_client_def
        Let_def case_prod_beta split: if_splits)
  moreover have "transmission_iv c = (if shared_crypt_instance n then None else Some (fst (generate_transmitted_iv r)))"
    using assms(1)
    by (auto simp: listener_proxy_def take_variables_def nc_init_events_def set_CI_def new_network_client_def
        shared_crypt_instance_def Let_def case_prod_beta split: if_splits)
  ultimately show ?thesis
    using assms(2) by (auto simp: conn_ok_def peer_ok_def conn_inv_def net_ok_def greeting_iv_def)
qed

lemma conn_ok_received:
  assumes "received alloc bs n c = (n', Open c')" "conn_ok n c"
  shows "conn_ok n c'"
proof -
  have "ci_pointer c' = ci_pointer c" "transmission_iv c' = transmission_iv c" "has_own_CI c' = has_own_CI c"
      "d_success c' = d_success c" "d_failed c' = d_failed c"
    using assms(1) by (auto simp: received_def readcb_outcome take_packet_def count_read_def split: if_splits)
  with assms conn_inv_received [OF _ refl assms(1)] show ?thesis
    by (auto simp: conn_ok_def peer_ok_def greeting_iv_def)
qed

lemma conn_ok_writecb: "conn_ok n c \<Longrightarrow> conn_ok n (writecb m c)"
  by (simp add: conn_ok_def peer_ok_def conn_inv_def greeting_iv_def writecb_def Let_def)

lemma list_all_update: "list_all P xs \<Longrightarrow> P x \<Longrightarrow> list_all P (xs[i := x])"
  by (auto simp: list_all_iff dest: set_update_subset_insert [THEN subsetD])

lemma list_all_remove_nth: "list_all P xs \<Longrightarrow> list_all P (remove_nth i xs)"
  by (auto simp: list_all_iff remove_nth_def dest: in_set_takeD in_set_dropD)

lemma callback_inv:
  assumes "worker_step lib e e'" "handed e = []" "net_ok lib (net e)" "list_all (conn_ok (net e)) (conns e)"
  shows "statics (net e') = statics (net e) \<and> list_all (conn_ok (net e)) (conns e')"
  using assms(1)
proof (cases rule: worker_stepE
    [consumes 1, case_names accept accept_fails recv recv_refused send close process timer sigint])
  case (accept b n r c)
  with assms(4) conn_ok_accepted [OF accept(3) assms(3)] show ?thesis
    by (simp add: statics_listener [OF accept(3)])
next
  case (accept_fails b n r)
  with assms(4) show ?thesis by (simp add: statics_listener [OF accept_fails(3)])
next
  case (recv i alloc bs n c)
  have "conn_ok (net e) (conns e ! i)" using assms(4) recv(2) by (simp add: list_all_length)
  with recv assms(4) conn_ok_received [OF recv(3)] show ?thesis
    by (simp add: statics_received [OF recv(3)] list_all_update)
next
  case (recv_refused i alloc bs n)
  with assms(4) show ?thesis by (simp add: statics_received [OF recv_refused(3)] list_all_remove_nth)
next
  case (send i)
  have "conn_ok (net e) (conns e ! i)" using assms(4) send(2) by (simp add: list_all_length)
  with send assms(4) show ?thesis by (simp add: list_all_update conn_ok_writecb)
next
  case (close i mem alloc n r cl)
  with assms(4) show ?thesis by (simp add: statics_eventcb [OF close(3)] list_all_remove_nth)
next
  case (timer t f tn ct n w)
  with assms(4) show ?thesis by (simp add: statics_timer [OF timer(3)])
qed (use assms(2,4) in \<open>simp_all add: network_sigint_def\<close>)

section \<open>The end of a connection\<close>

text \<open>Whichever way a closed client goes, the instance it will be decrypted with is ready.\<close>

definition closed_ok :: "'td mcrypt \<Rightarrow> 'td network \<Rightarrow> 'td network_client \<Rightarrow> bool" where
  "closed_ok lib n c \<longleftrightarrow> client_ok lib n c \<and> (has_own_CI c \<longrightarrow> ci_pointer c = CI_own)
     \<and> (\<not> has_own_CI c \<and> nsca_threads_per_worker n = 0 \<longrightarrow> ci_pointer c = CI_network \<and> CI n \<noteq> None)"

lemma client_instance_cipher:
  assumes "closed_ok lib n c" "net_ok lib n" "nsca_threads_per_worker n = 0"
  shows "server_cipher lib n (greeting_iv n c) (client_instance n c)"
  using assms by (auto simp: closed_ok_def client_ok_def net_ok_def client_instance_def greeting_iv_def split: if_splits)

lemma closed_ok_same:
  assumes "statics n' = statics n"
  shows "closed_ok lib n' c = closed_ok lib n c"
  using same_settings_oks(2) [OF statics_settings [OF assms], of lib] statics_eqD(2,7) [OF assms]
  by (simp add: closed_ok_def)

lemma connection_closed_ok:
  assumes "connection_closed lib mem r n c = (n', r', cl)" "cl = To_thread c' \<or> cl = Process c'"
    and "peer_ok n c" "net_ok lib n"
  shows "closed_ok lib n c'"
proof -
  let ?n = "n\<lparr>connections := connections n - 1\<rparr>"
  obtain rc ci r1 where e: "encrypt_init lib mem (password n) (decryption_method n) (transmission_iv c) r
      = (rc, ci, r1)" by (metis prod_cases3)
  have sh: "shared_crypt_instance ?n = shared_crypt_instance n" by (simp add: shared_crypt_instance_def)
  have c: "\<not> has_own_CI c" "d_success c = 0" "d_failed c = 0" "length (greeting_iv n c) = TRANSMITTED_IV_SIZE"
    using assms(3) by (simp_all add: peer_ok_def)
  show ?thesis
  proof (cases "shared_crypt_instance n")
    case True
    then have "c' = c" using assms(1,2) sh by (auto simp: connection_closed_def Let_def split: if_splits)
    with True c assms(3,4) show ?thesis by (auto simp: closed_ok_def client_ok_def net_ok_def peer_ok_def)
  next
    case False
    then have rc: "rc = OK" and c': "c' = c\<lparr>own_CI := ci, ci_pointer := (if ci = None then CI_null else CI_own),
        has_own_CI := True\<rparr>"
      using assms(1,2) sh e by (auto simp: connection_closed_def Let_def split: if_splits)
    have "transmission_iv c = Some (greeting_iv n c)"
      using False assms(3) by (auto simp: peer_ok_def greeting_iv_def)
    then have ci: "server_cipher lib n (greeting_iv n c) ci"
      using e rc encrypt_init_cipher_of by metis
    then have "ci \<noteq> None" by (auto simp: cipher_of_def)
    with ci c c' show ?thesis by (simp add: closed_ok_def client_ok_def greeting_iv_def)
  qed
qed

lemma eventcb_closed:
  assumes "eventcb lib mem alloc r n c = Some (n', r', cl)" "cl = To_thread c' \<or> cl = Process c'"
    and "conn_ok n c" "net_ok lib n"
  shows "closed_ok lib n c'" "0 < nsca_threads_per_worker n \<longleftrightarrow> cl = To_thread c'"
proof -
  obtain c1 where c1: "eventcb_queue alloc c = Some c1" "connection_closed lib mem r n c1 = (n', r', cl)"
    using assms(1) by (auto simp: eventcb_def)
  show "0 < nsca_threads_per_worker n \<longleftrightarrow> cl = To_thread c'"
    using c1(2) assms(2) by (auto simp: connection_closed_def Let_def case_prod_beta split: if_splits)
  have "peer_ok n c1"
    using c1(1) assms(3)
    by (auto simp: eventcb_queue_def conn_ok_def peer_ok_def greeting_iv_def Let_def split: if_splits)
  then show "closed_ok lib n c'" by (rule connection_closed_ok [OF c1(2) assms(2) _ assms(4)])
qed

section \<open>Threads keep the invariant\<close>

lemma thread_okD: "pool_ok lib n p \<Longrightarrow> thread_at p k = Some tc \<Longrightarrow> thread_ok lib n tc"
  by (auto simp: pool_ok_def thread_at_iff list_all_length)

lemma pool_ok_set_thread:
  "pool_ok lib n p \<Longrightarrow> thread_ok lib n tc \<Longrightarrow> pool_ok lib n (set_thread k tc p)"
  by (auto simp: pool_ok_def set_thread_def list_all_update)

lemma next_thread_at:
  assumes "pool_ok lib n p" "0 < nsca_threads_per_worker n"
  shows "\<exists>tc. thread_at p (next_thread p) = Some tc"
  using assms by (auto simp: pool_ok_def thread_at_iff next_thread_def)

lemma add_job_ok:
  assumes "pool_ok lib n p" "thread_at p (next_thread p) = Some (t, CIp)" "can_add t" "job_ok lib n j"
  obtains p' where "add_job j p = Some p'" "pool_ok lib n p'"
proof -
  obtain ts where ts: "crypt_threads p = Some ts" "next_thread p < length ts" "ts ! next_thread p = (t, CIp)"
    using assms(2) by (auto simp: thread_at_iff)
  have ok: "thread_ok lib n (t, CIp)" by (rule thread_okD [OF assms(1,2)])
  then have "ct_reach (ct_push j t)"
    using assms(3) by (auto simp: thread_ok_def can_add_def intro: ct_reach.step ct_step.add_push)
  then have ok': "thread_ok lib n (ct_push j t, CIp)"
    using ok assms(4) by (simp add: thread_ok_def ct_push_def in_progress_def)
  let ?i = "if max_crypt_threads p \<le> lazy_job_counter p then 0 else lazy_job_counter p"
  have i: "0 \<le> ?i" "?i < int (length ts)" "nat ?i = next_thread p" "?i + 1 \<le> max_crypt_threads p"
    using assms(1) ts by (auto simp: pool_ok_def next_thread_def)
  let ?p = "p\<lparr>crypt_threads := Some (ts[next_thread p := (ct_push j t, CIp)]), lazy_job_counter := ?i + 1\<rparr>"
  have "add_job j p = Some ?p"
    using ts i by (simp add: add_job_def Let_def)
  moreover have "pool_ok lib n ?p"
    using assms(1) ts(1) ok' i by (auto simp: pool_ok_def list_all_update)
  ultimately show thesis using that by blast
qed

lemma job_ok_closed: "closed_ok lib n c \<Longrightarrow> job_ok lib n (decrypt_job c)"
  by (simp add: closed_ok_def job_ok_def decrypt_job_def)

lemma thread_ok_loop:
  assumes "thread_ok lib n (t, CIp)" "ct_loop_step t = Some t'"
    and "server_cipher lib n (shared_transmission_iv n) CIp'"
  shows "thread_ok lib n (t', CIp')"
proof -
  have "ct_reach t'" using assms(1,2) by (auto simp: thread_ok_def intro: ct_reach.step ct_step.loop_step)
  moreover have "list_all (job_ok lib n) (in_progress t' @ queue_items t')"
    using assms(1,2) by (cases "tpc t"; cases "queue_items t")
      (auto simp: thread_ok_def ct_loop_step_def in_progress_def split: if_splits)
  moreover have "joiner t' = J_none"
    using assms(1,2) by (cases "tpc t"; cases "queue_items t")
      (auto simp: thread_ok_def ct_loop_step_def split: if_splits)
  ultimately show ?thesis using assms(3) by (simp add: thread_ok_def)
qed

lemma thread_ok_wake:
  assumes "thread_ok lib n (t, CIp)"
  shows "tpc t = T_wait \<Longrightarrow> thread_ok lib n (ct_wake t, CIp)"
    and "notifying t \<Longrightarrow> thread_ok lib n (ct_wake (t\<lparr>notifying := False\<rparr>), CIp)"
  using assms by (auto simp: thread_ok_def intro: ct_reach.step ct_step.spurious ct_step.add_notify)

text \<open>
  The instance a client of a thread is decrypted with is made from the IV of its greeting, and what
  running its job comes to.
\<close>

definition job_instance :: "'td crypt_instance option \<Rightarrow> 'td network_client \<Rightarrow> 'td crypt_instance option" where
  "job_instance CIp c = (if has_own_CI c then own_CI c else CIp)"

lemma job_instance_cipher:
  assumes "thread_ok lib n (t, CIp)" "job_ok lib n j"
  shows "server_cipher lib n (greeting_iv n (networkClient j)) (job_instance CIp (networkClient j))"
  using assms by (auto simp: job_instance_def thread_ok_def job_ok_def client_ok_def greeting_iv_def)

lemma run_job_eq:
  assumes "thread_ok lib n (t, CIp)" "job_ok lib n j"
  shows "run_job lib alloc env k j (CIp, n, w) =
    map_option (\<lambda>(CIp', n', _, w'). (if has_own_CI (networkClient j) then CIp else CIp', n', w'))
      (process_queue lib alloc env k (job_instance CIp (networkClient j)) (n, set_CI CI_thread (networkClient j), w))"
proof -
  have "CIp \<noteq> None" using assms(1) by (auto simp: thread_ok_def cipher_of_def)
  moreover have "job_method j = THREADMANAGER_METHOD_DECRYPT_PACKET" using assms(2) by (simp add: job_ok_def)
  moreover have "has_own_CI (set_CI CI_thread (networkClient j)) = has_own_CI (networkClient j)"
    "own_CI (set_CI CI_thread (networkClient j)) = own_CI (networkClient j)" by (simp_all add: set_CI_def)
  ultimately show ?thesis
    by (auto simp: run_job_def job_instance_def Let_def split: option.split)
qed

lemma running_job_ok: "thread_ok lib n (t, CIp) \<Longrightarrow> tpc t = T_run j \<Longrightarrow> job_ok lib n j"
  by (simp add: thread_ok_def in_progress_def)

section \<open>Every reachable state\<close>

text \<open>
  What is assumed of the start: \<open>check_config\<close> refuses a negative method, and every thread gets its
  cipher, whatever the IV and the state of the generator.
\<close>

definition started_ok :: "'td mcrypt \<Rightarrow> (nat \<Rightarrow> alloc_site \<Rightarrow> bool) \<Rightarrow> config \<Rightarrow> bool" where
  "started_ok lib tmem cfg \<longleftrightarrow>
     0 \<le> c_int (GetInt cfg ''decryption_method'' 0)
     \<and> (\<forall>i iv r. fst (encrypt_init lib (tmem i) (Get cfg ''password'' [])
           (c_int (GetInt cfg ''decryption_method'' 0)) (Some iv) r) = OK)"

lemma system_start_inv:
  assumes "system_start lib tmem cfg s" "started_ok lib tmem cfg"
  shows "system_inv lib s"
proof -
  from assms(1) obtain mem t ct ifd r sw rand urandom time e n0 n calls p g w where
    tm: "thread_manager_start lib tmem cfg r (new_thread_manager rand urandom time cfg) = Some p"
    and nw: "new_network lib mem cfg t ct ifd (shared_transmitted_iv p) r sw = Inr n0"
    and run: "network_run_start e n0 = (n, calls)"
    and s: "s = \<lparr>event_loop = \<lparr>net = n, conns = [], handed = [], generator = g, w_world = w\<rparr>, pool = p\<rparr>"
    by (rule system_startE)
  let ?tm = "new_thread_manager rand urandom time cfg :: ('a job, 'a) thread_manager"
  let ?threads = "c_int (GetInt cfg ''nsca_threads_per_worker'' 0)"
  note set = new_network_settings [OF nw]
  have m: "0 \<le> decryption_method n0" using assms(2) set(1) by (simp add: started_ok_def)
  have th: "0 \<le> nsca_threads_per_worker n0"
    using tm set(4) by (auto simp: thread_manager_start_def new_thread_manager_def split: if_splits)
  have "fifos_all (max 1 (nat (nsca_threads_per_worker n0))) n0"
    using set(5) by (auto simp: fifos_all_def new_fifo_client_def fifo_inv_def list_all_iff split: if_splits)
  moreover have "CI n0 \<noteq> None \<longrightarrow> server_cipher lib n0 (shared_transmission_iv n0) (CI n0)"
    using new_network_instance(1) [OF nw] encrypt_init_cipher_of set(10) by metis
  moreover have iv: "shared_transmission_iv n0 = shared_transmitted_iv ?tm"
    using tm set(10) by (auto simp: thread_manager_start_def Let_def split: if_splits)
  ultimately have n0: "net_ok lib n0"
    using m th set(7,8) by (auto simp: net_ok_def new_thread_manager_def)
  have n: "net_ok lib n" "same_settings n0 n"
    using n0 statics_run_start [OF run] statics_net_ok statics_settings by blast+
  obtain ts where ts: "crypt_threads p = Some ts" "length ts = nat ?threads" "max_crypt_threads p = ?threads"
      "lazy_job_counter p = 0"
    using tm th set(4) by (auto simp: thread_manager_start_def new_thread_manager_def Let_def split: if_splits)
  have "thread_ok lib n0 (ts ! i)" if i: "i < length ts" for i
  proof -
    have "fst (ts ! i) = new_crypt_thread"
      using tm ts(1) i by (auto simp: thread_manager_start_def new_thread_manager_def Let_def split: if_splits)
    obtain x CIp y where e: "encrypt_init lib (tmem i) (Get cfg ''password'' [])
        (c_int (GetInt cfg ''decryption_method'' 0)) (Some (shared_transmitted_iv ?tm)) r = (x, CIp, y)"
      by (metis prod_cases3)
    moreover have "x = OK" using assms(2) e by (auto simp: started_ok_def) (metis fst_conv)
    moreover have "snd (ts ! i) = CIp"
      using started_instances(2) [OF tm _ ts(1) i] e by (simp add: new_thread_manager_def)
    ultimately have "server_cipher lib n0 (shared_transmission_iv n0) (snd (ts ! i))"
      using encrypt_init_cipher_of set(1,9) iv by metis
    with \<open>fst (ts ! i) = new_crypt_thread\<close> show ?thesis
      using ct_reach.init by (cases "ts ! i") (simp add: thread_ok_def, simp add: new_crypt_thread_def in_progress_def)
  qed
  then have "list_all (thread_ok lib n0) ts" by (simp add: list_all_length)
  then have "pool_ok lib n0 p" using ts th set(4) by (simp add: pool_ok_def)
  with n same_settings_oks(5) [OF n(2)] show ?thesis by (simp add: system_inv_def s)
qed

lemma system_invD:
  assumes "system_inv lib s"
  shows "handed (event_loop s) = []" "net_ok lib (net (event_loop s))"
    "list_all (conn_ok (net (event_loop s))) (conns (event_loop s))" "pool_ok lib (net (event_loop s)) (pool s)"
  using assms by (simp_all add: system_inv_def Let_def)

text \<open>The steps of the system one by one.\<close>

lemma inv_to_thread:
  assumes "system_inv lib s" "i < length (conns (event_loop s))"
    and e: "eventcb lib mem alloc (generator (event_loop s)) (net (event_loop s)) (conns (event_loop s) ! i)
      = Some (n, r, To_thread c)"
    and p: "thread_at (pool s) (next_thread (pool s)) = Some (t, CIp)" "can_add t"
      "add_job (decrypt_job c) (pool s) = Some p"
  shows "system_inv lib (s\<lparr>event_loop := (event_loop s)\<lparr>net := n, generator := r,
    conns := remove_nth i (conns (event_loop s))\<rparr>, pool := p\<rparr>)"
proof -
  note inv = system_invD [OF assms(1)]
  let ?e = "event_loop s"
  have ci: "conn_ok (net ?e) (conns ?e ! i)" using inv(3) assms(2) by (simp add: list_all_length)
  have st: "statics n = statics (net ?e)" by (rule statics_eventcb [OF e])
  have "closed_ok lib (net ?e) c" using eventcb_closed(1) [OF e _ ci inv(2)] by simp
  with add_job_ok [OF inv(4) p(1,2) job_ok_closed] p(3)
  have "pool_ok lib (net ?e) p" by (metis option.inject)
  with inv statics_net_ok [OF st] show ?thesis
    by (simp add: system_inv_def same_settings_oks [OF statics_settings [OF st]] list_all_remove_nth)
qed

lemma inv_at_once:
  assumes "system_inv lib s" "i < length (conns (event_loop s))"
    and e: "eventcb lib mem alloc (generator (event_loop s)) (net (event_loop s)) (conns (event_loop s) ! i)
      = Some (n, r, Process c)"
    and pq: "process_queue lib alloc' env 0 (client_instance n c) (n, c, w_world (event_loop s)) = Some (CIp, n', c', w)"
  shows "system_inv lib (s\<lparr>event_loop := (event_loop s)\<lparr>net := keep_instance c CIp n', generator := r,
    conns := remove_nth i (conns (event_loop s)), w_world := w\<rparr>\<rparr>)"
proof -
  note inv = system_invD [OF assms(1)]
  have st: "statics n = statics (net (event_loop s))" by (rule statics_eventcb [OF e])
  then have n: "net_ok lib n" using inv(2) statics_net_ok by blast
  note pq = process_queue_net_ok [OF pq n]
  have ci: "conn_ok (net (event_loop s)) (conns (event_loop s) ! i)" using inv(3) assms(2) by (simp add: list_all_length)
  note cl = eventcb_closed [OF e _ ci inv(2), of c]
  have c: "ci_pointer c = CI_network \<longrightarrow> CI n \<noteq> None"
    using cl inv(2) statics_eqD(7) [OF st] by (auto simp: closed_ok_def net_ok_def)
  have k: "same_settings n (keep_instance c CIp n')" "net_ok lib (keep_instance c CIp n')"
    using pq c by (auto simp: keep_instance_def client_instance_def same_settings_def shared_crypt_instance_def
        split: if_splits)
  note ss = same_settings_oks [OF statics_settings [OF st]] same_settings_oks [OF k(1)]
  show ?thesis using inv k(2) by (simp add: system_inv_def ss list_all_remove_nth)
qed

lemma inv_thread_runs:
  assumes "system_inv lib s" "thread_at (pool s) k = Some (t, CIp)" "tpc t = T_run j"
    and "run_job lib alloc env k j (CIp, net (event_loop s), w_world (event_loop s)) = Some (CIp', n, w)"
    and "ct_loop_step t = Some t'"
  shows "system_inv lib (s\<lparr>event_loop := (event_loop s)\<lparr>net := n, w_world := w\<rparr>,
    pool := set_thread k (t', CIp') (pool s)\<rparr>)"
proof -
  note inv = system_invD [OF assms(1)]
  let ?e = "event_loop s" and ?c = "networkClient j"
  have ok: "thread_ok lib (net ?e) (t, CIp)" by (rule thread_okD [OF inv(4) assms(2)])
  have j: "job_ok lib (net ?e) j" by (rule running_job_ok [OF ok assms(3)])
  have k: "k < max 1 (nat (nsca_threads_per_worker (net ?e)))"
    using inv(4) assms(2) by (auto simp: thread_at_iff pool_ok_def)
  obtain q c' where pq: "process_queue lib alloc env k (job_instance CIp ?c)
        (net ?e, set_CI CI_thread ?c, w_world ?e) = Some (q, n, c', w)"
      and CIp': "CIp' = (if has_own_CI ?c then CIp else q)"
    using assms(4) run_job_eq [OF ok j, of alloc env k "w_world ?e"] by auto
  note res = process_queue_net_ok [OF pq inv(2) k]
  have "server_cipher lib (net ?e) (shared_transmission_iv (net ?e)) CIp'"
    using res(1,3) ok CIp' by (auto simp: thread_ok_def job_instance_def same_settings_def)
  then have "thread_ok lib (net ?e) (t', CIp')" by (rule thread_ok_loop [OF ok assms(5)])
  with inv assms(2) res(2) same_settings_oks [OF res(1)] show ?thesis
    by (simp add: system_inv_def pool_ok_set_thread)
qed

lemma system_inv_step:
  assumes "system_inv lib s" "system_step lib s s'"
  shows "system_inv lib s'"
  using assms(2)
proof (cases rule: system_stepE [consumes 1, case_names callback to_thread at_once thread_moves
      thread_wakes thread_notified thread_runs])
  case (callback e)
  note inv = system_invD [OF assms(1)]
  from callback_inv [OF callback(2) inv(1-3)]
  have st: "statics (net e) = statics (net (event_loop s))"
    and c: "list_all (conn_ok (net (event_loop s))) (conns e)" by simp_all
  show ?thesis using callback c inv statics_net_ok [OF st]
    by (simp add: system_inv_def same_settings_oks [OF statics_settings [OF st]])
next
  case (to_thread i mem alloc n r c t CIp p)
  then show ?thesis using inv_to_thread [OF assms(1)] by simp
next
  case (at_once i mem alloc n r c alloc' env CIp n' c' w)
  then show ?thesis using inv_at_once [OF assms(1)] by simp
next
  case (thread_moves k t CIp t')
  note inv = system_invD [OF assms(1)]
  have ok: "thread_ok lib (net (event_loop s)) (t, CIp)" by (rule thread_okD [OF inv(4) thread_moves(2)])
  then have "thread_ok lib (net (event_loop s)) (t', CIp)"
    by (intro thread_ok_loop [OF ok thread_moves(4)]) (simp add: thread_ok_def)
  with inv thread_moves show ?thesis by (simp add: system_inv_def pool_ok_set_thread)
next
  case (thread_wakes k t CIp)
  note inv = system_invD [OF assms(1)]
  from inv thread_wakes thread_ok_wake(1) [OF thread_okD [OF inv(4) thread_wakes(2)]] show ?thesis
    by (simp add: system_inv_def pool_ok_set_thread)
next
  case (thread_notified k t CIp)
  note inv = system_invD [OF assms(1)]
  from inv thread_notified thread_ok_wake(2) [OF thread_okD [OF inv(4) thread_notified(2)]] show ?thesis
    by (simp add: system_inv_def pool_ok_set_thread)
next
  case (thread_runs k t CIp j alloc env CIp' n w t')
  from inv_thread_runs [OF assms(1) thread_runs(2,3,4,5)] show ?thesis unfolding thread_runs(1) .
qed

lemma system_reach_inv:
  "system_reach lib tmem cfg s \<Longrightarrow> started_ok lib tmem cfg \<Longrightarrow> system_inv lib s"
proof (induction rule: system_reach.induct)
  case (start s)
  then show ?case by (rule system_start_inv)
next
  case (step s s')
  then show ?case using system_inv_step by blast
qed

end
