(* ===== verification/Nsca_Session.thy ===== *)
theory Nsca_Session
  imports Nsca_Receive Nsca_Protocol
begin

text \<open>
  Whole connections: from the chunks that arrive on a socket, through the queue the callbacks build
  and the end of the connection, to the processing of the queue.
\<close>

section \<open>A timely connection stays open\<close>

text \<open>
  A chunk that completes no packet never closes the connection; one that does closes it only when
  the queue is already longer than the limit.
\<close>

lemma received_open:
  assumes "length (in_buffer c) + length bs < 2 * sizeof_data_packet"
    and "max_checks_per_connection n = m"
    and "int ((length (in_buffer c) + length bs) div sizeof_data_packet + length (data_packets c))
           \<le> m mod 2 ^ 64 + 1"
  obtains c' where "received True bs n c = (n, Open c')"
    and "(length (in_buffer c) + length bs) div sizeof_data_packet + length (data_packets c)
           = length (data_packets c')"
    and "length (in_buffer c') = (length (in_buffer c) + length bs) mod sizeof_data_packet"
proof -
  let ?k = "length (in_buffer c) + length bs"
  have z: "0 < sizeof_data_packet" by (simp add: nsca_consts)
  show thesis
  proof (cases "?k < sizeof_data_packet")
    case True
    with that show ?thesis by (simp add: received_def readcb_outcome count_read_def)
  next
    case False
    with assms(1) z have d: "?k div sizeof_data_packet = 1" "?k mod sizeof_data_packet = ?k - sizeof_data_packet"
      by (simp_all add: div_nat_eqI mod_if [of ?k])
    with assms(2,3) False that show ?thesis
      by (simp add: received_def readcb_outcome count_read_def take_packet_def)
  qed
qed

lemma receive_all_open:
  assumes "timely (length (in_buffer c)) bss" "length (in_buffer c) < sizeof_data_packet"
    and "max_checks_per_connection n = m"
    and "int ((length (in_buffer c) + length (concat bss)) div sizeof_data_packet + length (data_packets c))
           \<le> m mod 2 ^ 64 + 1"
  shows "\<exists>c'. receive_all n bss c = Open c'"
  using assms
proof (induction bss arbitrary: c)
  case Nil
  then show ?case by simp
next
  case (Cons bs bss)
  let ?k = "length (in_buffer c) + length bs" and ?r = "length (concat bss)"
  have z: "0 < sizeof_data_packet" by (simp add: nsca_consts)
  have split: "(?k + ?r) div sizeof_data_packet
      = ?k div sizeof_data_packet + (?k mod sizeof_data_packet + ?r) div sizeof_data_packet"
    by (metis div_mult_self3 div_mult_mod_eq add.assoc z less_numeral_extra(3))
  have "?k div sizeof_data_packet \<le> (?k + ?r) div sizeof_data_packet" by (simp add: div_le_mono)
  with Cons.prems have "int (?k div sizeof_data_packet + length (data_packets c)) \<le> m mod 2 ^ 64 + 1"
    by (simp add: add.assoc)
  with Cons.prems(1,3) obtain c' where c': "received True bs n c = (n, Open c')"
      "?k div sizeof_data_packet + length (data_packets c) = length (data_packets c')"
      "length (in_buffer c') = ?k mod sizeof_data_packet"
    by (auto elim: received_open)
  with Cons.prems split have "\<exists>c''. receive_all n bss c' = Open c''"
    by (intro Cons.IH) (simp_all add: z add.assoc)
  with c'(1) show ?case by simp
qed

section \<open>The queue is the packets sent\<close>

lemma full_packets_of_stream:
  assumes "list_all full_packet ps" "concat (map receive_packet ps) @ r = concat ws"
    and "\<forall>w \<in> set ws. length w = sizeof_data_packet" "length r < sizeof_data_packet"
  shows "ps = as_queue ws \<and> r = []"
  using assms
proof (induction ps arbitrary: ws)
  case Nil
  then have "length r = length (concat ws)" by simp
  with Nil show ?case by (cases ws) (simp_all add: as_queue_def)
next
  case (Cons p ps)
  then have p: "length (receive_packet p) = sizeof_data_packet" "packet_length p = sizeof_data_packet"
    by (simp_all add: full_packet_def)
  have "0 < sizeof_data_packet" by (simp add: nsca_consts)
  with Cons.prems(2) p obtain v vs where ws: "ws = v # vs" by (cases ws) auto
  with Cons.prems p have "receive_packet p = v"
      and eq: "concat (map receive_packet ps) @ r = concat vs" by auto
  with p have "p = \<lparr>receive_packet = v, packet_length = sizeof_data_packet\<rparr>" by (cases p) simp
  with Cons.IH [OF _ eq] Cons.prems ws show ?case by (simp add: as_queue_def)
qed

lemma session_queue:
  assumes "listener_proxy bev_ok r n0 = (n0', r', Open c)" "max_checks_per_connection n = m"
    and "timely 0 bss" "concat bss = concat ws" "\<forall>w \<in> set ws. length w = sizeof_data_packet"
    and "int (length ws) \<le> m mod 2 ^ 64 + 1"
  obtains c' where "receive_all n bss c = Open c'" "conn_inv m (concat ws) c'"
    "data_packets c' = as_queue ws" "in_buffer c' = []"
proof -
  note c = listener_proxy_conn [OF assms(1)]
  have z: "0 < sizeof_data_packet" by (simp add: nsca_consts)
  have "length (concat ws) = sizeof_data_packet * length ws"
    using assms(5) by (induction ws) simp_all
  with assms(4) z have "length (concat bss) div sizeof_data_packet = length ws" by simp
  with assms(2,3,6) c z obtain c' where c': "receive_all n bss c = Open c'"
    using receive_all_open [of c bss n m] by auto
  moreover have "conn_inv m [] c" using c by (simp add: conn_inv_def)
  ultimately have inv: "conn_inv m (concat ws) c'" "length (in_buffer c') < sizeof_data_packet"
    using receive_all_drained [OF c', of m "[]"] assms(2-4) c z by simp_all
  then have "data_packets c' = as_queue ws \<and> in_buffer c' = []"
    by (intro full_packets_of_stream [OF _ _ assms(5)]) (simp_all add: conn_inv_def)
  with that c' inv show thesis by blast
qed

section \<open>The end of the connection\<close>

lemma send_packets_sizes:
  "send_packets lib pw m CIp bs = Some ws \<Longrightarrow> \<forall>b \<in> set bs. length b = k \<Longrightarrow> \<forall>w \<in> set ws. length w = k"
  by (induction bs arbitrary: CIp ws)
    (auto simp: length_encrypt_buffer split: option.splits)

lemma eventcb_hands_over:
  assumes "conn_inv m s c" "data_packets c \<noteq> []" "shared_crypt_instance n"
    and "nsca_threads_per_worker n \<le> 0"
  shows "eventcb lib mem alloc r n c = Some (n\<lparr>connections := connections n - 1\<rparr>, r, Process c)"
proof -
  have "shared_crypt_instance (n\<lparr>connections := connections n - 1\<rparr>)"
    using assms(3) by (simp add: shared_crypt_instance_def)
  with assms eventcb_queue_full [OF assms(1,2)] show ?thesis
    by (simp add: eventcb_def connection_closed_def Let_def)
qed

lemma connection_record_keeps [simp]:
  "fifos_ok tid (n\<lparr>connections := k\<rparr>) = fifos_ok tid n"
  "acceptable (n\<lparr>connections := k\<rparr>) p = acceptable n p"
  by (simp_all add: fifos_ok_def acceptable_def packet_too_old_def)

text \<open>Only the age is left to decide for a packet that arrived as it was sealed.\<close>

lemma check_packet_age:
  assumes "packet_wf p" "packet_version p = NSCA_PACKET_VERSION_3"
  shows "fst (check_packet n sizeof_data_packet (seal_packet p))
       = (if packet_too_old n (timestamp p) then Too_old else Accepted)"
  using assms calculate_crc32_seal_packet [of p] packet_of_seal_packet [of p]
  by (simp add: check_packet_def packet_fields clear_crc32_seal_packet)

text \<open>A packet in every chunk is timely.\<close>

lemma timely_packets: "\<forall>w \<in> set ws. length w = sizeof_data_packet \<Longrightarrow> timely 0 ws"
  by (induction ws) (simp_all add: nsca_consts)

end
