(* ===== verification/Nsca_Examples.thy ===== *)
theory Nsca_Examples
  imports Nsca_Worker Nsca_Session Nsca_Main
begin

text \<open>
  Concrete objects for the examples of the root theory: a \<open>network\<close> with both back ends, a packet, a
  crypt instance, and system answers under which a delivery succeeds or fails.
\<close>

definition ex_network :: "int \<Rightarrow> byte network" where
  "ex_network method =
     \<lparr>ev_base = True, listener_enabled = True, timer_armed = True, loopexit = False,
      loopbreak = False, shutdown_requested = False, now = 1600000000, cnow = ''now'' @ nl,
      connections = 1, counter = 1, counter_prev = 0, fifoClients = Some [example_fifo],
      resultPathClient = Some example_path_client, StatWriter = example_stat_writer,
      command_file = ''/nagios.cmd'', check_result_path = ''/spool'', password = ''secret'',
      decryption_method = method, max_packet_age = 30, max_packet_age_enabled = 1,
      max_checks_per_connection = 500, nsca_threads_per_worker = 0, decryption_mode = 1,
      use_network_CI = True, shared_transmission_iv = replicate 128 9,
      counter_rps = replicate 5 0, message_success = 0, message_failed = 0, CI = None\<rparr>"

definition ex_ci :: "byte crypt_instance" where
  "ex_ci = \<lparr>transmitted_iv = replicate 128 9, td = Some 9, key = Some [115], IV = Some [9], blocksize = 1,
     keysize = 1, mcrypt_algorithm = Some MCRYPT_3DES, mcrypt_mode = Some ''cfb'', iv_size = 1\<rparr>"

definition ex_packet :: data_packet where
  "ex_packet =
     \<lparr>packet_version = 3, crc32_value = 0, timestamp = 1600000000, return_code = 2,
      host_name = bytes_of ''web'' @ replicate 61 0, svc_description = bytes_of ''disk'' @ replicate 124 0,
      plugin_output = bytes_of ''full'' @ replicate 4092 0\<rparr>"

definition ex_old_packet :: data_packet where
  "ex_old_packet = ex_packet\<lparr>plugin_output := bytes_of ''full'' @ replicate 508 0\<rparr>"

definition ex_env :: "nat \<Rightarrow> send_env" where
  "ex_env i = \<lparr>se_fifo = example_fifo_env 100, se_result = example_result_env\<rparr>"

definition ex_client :: "byte network_client" where
  "ex_client = new_network_client\<lparr>connection_state := 1, ci_pointer := CI_network\<rparr>"

lemma ex_network_sel [simp]:
  "decryption_method (ex_network m) = m" "password (ex_network m) = ''secret''"
  "now (ex_network m) = 1600000000" "max_checks_per_connection (ex_network m) = 500"
  by (simp_all add: ex_network_def)

lemma ex_network_shared [simp]: "shared_crypt_instance (ex_network m)"
    "nsca_threads_per_worker (ex_network m) = 0" "connections (ex_network m) = 1"
  by (simp_all add: shared_crypt_instance_def ex_network_def DECRYPTION_MODE_SHARED_CRYPT_INSTANCE_def)

lemma ex_accepts: "\<exists>n' r' c. listener_proxy True r n = (n', r', Open c)"
  by (simp add: listener_proxy_def take_variables_def nc_init_events_def Let_def case_prod_beta)

lemma ex_client_sel [simp]: "d_success ex_client = 0" "d_failed ex_client = 0" "data_packets ex_client = []"
  by (simp_all add: ex_client_def new_network_client_def)

lemma ex_fifos_ok: "fifos_ok 0 (ex_network m)"
  by (simp add: fifos_ok_def ex_network_def fifo_inv_def example_fifo_def)

lemma ex_not_old: "\<not> packet_too_old (ex_network m) 1600000000"
  by (simp add: packet_too_old_def ex_network_def Let_def)

lemma ex_acceptable: "acceptable (ex_network m) ex_packet"
proof -
  have "packet_wf ex_packet" by (simp add: packet_wf_def ex_packet_def nsca_consts bytes_of_def)
  moreover have "packet_version ex_packet = NSCA_PACKET_VERSION_3" "timestamp ex_packet = 1600000000"
    by (simp_all add: ex_packet_def nsca_consts)
  ultimately show ?thesis using ex_not_old by (simp add: acceptable_def)
qed

lemma ex_old_acceptable: "old_acceptable (ex_network m) ex_old_packet"
proof -
  have "old_packet_wf ex_old_packet"
    by (simp add: old_packet_wf_def ex_old_packet_def ex_packet_def nsca_consts bytes_of_def)
  moreover have "packet_version ex_old_packet = NSCA_PACKET_VERSION_3" "timestamp ex_old_packet = 1600000000"
    by (simp_all add: ex_old_packet_def ex_packet_def nsca_consts)
  ultimately show ?thesis using ex_not_old by (simp add: old_acceptable_def)
qed

lemma feedback_state_law:
  "mcrypt_enc_set_state feedback_cipher t (mcrypt_enc_get_state feedback_cipher t) = t"
  by (simp add: feedback_cipher_def)

lemma ex_in_step: "in_step feedback_cipher 3 (Some ex_ci) (Some (ex_ci\<lparr>td := Some 55\<rparr>))"
  using feedback_cipher_stream by (simp add: in_step_def ex_ci_def feedback_cipher_def)

lemma strtol_13: "strtol ''13'' = 13"
  by code_simp

lemma not_word_neq: "(x :: byte) \<noteq> NOT x"
proof
  assume "x = NOT x"
  then have "bit x 0 = bit (NOT x) 0" by simp
  then show False by (simp add: bit_simps)
qed

lemma burst_update:
  assumes "i < length bs" "bs ! i \<noteq> b" "i < off_crc32 \<or> off_crc32 + 4 \<le> i"
  shows "burst bs (bs[i := b])"
  unfolding burst_def
proof (intro exI conjI)
  show "bs = take i bs @ [bs ! i] @ drop (Suc i) bs" using assms(1) by (simp add: id_take_nth_drop [symmetric])
  show "bs[i := b] = take i bs @ [b] @ drop (Suc i) bs" using assms(1) by (simp add: upd_conv_take_nth_drop)
qed (use assms in auto)

lemma ex_env_ok: "result_env_ok (se_result (ex_env j))"
  by (simp add: result_env_ok_def ex_env_def example_result_env_def suffix_ok_def)

lemma send_packets_total:
  assumes "1 < m" "td s \<noteq> None"
  shows "\<exists>ws. send_packets lib pw m (Some s) bs = Some ws"
  using assms(2)
proof (induction bs arbitrary: s)
  case Nil
  then show ?case by simp
next
  case (Cons b bs)
  then obtain t where "td s = Some t" by auto
  moreover have "m \<noteq> ENCRYPT_NONE" "m \<noteq> ENCRYPT_XOR" using assms(1) by (simp_all add: nsca_consts)
  ultimately obtain c t' where
      "encrypt_buffer lib b sizeof_data_packet pw m (Some s) = Some (c, Some (s\<lparr>td := Some t'\<rparr>))"
    by (simp add: encrypt_buffer_def case_prod_beta Let_def)
  moreover obtain ws where "send_packets lib pw m (Some (s\<lparr>td := Some t'\<rparr>)) bs = Some ws"
    using Cons.IH [of "s\<lparr>td := Some t'\<rparr>"] by auto
  ultimately show ?case by simp
qed

end
