(* ===== verification/Nsca_System_Refine.thy ===== *)
theory Nsca_System_Refine
  imports Nsca_System_Inv Nsca_Examples
begin

text \<open>
  The system implements the worker relation, and what its invariant gives: no callback and no job of a
  reachable state runs into undefined behaviour. At the end, what the threads still hold when the
  event loop has ended.
\<close>

section \<open>The system refines the worker\<close>

text \<open>
  The simulation relation: the event loops agree, and the clients that were handed over are those the
  threads hold, in any order.
\<close>

definition refines :: "'td system \<Rightarrow> 'td worker \<Rightarrow> bool" where
  "refines s w \<longleftrightarrow>
     handed (event_loop s) = [] \<and> event_loop s = w\<lparr>handed := []\<rparr>
     \<and> mset (handed w) = pool_clients (pool s)"

text \<open>A callback that hands over nothing does the same with other clients waiting.\<close>

lemma worker_step_frame:
  assumes "worker_step lib (w\<lparr>handed := []\<rparr>) e" "handed e = []"
  shows "worker_step lib w (e\<lparr>handed := handed w\<rparr>)"
  using assms(1)
proof (cases rule: worker_stepE
    [consumes 1, case_names accept accept_fails recv recv_refused send close process timer sigint])
  case (close i mem alloc n r cl)
  then have "to_process cl = []" using assms(2) by simp
  then show ?thesis using close worker_step.close [of i w lib mem alloc n r cl] by simp
qed (auto intro: worker_step.intros)

text \<open>Any client that was handed over can be processed.\<close>

lemma worker_process:
  assumes "c \<in> set (handed w)"
    and "process_queue lib alloc env tid CIp (net w, set_CI ref c, w_world w) = Some (CIp', n, c', wo)"
    and "ci = CI n \<or> ci = CIp'"
  shows "\<exists>hs. mset hs = mset (handed w) - {#c#}
    \<and> worker_step lib w (w\<lparr>net := n\<lparr>CI := ci\<rparr>, w_world := wo, handed := hs\<rparr>)"
proof -
  obtain i where i: "i < length (handed w)" "handed w ! i = c" using assms(1) by (auto simp: in_set_conv_nth)
  have "mset (remove_nth i (handed w)) = mset (handed w) - {#c#}"
    using i by (simp add: remove_nth_def) (metis id_take_nth_drop mset.simps(2) mset_append
        add_mset_remove_trivial union_mset_add_mset_right)
  then show ?thesis using worker_step.process [OF i(1), of lib alloc env tid CIp ref] i assms by metis
qed

text \<open>A step of a thread that finishes no job changes nothing for the worker.\<close>

lemma refines_thread:
  assumes "refines s w" "thread_at (pool s) k = Some (t, CIp)" "pending t' = pending t"
  shows "refines (s\<lparr>pool := set_thread k (t', CIp') (pool s)\<rparr>) w"
  using pool_clients_set_thread [OF assms(2), of t' CIp'] assms(1,3) by (simp add: refines_def)

lemma set_CI_same [simp]: "set_CI (ci_pointer c) c = c"
  by (simp add: set_CI_def)

text \<open>The steps of the system, one by one. A closed client is handed over in the worker, too.\<close>

lemma refines_net:
  assumes "refines s w"
  shows "net (event_loop s) = net w" "conns (event_loop s) = conns w" "generator (event_loop s) = generator w"
    "w_world (event_loop s) = w_world w"
  using assms by (simp_all add: refines_def)

lemma refines_close:
  assumes "refines s w" "worker_reach lib w" "i < length (conns (event_loop s))"
    and "eventcb lib mem alloc (generator (event_loop s)) (net (event_loop s)) (conns (event_loop s) ! i)
      = Some (n, g, cl)" "to_process cl = [c]"
  shows "worker_reach lib
    (w\<lparr>net := n, generator := g, conns := remove_nth i (conns w), handed := handed w @ [c]\<rparr>)"
  using worker_reach.step [OF assms(2) worker_step.close [of i w lib mem alloc n g cl]] assms(3-5)
  by (simp add: refines_net [OF assms(1)])

lemma simulation_to_thread:
  assumes "refines s w" "worker_reach lib w" "i < length (conns (event_loop s))"
    and "eventcb lib mem alloc (generator (event_loop s)) (net (event_loop s)) (conns (event_loop s) ! i)
      = Some (n, g, To_thread c)"
    and "thread_at (pool s) (next_thread (pool s)) = Some (t, CIp)" "add_job (decrypt_job c) (pool s) = Some p"
  shows "\<exists>w'. worker_reach lib w' \<and> refines (s\<lparr>event_loop := (event_loop s)\<lparr>net := n, generator := g,
    conns := remove_nth i (conns (event_loop s))\<rparr>, pool := p\<rparr>) w'"
proof -
  have "pool_clients p = add_mset c (pool_clients (pool s))"
    using add_job_clients(1) [OF assms(6,5)] by (simp add: decrypt_job_def)
  with refines_close [OF assms(1-4)] assms(1) show ?thesis
    by (intro exI [of _ "w\<lparr>net := n, generator := g, conns := remove_nth i (conns w), handed := handed w @ [c]\<rparr>"])
      (simp add: refines_def to_process_def)
qed

lemma simulation_at_once:
  assumes "refines s w" "worker_reach lib w" "i < length (conns (event_loop s))"
    and "eventcb lib mem alloc (generator (event_loop s)) (net (event_loop s)) (conns (event_loop s) ! i)
      = Some (n, g, Process c)"
    and "process_queue lib alloc' env 0 (client_instance n c) (n, c, w_world (event_loop s)) = Some (CIp, n', c', wo)"
  shows "\<exists>w'. worker_reach lib w' \<and> refines (s\<lparr>event_loop := (event_loop s)\<lparr>net := keep_instance c CIp n',
    generator := g, conns := remove_nth i (conns (event_loop s)), w_world := wo\<rparr>\<rparr>) w'"
proof -
  let ?w = "w\<lparr>net := n, generator := g, conns := remove_nth i (conns w), handed := handed w @ [c]\<rparr>"
  have w: "worker_reach lib ?w" by (rule refines_close [OF assms(1-4)]) (simp add: to_process_def)
  have pq: "process_queue lib alloc' env 0 (client_instance n c) (net ?w, set_CI (ci_pointer c) c, w_world ?w)
      = Some (CIp, n', c', wo)"
    using assms(5) by (simp add: refines_net [OF assms(1)])
  let ?ci = "if ci_pointer c = CI_network then CIp else CI n'"
  have "?ci = CI n' \<or> ?ci = CIp" by simp
  from worker_process [OF _ pq this]
  obtain hs where hs: "mset hs = mset (handed ?w) - {#c#}"
      "worker_step lib ?w (?w\<lparr>net := keep_instance c CIp n', w_world := wo, handed := hs\<rparr>)"
    by (auto simp: keep_instance_def)
  with worker_reach.step [OF w hs(2)] assms(1) show ?thesis
    by (intro exI [of _ "?w\<lparr>net := keep_instance c CIp n', w_world := wo, handed := hs\<rparr>"])
      (simp add: refines_def)
qed

lemma simulation_thread_runs:
  assumes "refines s w" "worker_reach lib w" "system_inv lib s" "thread_at (pool s) k = Some (t, CIp)"
    and "tpc t = T_run j" "ct_loop_step t = Some t'"
    and "run_job lib alloc env k j (CIp, net (event_loop s), w_world (event_loop s)) = Some (CIp', n, wo)"
  shows "\<exists>w'. worker_reach lib w' \<and> refines (s\<lparr>event_loop := (event_loop s)\<lparr>net := n, w_world := wo\<rparr>,
    pool := set_thread k (t', CIp') (pool s)\<rparr>) w'"
proof -
  let ?e = "event_loop s" and ?c = "networkClient j" and ?p = "set_thread k (t', CIp') (pool s)"
  have ok: "thread_ok lib (net ?e) (t, CIp)"
    using assms(3,4) thread_okD by (auto simp: system_inv_def Let_def)
  obtain ci q c' where "process_queue lib alloc env k ci (net ?e, set_CI CI_thread ?c, w_world ?e)
      = Some (q, n, c', wo)"
    using assms(7) run_job_eq [OF ok running_job_ok [OF ok assms(5)], of alloc env k "w_world ?e"] by auto
  note pq = this [unfolded refines_net [OF assms(1)]]
  have "mset (pending t') + add_mset ?c (pool_clients ?p) = mset (pending t') + pool_clients (pool s)"
    using pool_clients_set_thread [OF assms(4), of t' CIp'] pending_runs [OF assms(5,6)] by simp
  then have "add_mset ?c (pool_clients ?p) = pool_clients (pool s)" by (simp only: add_left_cancel)
  then have p: "mset (handed w) = add_mset ?c (pool_clients ?p)" using assms(1) by (simp add: refines_def)
  then have "?c \<in> set (handed w)" by (metis set_mset_mset union_single_eq_member)
  from worker_process [OF this pq, of "CI n"]
  obtain hs where hs: "mset hs = mset (handed w) - {#?c#}"
      "worker_step lib w (w\<lparr>net := n, w_world := wo, handed := hs\<rparr>)"
    by auto
  have "mset hs = pool_clients ?p" unfolding hs(1) p by (rule add_mset_remove_trivial)
  with worker_reach.step [OF assms(2) hs(2)] assms(1) show ?thesis
    by (intro exI [of _ "w\<lparr>net := n, w_world := wo, handed := hs\<rparr>"]) (simp add: refines_def)
qed

text \<open>Every step of the system is at most one step of the worker, on related states.\<close>

lemma system_simulation:
  assumes "refines s w" "system_inv lib s" "system_step lib s s'" "worker_reach lib w"
  shows "\<exists>w'. worker_reach lib w' \<and> refines s' w'"
  using assms(3)
proof (cases rule: system_stepE [consumes 1, case_names callback to_thread at_once thread_moves
      thread_wakes thread_notified thread_runs])
  case (callback e)
  have w: "event_loop s = w\<lparr>handed := []\<rparr>" using assms(1) by (simp add: refines_def)
  from worker_step_frame [OF callback(2) [unfolded w] callback(3)]
  have "worker_step lib w (e\<lparr>handed := handed w\<rparr>)" .
  with worker_reach.step [OF assms(4)] callback assms(1) show ?thesis
    by (intro exI [of _ "e\<lparr>handed := handed w\<rparr>"]) (simp add: refines_def)
next
  case (to_thread i mem alloc n g c t CIp p)
  then show ?thesis using simulation_to_thread [OF assms(1,4)] by simp
next
  case (at_once i mem alloc n g c alloc' env CIp n' c' wo)
  then show ?thesis using simulation_at_once [OF assms(1,4)] by simp
next
  case (thread_moves k t CIp t')
  from refines_thread [OF assms(1) thread_moves(2) pending_moves [OF thread_moves(4,3)]] assms(4)
  show ?thesis unfolding thread_moves(1) by blast
next
  case (thread_wakes k t CIp)
  from refines_thread [OF assms(1) thread_wakes(2) pending_wake] assms(4)
  show ?thesis unfolding thread_wakes(1) by blast
next
  case (thread_notified k t CIp)
  have "pending (ct_wake (t\<lparr>notifying := False\<rparr>)) = pending t" by simp
  from refines_thread [OF assms(1) thread_notified(2) this] assms(4)
  show ?thesis unfolding thread_notified(1) by blast
next
  case (thread_runs k t CIp j alloc env CIp' n wo t')
  from simulation_thread_runs [OF assms(1,4,2) thread_runs(2,3,5,4)]
  show ?thesis unfolding thread_runs(1) .
qed

lemma system_start_refines:
  assumes "system_start lib tmem cfg s"
  shows "worker_reach lib (event_loop s) \<and> handed (event_loop s) = [] \<and> pool_clients (pool s) = {#}"
proof -
  from assms obtain mem t ct ifd r sw rand urandom time e n0 n calls p g w where
    tm: "thread_manager_start lib tmem cfg r (new_thread_manager rand urandom time cfg) = Some p"
    and nw: "new_network lib mem cfg t ct ifd (shared_transmitted_iv p) r sw = Inr n0"
    and run: "network_run_start e n0 = (n, calls)"
    and s: "s = \<lparr>event_loop = \<lparr>net = n, conns = [], handed = [], generator = g, w_world = w\<rparr>, pool = p\<rparr>"
    by (rule system_startE)
  have "\<forall>t \<in> set (threads_of p). t = new_crypt_thread"
    using tm by (auto simp: thread_manager_start_def new_thread_manager_def threads_of_def Let_def
        split: if_splits option.splits)
  then have "pool_clients p = {#}"
    by (intro pool_clients_empty) (auto simp: pending_def new_crypt_thread_def in_progress_def)
  with worker_reach.start [OF nw run] s show ?thesis by simp
qed

lemma system_reach_refines:
  assumes "system_reach lib tmem cfg s" "started_ok lib tmem cfg"
  shows "\<exists>w. worker_reach lib w \<and> refines s w"
  using assms(1)
proof induction
  case (start s)
  then show ?case using system_start_refines by (intro exI [of _ "event_loop s"]) (fastforce simp: refines_def)
next
  case (step s s')
  then show ?case using system_simulation system_reach_inv [OF step.hyps(1) assms(2)] by blast
qed

section \<open>What a reachable state can do\<close>

text \<open>
  Every callback at the end of a connection, and every job, is defined: \<open>eventcb\<close> returns, a client
  that goes to a thread finds one, a client that is processed at once is processed, and a thread's
  job runs. (The other callbacks are total functions.)
\<close>

definition system_defined :: "'td mcrypt \<Rightarrow> 'td system \<Rightarrow> bool" where
  "system_defined lib s \<longleftrightarrow>
     (let e = event_loop s
      in (\<forall>i < length (conns e). \<forall>mem alloc.
            case eventcb lib mem alloc (generator e) (net e) (conns e ! i) of
              None \<Rightarrow> False
            | Some (n, r, Deleted) \<Rightarrow> True
            | Some (n, r, To_thread c) \<Rightarrow>
                (\<exists>t CIp. thread_at (pool s) (next_thread (pool s)) = Some (t, CIp))
                \<and> add_job (decrypt_job c) (pool s) \<noteq> None
            | Some (n, r, Process c) \<Rightarrow>
                (\<forall>alloc' env. process_queue lib alloc' env 0 (client_instance n c) (n, c, w_world e) \<noteq> None))
       \<and> (\<forall>k t CIp j alloc env. thread_at (pool s) k = Some (t, CIp) \<longrightarrow> tpc t = T_run j \<longrightarrow>
            run_job lib alloc env k j (CIp, net e, w_world e) \<noteq> None))"

lemma add_job_defined:
  assumes "pool_ok lib n p" "thread_at p (next_thread p) = Some tc"
  shows "add_job j p \<noteq> None"
  using assms by (cases "max_crypt_threads p = 0") (auto simp: add_job_def pool_ok_def thread_at_iff next_thread_def Let_def)

lemma at_once_defined:
  assumes "closed_ok lib n c" "net_ok lib n" "nsca_threads_per_worker n = 0"
    and law: "\<And>t. mcrypt_enc_set_state lib t (mcrypt_enc_get_state lib t) = t"
  shows "process_queue lib alloc env 0 (client_instance n c) (n, c, w) \<noteq> None"
proof -
  have "cipher_ready n (client_instance n c)"
    using client_instance_cipher [OF assms(1-3)] assms(2) cipher_of_ready by (fastforce simp: net_ok_def)
  moreover have "fifos_ok 0 n" using assms(2,3) fifos_all_ok [of 1 n 0] by (simp add: net_ok_def)
  ultimately show ?thesis using process_queue_defined [OF _ _ law] by fastforce
qed

lemma thread_fifos:
  assumes "pool_ok lib n p" "net_ok lib n" "thread_at p k = Some tc"
  shows "fifos_ok k n"
proof -
  have "k < max 1 (nat (nsca_threads_per_worker n))" using assms(1,3) by (auto simp: thread_at_iff pool_ok_def)
  then show ?thesis using assms(2) fifos_all_ok by (auto simp: net_ok_def)
qed

lemma job_defined:
  assumes "pool_ok lib n p" "net_ok lib n" "thread_at p k = Some (t, CIp)" "tpc t = T_run j"
    and law: "\<And>t. mcrypt_enc_set_state lib t (mcrypt_enc_get_state lib t) = t"
  shows "run_job lib alloc env k j (CIp, n, w) \<noteq> None"
proof -
  have ok: "thread_ok lib n (t, CIp)" by (rule thread_okD [OF assms(1,3)])
  have j: "job_ok lib n j" by (rule running_job_ok [OF ok assms(4)])
  have "cipher_ready n (job_instance CIp (networkClient j))"
    using job_instance_cipher [OF ok j] assms(2) cipher_of_ready by (fastforce simp: net_ok_def)
  from process_queue_defined [OF this thread_fifos [OF assms(1-3)] law] show ?thesis
    unfolding run_job_eq [OF ok j] by (metis map_option_is_None option.discI)
qed

lemma connection_end_defined:
  assumes "system_inv lib s" and i: "i < length (conns (event_loop s))"
    and law: "\<And>t. mcrypt_enc_set_state lib t (mcrypt_enc_get_state lib t) = t"
  shows "case eventcb lib mem alloc (generator (event_loop s)) (net (event_loop s)) (conns (event_loop s) ! i) of
      None \<Rightarrow> False
    | Some (n, r, Deleted) \<Rightarrow> True
    | Some (n, r, To_thread c) \<Rightarrow>
        (\<exists>t CIp. thread_at (pool s) (next_thread (pool s)) = Some (t, CIp))
        \<and> add_job (decrypt_job c) (pool s) \<noteq> None
    | Some (n, r, Process c) \<Rightarrow>
        (\<forall>alloc' env. process_queue lib alloc' env 0 (client_instance n c) (n, c, w_world (event_loop s)) \<noteq> None)"
proof -
  let ?e = "event_loop s"
  note inv = system_invD(2-4) [OF assms(1)]
  have ci: "conn_ok (net ?e) (conns ?e ! i)" using inv(2) i by (simp add: list_all_length)
  then obtain c1 where "eventcb_queue alloc (conns ?e ! i) = Some c1"
    using eventcb_queue_defined unfolding conn_ok_def by blast
  then obtain n r cl where e: "eventcb lib mem alloc (generator ?e) (net ?e) (conns ?e ! i) = Some (n, r, cl)"
    by (cases "connection_closed lib mem (generator ?e) (net ?e) c1") (simp add: eventcb_def)
  have st: "statics n = statics (net ?e)" by (rule statics_eventcb [OF e])
  show ?thesis
  proof (cases cl)
    case (To_thread c)
    have "0 < nsca_threads_per_worker (net ?e)" using eventcb_closed(2) [OF e _ ci inv(1)] To_thread by blast
    from next_thread_at [OF inv(3) this] show ?thesis
      using add_job_defined [OF inv(3)] e To_thread by auto
  next
    case (Process c)
    note closed = eventcb_closed [OF e _ ci inv(1), of c]
    have "closed_ok lib n c" using closed(1) Process closed_ok_same [OF st] by simp
    moreover have "nsca_threads_per_worker n = 0"
      using closed(2) Process inv(1) statics_eqD(2) [OF st] by (simp add: net_ok_def)
    moreover have "net_ok lib n" using inv(1) statics_net_ok [OF st] by simp
    ultimately show ?thesis using at_once_defined [OF _ _ _ law] e Process by simp
  qed (use e in simp)
qed

lemma system_inv_defined:
  assumes "system_inv lib s" and law: "\<And>t. mcrypt_enc_set_state lib t (mcrypt_enc_get_state lib t) = t"
  shows "system_defined lib s"
proof -
  note inv = system_invD [OF assms(1)]
  have "run_job lib alloc env k j (CIp, net (event_loop s), w_world (event_loop s)) \<noteq> None"
    if "thread_at (pool s) k = Some (t, CIp)" "tpc t = T_run j" for k t CIp j alloc env
    by (rule job_defined [OF inv(4,2) that law])
  with connection_end_defined [OF assms(1) _ law] show ?thesis unfolding system_defined_def Let_def by blast
qed

section \<open>The threads can finish\<close>

text \<open>
  How far a thread that has something to do is from running its next job. With something in its queue
  it is not about to sleep, and it is not done, as nobody has called \<open>join\<close>.
\<close>

definition distance :: "'j crypt_thread \<Rightarrow> nat" where
  "distance t = (case tpc t of T_run j \<Rightarrow> 0 | T_check \<Rightarrow> 1 | T_lock \<Rightarrow> 2 | _ \<Rightarrow> 3)"

lemma thread_can_move:
  assumes "ct_reach t" "joiner t = J_none" "pending t \<noteq> []"
  shows "(\<exists>j. tpc t = T_run j) \<or> tpc t = T_wait \<or> (\<exists>t'. ct_loop_step t = Some t' \<and> distance t' < distance t)"
  using assms ct_reach_inv [OF assms(1)]
  by (cases "tpc t"; cases "queue_items t")
    (auto simp: ct_inv_def ct_loop_step_def pending_def in_progress_def distance_def)

lemma thread_progress:
  assumes "system_inv lib s" "thread_at (pool s) k = Some (t, CIp)" "pending t \<noteq> []"
    and law: "\<And>t. mcrypt_enc_set_state lib t (mcrypt_enc_get_state lib t) = t"
  shows "\<exists>s'. system_step lib s s' \<and> conns (event_loop s') = conns (event_loop s)
    \<and> (size (pool_clients (pool s')) < size (pool_clients (pool s))
       \<or> pool_clients (pool s') = pool_clients (pool s)
         \<and> (\<exists>t' CIp'. thread_at (pool s') k = Some (t', CIp') \<and> pending t' = pending t \<and> distance t' < distance t))"
proof -
  let ?e = "event_loop s"
  have inv: "net_ok lib (net ?e)" "pool_ok lib (net ?e) (pool s)" using assms(1) by (simp_all add: system_inv_def Let_def)
  have ok: "thread_ok lib (net ?e) (t, CIp)" by (rule thread_okD [OF inv(2) assms(2)])
  then have t: "ct_reach t" "joiner t = J_none" by (simp_all add: thread_ok_def)
  have at: "thread_at (set_thread k (t', CIp') (pool s)) k = Some (t', CIp')" for t' CIp'
    using assms(2) by (auto simp: thread_at_iff set_thread_def)
  have same: "pool_clients (set_thread k (t', CIp) (pool s)) = pool_clients (pool s)" if "pending t' = pending t" for t'
    using pool_clients_set_thread [OF assms(2), of t' CIp] that by simp
  consider (run) j where "tpc t = T_run j" | (wait) "tpc t = T_wait"
    | (move) t' where "\<forall>j. tpc t \<noteq> T_run j" "ct_loop_step t = Some t'" "distance t' < distance t"
    using thread_can_move [OF t assms(3)] by blast
  then show ?thesis
  proof cases
    case run
    obtain CIp' n w where r: "run_job lib True (\<lambda>_. undefined) k j (CIp, net ?e, w_world ?e) = Some (CIp', n, w)"
      using job_defined [OF inv(2,1) assms(2) run law, of True "\<lambda>_. undefined" "w_world ?e"] by auto
    obtain t' where t': "ct_loop_step t = Some t'" using run by (simp add: ct_loop_step_def)
    have "size (pool_clients (pool s)) = Suc (size (pool_clients (set_thread k (t', CIp') (pool s))))"
      using pool_clients_set_thread [OF assms(2), of t' CIp', THEN arg_cong, of size] pending_runs [OF run t'] by simp
    with system_step.thread_runs [OF refl assms(2) run r t'] show ?thesis
      by (intro exI [of _ "s\<lparr>event_loop := ?e\<lparr>net := n, w_world := w\<rparr>,
            pool := set_thread k (t', CIp') (pool s)\<rparr>"]) simp
  next
    case wait
    have "distance (ct_wake t) < distance t" using wait by (simp add: distance_def)
    with system_step.thread_wakes [OF assms(2) wait] at same [of "ct_wake t"] show ?thesis
      by (intro exI [of _ "s\<lparr>pool := set_thread k (ct_wake t, CIp) (pool s)\<rparr>"]) simp
  next
    case move
    have "pending t' = pending t" by (rule pending_moves [OF move(2,1)])
    with system_step.thread_moves [OF assms(2) move(1,2)] at same move(3) show ?thesis
      by (intro exI [of _ "s\<lparr>pool := set_thread k (t', CIp) (pool s)\<rparr>"]) simp
  qed
qed

lemma pool_clients_pending:
  assumes "pool_clients p \<noteq> {#}"
  obtains k t CIp where "thread_at p k = Some (t, CIp)" "pending t \<noteq> []"
proof -
  from assms obtain t where "t \<in> set (threads_of p)" "pending t \<noteq> []"
    using pool_clients_empty by blast
  then obtain ts k where "crypt_threads p = Some ts" "k < length ts" "fst (ts ! k) = t"
    by (auto simp: threads_of_def in_set_conv_nth split: option.splits) (metis fst_conv)
  with \<open>pending t \<noteq> []\<close> show thesis
    by (intro that [of k t "snd (ts ! k)"]) (auto simp: thread_at_iff)
qed

lemma system_drains:
  assumes "system_reach lib tmem cfg s" "started_ok lib tmem cfg"
    and law: "\<And>t. mcrypt_enc_set_state lib t (mcrypt_enc_get_state lib t) = t"
  shows "\<exists>s'. system_reach lib tmem cfg s' \<and> conns (event_loop s') = conns (event_loop s)
    \<and> pool_clients (pool s') = {#}"
  using assms(1)
proof (induction "size (pool_clients (pool s))" arbitrary: s rule: less_induct)
  case (less s)
  note fewer = less.hyps
  have "\<exists>s'. system_reach lib tmem cfg s' \<and> conns (event_loop s') = conns (event_loop r)
      \<and> pool_clients (pool s') = {#}"
    if "system_reach lib tmem cfg r" "thread_at (pool r) k = Some (t, CIp)" "pending t \<noteq> []"
      "pool_clients (pool r) = pool_clients (pool s)" for r k t CIp
    using that
  proof (induction "distance t" arbitrary: r t CIp rule: less_induct)
    case (less t r CIp)
    from thread_progress [OF system_reach_inv [OF less.prems(1) assms(2)] less.prems(2,3) law]
    obtain r' where r': "system_step lib r r'" "conns (event_loop r') = conns (event_loop r)"
      "size (pool_clients (pool r')) < size (pool_clients (pool r)) \<or> pool_clients (pool r') = pool_clients (pool r)
         \<and> (\<exists>t' CIp'. thread_at (pool r') k = Some (t', CIp') \<and> pending t' = pending t \<and> distance t' < distance t)"
      by blast
    have reach: "system_reach lib tmem cfg r'" by (rule system_reach.step [OF less.prems(1) r'(1)])
    from r'(3) show ?case
    proof
      assume "size (pool_clients (pool r')) < size (pool_clients (pool r))"
      with fewer [OF _ reach] less.prems(4) r'(2) show ?thesis by metis
    next
      assume "pool_clients (pool r') = pool_clients (pool r)
         \<and> (\<exists>t' CIp'. thread_at (pool r') k = Some (t', CIp') \<and> pending t' = pending t \<and> distance t' < distance t)"
      with less.hyps [OF _ reach] less.prems(3,4) r'(2) show ?thesis by metis
    qed
  qed
  with less.prems show ?case using pool_clients_pending [of "pool s"] by metis
qed

section \<open>A run with one thread\<close>

definition ex_settings :: config where
  "ex_settings = Set ''nsca_threads_per_worker'' ''1''
     (Set ''nsca_workers'' ''1'' (setConfigPath ''/etc/nagios/nsca.cfg'' new_config))"

lemma ex_settings_started:
  fixes lib :: "'td mcrypt"
  shows "started_ok lib (\<lambda>_ _. True) ex_settings"
proof -
  have "c_int (GetInt ex_settings ''decryption_method'' 0) = ENCRYPT_NONE"
    by (simp add: ex_settings_def GetInt_def Set_def setConfigPath_def new_config_def c_int_id nsca_consts)
  then show ?thesis by (simp add: started_ok_def encrypt_init_xor_none nsca_consts)
qed

lemma ex_system_start:
  obtains s :: "byte system" and CIp where
    "system_reach feedback_cipher (\<lambda>_ _. True) ex_settings s" "conns (event_loop s) = []"
    "handed (event_loop s) = []" "listener_enabled (net (event_loop s))" "timer_armed (net (event_loop s))"
    "ev_base (net (event_loop s))" "connections (net (event_loop s)) = 0"
    "nsca_threads_per_worker (net (event_loop s)) = 1" "decryption_method (net (event_loop s)) = 0"
    "thread_at (pool s) 0 = Some (new_crypt_thread, CIp)" "next_thread (pool s) = 0"
    "max_packet_age (net (event_loop s)) = 0"
proof -
  let ?tm = "new_thread_manager (\<lambda>_ _. 0) None 0 ex_settings :: (byte job, byte) thread_manager"
  have v: "c_int (GetInt ex_settings ''nsca_threads_per_worker'' 0) = 1"
    "c_int (GetInt ex_settings ''decryption_method'' 0) = 0" "c_int (GetInt ex_settings ''max_packet_age'' 0) = 0"
    by (simp_all add: ex_settings_def GetInt_def Set_def setConfigPath_def new_config_def c_int_id)
  obtain p CIp where p: "thread_manager_start feedback_cipher (\<lambda>_ _. True) ex_settings rnd_initial ?tm = Some p"
      "crypt_threads p = Some [(new_crypt_thread, CIp)]" "lazy_job_counter p = 0" "max_crypt_threads p = 1"
    using v by (simp add: thread_manager_start_def new_thread_manager_def Let_def)
  obtain n0 :: "byte network" where nw: "new_network feedback_cipher (\<lambda>_. True) ex_settings 0 [] 7
      (shared_transmitted_iv p) rnd_initial example_stat_writer = Inr n0" "resultPathClient n0 = None"
    using v by (simp add: new_network_def Let_def Get_def) (simp add: ex_settings_def Set_def setConfigPath_def new_config_def)
  obtain n calls where run: "network_run_start example_watch_env n0 = (n, calls)" by fastforce
  let ?s = "\<lparr>event_loop = \<lparr>net = n, conns = [], handed = [], generator = rnd_initial, w_world = spool_world\<rparr>,
    pool = p\<rparr>"
  have "work_start feedback_cipher (\<lambda>_ _. True) (\<lambda>_. True) ex_settings 0 [] 7 rnd_initial example_stat_writer ?tm
      ((new_process_manager 0)\<lparr>process_mode := PROCESS_CHILD\<rparr> :: byte process_manager) = Some (p, Inr n0)"
    using p nw by (simp add: work_start_def)
  moreover have "network_run_open True (\<lambda>_ _. None) (\<lambda>_ _. True) example_watch_env ex_settings n0 = Some (n, calls)"
    using run by (simp add: network_run_open_def)
  ultimately have "system_start feedback_cipher (\<lambda>_ _. True) ex_settings ?s"
    unfolding system_start_def by blast
  then have "system_reach feedback_cipher (\<lambda>_ _. True) ex_settings ?s" by (rule system_reach.start)
  moreover have "listener_enabled n" using run nw(2)
    by (auto simp: network_run_start_def start_timer_def Let_def)
  moreover have "nsca_threads_per_worker n = 1" "decryption_method n = 0" "max_packet_age n = 0"
    using statics_eqD(1,2,10) [OF statics_run_start [OF run]] new_network_settings(1,2,4) [OF nw(1)] v by simp_all
  ultimately show thesis
    using p network_start_connections [OF nw(1) run]
    by (intro that [of ?s CIp]) (simp_all add: thread_at_def next_thread_def)
qed

lemma system_callback:
  "system_reach lib tmem cfg s \<Longrightarrow> worker_step lib (event_loop s) e \<Longrightarrow> handed e = [] \<Longrightarrow>
   system_reach lib tmem cfg (s\<lparr>event_loop := e\<rparr>)"
  by (blast intro: system_reach.step system_step.callback)

text \<open>A client connects and sends one packet.\<close>

lemma ex_system_received:
  assumes bs: "length bs = sizeof_data_packet"
  obtains s :: "byte system" and CIp c where
    "system_reach feedback_cipher (\<lambda>_ _. True) ex_settings s" "conns (event_loop s) = [c]"
    "handed (event_loop s) = []" "timer_armed (net (event_loop s))" "ev_base (net (event_loop s))"
    "connections (net (event_loop s)) = 1" "nsca_threads_per_worker (net (event_loop s)) = 1"
    "decryption_method (net (event_loop s)) = 0" "max_packet_age (net (event_loop s)) = 0"
    "thread_at (pool s) 0 = Some (new_crypt_thread, CIp)" "next_thread (pool s) = 0"
    "data_packets c = as_queue [bs]" "conn_inv (max_checks_per_connection (net (event_loop s))) bs c"
proof -
  obtain s :: "byte system" and CIp where s: "system_reach feedback_cipher (\<lambda>_ _. True) ex_settings s"
    "conns (event_loop s) = []" "handed (event_loop s) = []" "listener_enabled (net (event_loop s))"
    "timer_armed (net (event_loop s))" "ev_base (net (event_loop s))" "connections (net (event_loop s)) = 0"
    "nsca_threads_per_worker (net (event_loop s)) = 1" "decryption_method (net (event_loop s)) = 0"
    "thread_at (pool s) 0 = Some (new_crypt_thread, CIp)" "next_thread (pool s) = 0"
    "max_packet_age (net (event_loop s)) = 0"
    by (rule ex_system_start)
  obtain n r c1 where l: "listener_proxy True (generator (event_loop s)) (net (event_loop s)) = (n, r, Open c1)"
    using ex_accepts by metis
  let ?s1 = "s\<lparr>event_loop := (event_loop s)\<lparr>net := n, generator := r, conns := conns (event_loop s) @ [c1]\<rparr>\<rparr>"
  have s1: "system_reach feedback_cipher (\<lambda>_ _. True) ex_settings ?s1"
    by (rule system_callback [OF s(1) worker_step.accept [OF s(4) l]]) (simp add: s)
  have "\<not> max_checks_per_connection n mod 2 ^ 64 < 0" by simp
  then obtain c where g: "received True bs n c1 = (n, Open c)" "data_packets c = as_queue [bs]"
    using listener_proxy_conn(1,2) [OF l] bs
    by (auto simp: received_def readcb_outcome take_packet_def count_read_def as_queue_def)
  let ?e = "(event_loop s)\<lparr>generator := r, net := n, conns := [c]\<rparr>"
  have "worker_step feedback_cipher (event_loop ?s1) ?e"
    using worker_step.recv [of 0 "event_loop ?s1" True bs n c feedback_cipher] g s(2) by simp
  from system_callback [OF s1 this]
  have s2: "system_reach feedback_cipher (\<lambda>_ _. True) ex_settings (s\<lparr>event_loop := ?e\<rparr>)" by (simp add: s)
  have "nsca_threads_per_worker n = 1" "decryption_method n = 0" "max_packet_age n = 0"
    using statics_eqD(1,2,10) [OF statics_listener [OF l]] s by simp_all
  moreover have "timer_armed n" "ev_base n" "connections n = 1"
    using s(5-7) l by (auto simp: listener_proxy_def take_variables_def nc_init_events_def Let_def case_prod_beta
        split: if_splits)
  moreover have "conn_inv (max_checks_per_connection n) bs c"
    using conn_inv_received [OF _ refl g(1)] listener_proxy_conn [OF l] by (fastforce simp: conn_inv_def)
  ultimately show thesis using that [OF s2, of c CIp] s(3,10,11) g(2) by simp
qed

text \<open>The client closes: its job waits in the queue of the thread.\<close>

lemma ex_system_job:
  assumes bs: "length bs = sizeof_data_packet"
  obtains s :: "byte system" and CIp c where
    "system_reach feedback_cipher (\<lambda>_ _. True) ex_settings s" "conns (event_loop s) = []"
    "handed (event_loop s) = []" "timer_armed (net (event_loop s))"
    "ev_base (net (event_loop s))" "connections (net (event_loop s)) = 0"
    "nsca_threads_per_worker (net (event_loop s)) = 1" "decryption_method (net (event_loop s)) = 0"
    "max_packet_age (net (event_loop s)) = 0"
    "thread_at (pool s) 0 = Some (ct_push (decrypt_job c) new_crypt_thread, CIp)" "data_packets c = as_queue [bs]"
    "pool_clients (pool s) \<noteq> {#}"
proof -
  obtain s :: "byte system" and CIp c where s:
    "system_reach feedback_cipher (\<lambda>_ _. True) ex_settings s" "conns (event_loop s) = [c]"
    "handed (event_loop s) = []" "timer_armed (net (event_loop s))" "ev_base (net (event_loop s))"
    "connections (net (event_loop s)) = 1" "nsca_threads_per_worker (net (event_loop s)) = 1"
    "decryption_method (net (event_loop s)) = 0" "max_packet_age (net (event_loop s)) = 0"
    and t: "thread_at (pool s) 0 = Some (new_crypt_thread, CIp)" "next_thread (pool s) = 0"
    and c: "data_packets c = as_queue [bs]" "conn_inv (max_checks_per_connection (net (event_loop s))) bs c"
    by (rule ex_system_received [OF bs])
  let ?e = "event_loop s"
  have q: "data_packets c \<noteq> []" using c(1) by (simp add: as_queue_def)
  note full = eventcb_queue_full [OF c(2) q, of True]
  have "\<exists>n r c'. connection_closed feedback_cipher (\<lambda>_. True) (generator ?e) (net ?e) c = (n, r, To_thread c')"
    using q s(7,8) by (auto simp: connection_closed_def Let_def encrypt_init_def nsca_consts case_prod_beta
        split: option.splits)
  then obtain n r c' where
      cl: "eventcb feedback_cipher (\<lambda>_. True) True (generator ?e) (net ?e) c = Some (n, r, To_thread c')"
    using full by (auto simp: eventcb_def)
  have "pool_ok feedback_cipher (net ?e) (pool s)" by (rule system_invD(4) [OF system_reach_inv [OF s(1) ex_settings_started]])
  with t obtain p where p: "add_job (decrypt_job c') (pool s) = Some p"
    using add_job_defined by (metis option.exhaust)
  let ?s = "s\<lparr>event_loop := ?e\<lparr>net := n, generator := r, conns := remove_nth 0 (conns ?e)\<rparr>, pool := p\<rparr>"
  have "can_add (new_crypt_thread :: byte job crypt_thread)"
    by (simp add: can_add_def holds_mutex_def new_crypt_thread_def)
  then have "system_step feedback_cipher s ?s"
    by (intro system_step.to_thread) (use cl p s(2) t in simp_all)
  then have reach: "system_reach feedback_cipher (\<lambda>_ _. True) ex_settings ?s" by (rule system_reach.step [OF s(1)])
  have "pool_clients p \<noteq> {#}" "thread_at p 0 = Some (ct_push (decrypt_job c') new_crypt_thread, CIp)"
    using add_job_clients(1,3) [OF p] t by simp_all
  moreover have "data_packets c' = as_queue [bs]" "timer_armed n" "ev_base n" "connections n = 0"
    using s(4-6) cl c(1) full
    by (auto simp: eventcb_def connection_closed_def Let_def case_prod_beta split: if_splits)
  moreover have "nsca_threads_per_worker n = 1" "decryption_method n = 0" "max_packet_age n = 0"
    using statics_eqD(1,2,10) [OF statics_eventcb [OF cl]] s(7-9) by simp_all
  ultimately show thesis using that [OF reach, where c = c'] s(2,3) by (simp add: remove_nth_def)
qed

text \<open>The thread of the example takes its job.\<close>

lemma ex_system_running:
  assumes bs: "length bs = sizeof_data_packet"
  obtains s :: "byte system" and CIp c t where
    "system_reach feedback_cipher (\<lambda>_ _. True) ex_settings s" "crypt_threads (pool s) = Some [(t, CIp)]"
    "tpc t = T_run (decrypt_job c)" "data_packets c = as_queue [bs]" "decryption_method (net (event_loop s)) = 0"
    "max_packet_age (net (event_loop s)) = 0" "thread_at (pool s) 0 = Some (t, CIp)"
proof -
  obtain s :: "byte system" and CIp c where s: "system_reach feedback_cipher (\<lambda>_ _. True) ex_settings s"
    "thread_at (pool s) 0 = Some (ct_push (decrypt_job c) new_crypt_thread, CIp)" "data_packets c = as_queue [bs]"
    "nsca_threads_per_worker (net (event_loop s)) = 1" "decryption_method (net (event_loop s)) = 0"
    "max_packet_age (net (event_loop s)) = 0"
    by (rule ex_system_job [OF bs])
  have "pool_ok feedback_cipher (net (event_loop s)) (pool s)"
    using system_reach_inv [OF s(1) ex_settings_started] by (simp add: system_inv_def Let_def)
  with s(2,4) have ts: "crypt_threads (pool s) = Some [(ct_push (decrypt_job c) new_crypt_thread, CIp)]"
    by (auto simp: pool_ok_def thread_at_iff length_Suc_conv)
  let ?t = "ct_push (decrypt_job c) new_crypt_thread"
  let ?s1 = "s\<lparr>pool := set_thread 0 (?t\<lparr>tpc := T_check\<rparr>, CIp) (pool s)\<rparr>"
  have "system_step feedback_cipher s ?s1"
    by (rule system_step.thread_moves [OF s(2)]) (simp_all add: ct_push_def new_crypt_thread_def ct_loop_step_def)
  then have s1: "system_reach feedback_cipher (\<lambda>_ _. True) ex_settings ?s1" by (rule system_reach.step [OF s(1)])
  let ?t2 = "?t\<lparr>tpc := T_run (decrypt_job c), queue_items := []\<rparr>"
  let ?s2 = "?s1\<lparr>pool := set_thread 0 (?t2, CIp) (pool ?s1)\<rparr>"
  have "system_step feedback_cipher ?s1 ?s2"
    by (rule system_step.thread_moves [where t = "?t\<lparr>tpc := T_check\<rparr>"])
      (simp_all add: ct_push_def new_crypt_thread_def ct_loop_step_def thread_at_def set_thread_def ts)
  then have "system_reach feedback_cipher (\<lambda>_ _. True) ex_settings ?s2" by (rule system_reach.step [OF s1])
  with s(3,5,6) ts show thesis by (intro that [of ?s2 ?t2 CIp c]) (simp_all add: set_thread_def thread_at_def)
qed

section \<open>Properties\<close>

text \<open>C7: Every state of a worker process with its threads corresponds to a state of the worker relation: the
  event loop, the queues of the threads and the order in which the threads take their jobs are one
  behaviour of "any client that was handed over may be processed at any time".\<close>

theorem system_refines_worker:
  assumes "system_reach lib tmem cfg s" "started_ok lib tmem cfg"
  shows "\<exists>w. worker_reach lib w \<and> event_loop s = w\<lparr>handed := []\<rparr> \<and> mset (handed w) = pool_clients (pool s)"
  using system_reach_refines [OF assms] by (auto simp: refines_def)

lemma system_refines_worker_witness:
  "\<exists>(s :: byte system) w. system_reach feedback_cipher (\<lambda>_ _. True) ex_settings s
     \<and> worker_reach feedback_cipher w \<and> conns w = [] \<and> mset (handed w) = pool_clients (pool s) \<and> handed w \<noteq> []"
proof -
  obtain s :: "byte system" where s: "system_reach feedback_cipher (\<lambda>_ _. True) ex_settings s"
    "conns (event_loop s) = []" "pool_clients (pool s) \<noteq> {#}"
    by (rule ex_system_job [OF length_replicate, of 0])
  from system_refines_worker [OF s(1) ex_settings_started] s show ?thesis by fastforce
qed




end
