(* ===== verification/Nsca_Program.thy ===== *)
theory Nsca_Program
  imports Nsca_System_Refine
begin

text \<open>
  The whole program: \<open>main\<close> with everything the parts of \<open>Nsca_Main\<close> leave open, up to the exit status
  of the process, the help text and the exit handler; and the way from the command line to the
  states of a worker with its threads.
\<close>

section \<open>Help and exit handler\<close>

text \<open>
  \<open>do_help\<close>. \<open>version\<close> and \<open>gcc\<close> are the macros \<open>VERSION_DATE_LONG\<close> and \<open>GCC_VERSION\<close> of the build.
\<close>

definition AUTHOR :: string where "AUTHOR = ''macskas''"

definition do_help :: "bool \<Rightarrow> string \<Rightarrow> int \<Rightarrow> string \<Rightarrow> string" where
  "do_help workers_enabled version gcc programName =
     concat (map (\<lambda>l. l @ nl)
       ([''Usage: '' @ programName @ '' [OPTIONS]'',
         ''nsca.'',
         [],
         ''Mandatory arguments to long options are mandatory for short options too.'',
         ''  -h                    this screen'',
         ''  -c [FILE]             configfile'',
         ''  -d                    verbose output'',
         ''  -f                    foreground'']
        @ (if workers_enabled then [''  -n [MAX_WORKERS]      max workers - between 0 and 100''] else [])
        @ [''  -t [THREADS]          max_threads_per_worker - between 0 and 1000'',
           [],
           ''{ '' @ [CHR 0x22] @ ''author'' @ [CHR 0x22] @ '': '' @ [CHR 0x22] @ AUTHOR @ [CHR 0x22]
             @ '', '' @ [CHR 0x22] @ ''version'' @ [CHR 0x22] @ '': '' @ [CHR 0x22] @ version @ [CHR 0x22]
             @ '', gcc: '' @ [CHR 0x22] @ show_int gcc @ [CHR 0x22] @ '' };'']))"

text \<open>
  \<open>main_cleanup\<close>, which \<open>mainloop\<close> registers with \<open>atexit\<close>: the process manager and the store are
  deleted. The instances are made if there are none yet.
\<close>

definition config_getInstance :: "config option \<Rightarrow> config option \<times> config" where
  "config_getInstance i = (case i of None \<Rightarrow> (Some new_config, new_config) | Some c \<Rightarrow> (i, c))"

definition processManager_getInstance ::
    "int \<Rightarrow> 'td process_manager option \<Rightarrow> 'td process_manager option \<times> 'td process_manager" where
  "processManager_getInstance time_now i =
     (case i of None \<Rightarrow> (let pm = new_process_manager time_now in (Some pm, pm)) | Some pm \<Rightarrow> (i, pm))"

definition main_cleanup ::
    "int \<Rightarrow> bool \<Rightarrow> bool \<Rightarrow> bool \<Rightarrow> config option \<Rightarrow> 'td process_manager option \<Rightarrow> world \<Rightarrow>
     (release list \<times> int option \<times> world) option" where
  "main_cleanup time_now initialized readable unlinked cfg pm w =
     (let (_, _) = config_getInstance cfg; (_, p) = processManager_getInstance time_now pm
      in delete_process_manager initialized readable unlinked p w)"

definition signal_atexit ::
    "int \<Rightarrow> bool \<Rightarrow> bool \<Rightarrow> bool \<Rightarrow> config option \<Rightarrow> 'td process_manager option \<Rightarrow> world \<Rightarrow>
     (release list \<times> int option \<times> world) option" where
  "signal_atexit = main_cleanup"

section \<open>The exit status\<close>

text \<open>What the system answers a process that runs \<open>main\<close>.\<close>

record main_env =
  me_files :: "string \<Rightarrow> string option"
  me_freopen :: "std_stream \<Rightarrow> bool"
  me_fork :: int
  me_time :: int
  me_lock_open :: int
  me_lock_ok :: bool
  me_pid :: int
  me_pid_file :: bool
  me_workers :: "nat \<Rightarrow> fork_env"
  me_getgr :: "string \<Rightarrow> int option"
  me_getpw :: "string \<Rightarrow> int option"
  me_set_id :: "id_call \<Rightarrow> bool"
  me_rounds :: "((nat \<Rightarrow> fork_env) \<times> signal list) list"

text \<open>
  \<open>Killed\<close>: a failed assertion; \<open>Still_running\<close>: the rounds of the master's loop are used up. With
  one worker the process works itself, and its status is that of \<open>work\<close> returning.
\<close>

datatype main_end = Status int | Killed | Still_running

definition mainloop :: "main_env \<Rightarrow> config \<Rightarrow> 'td process_manager itself \<Rightarrow> world \<Rightarrow> main_end" where
  "mainloop e cfg _ w =
     (case mainloop_start (me_time e) (me_lock_open e) (me_lock_ok e) (me_pid e) (me_pid_file e) (me_workers e)
             cfg w :: int + 'td process_manager \<times> world \<times> bool of
        Inl x \<Rightarrow> Status x
      | Inr (pm, w1, enters) \<Rightarrow>
          if \<not> enters then Status 0
          else (case pm_loop (me_getgr e) (me_getpw e) (me_set_id e) cfg (me_rounds e) pm of
                  Works_alone _ (Inl x) \<Rightarrow> Status x
                | Works_alone _ (Inr _) \<Rightarrow> Status 0
                | Managed (Loop_done _ _) \<Rightarrow> Status 0
                | Managed (Loop_exit x) \<Rightarrow> Status x
                | Managed Out_of_rounds \<Rightarrow> Still_running))"

definition main_program ::
    "bool \<Rightarrow> main_env \<Rightarrow> (char \<times> string option) list \<Rightarrow> log_state \<Rightarrow> 'td process_manager itself \<Rightarrow> world \<Rightarrow>
     main_end" where
  "main_program workers_enabled e args ls T w =
     (case parse_options args (initial_options ls) of
        Inl x \<Rightarrow> Status x
      | Inr opts \<Rightarrow>
          if opt_daemonize opts \<and> devnull_output (me_freopen e) = None then Killed
          else (case main_config workers_enabled (me_files e) opts of
                  Inl x \<Rightarrow> Status x
                | Inr (cfg, dbg) \<Rightarrow>
                    (case main_daemonize (opt_daemonize opts) (me_fork e) of
                       Inl x \<Rightarrow> Status x
                     | Inr _ \<Rightarrow> mainloop e cfg T w)))"

section \<open>From the command line to the worker\<close>

text \<open>Dropping the privileges adds two keys to the store, which nothing of the worker reads.\<close>

lemma super_downgrade_GetInt:
  assumes "super_downgrade getgr getpw set_ok cfg = (calls, Inr cfg')" "k \<noteq> ''gid''" "k \<noteq> ''uid''"
  shows "GetInt cfg' k d = GetInt cfg k d"
  using assms by (auto simp: super_downgrade_def Let_def store_simps split: if_splits option.splits)

lemma main_start_checked:
  assumes "main_start we files args ls = Inr (cfg, dbg, daemonize)"
  obtains c where "check_config we c = (0, cfg, dbg)"
proof -
  obtain opts where "main_config we files opts = Inr (cfg, dbg)"
    using assms by (auto simp: main_start_def split: sum.splits)
  then show thesis by (rule main_config_checked) (rule that)
qed

definition ciphers_open :: "'td mcrypt \<Rightarrow> (nat \<Rightarrow> alloc_site \<Rightarrow> bool) \<Rightarrow> int \<Rightarrow> bool" where
  "ciphers_open lib tmem m \<longleftrightarrow>
     (\<forall>i a. tmem i a)
     \<and> (m = ENCRYPT_NONE \<or> m = ENCRYPT_XOR
        \<or> (case mcrypt_module_open lib (mcrypt_algorithm_name m) ''cfb'' of
             None \<Rightarrow> False
           | Some t \<Rightarrow> mcrypt_enc_get_iv_size lib t \<le> TRANSMITTED_IV_SIZE))"

lemma encrypt_init_opens:
  "ciphers_open lib tmem m \<Longrightarrow> fst (encrypt_init lib (tmem i) pw m iv r) = OK"
  by (auto simp: ciphers_open_def encrypt_init_def Let_def case_prod_beta nsca_consts split: option.splits)

lemma main_started_ok:
  assumes "main_start we files args ls = Inr (cfg, dbg, daemonize)"
    and "super_downgrade getgr getpw set_ok cfg = (calls, Inr cfg')"
    and "ciphers_open lib tmem (c_int (GetInt cfg ''decryption_method'' 0))"
  shows "started_ok lib tmem cfg'"
proof -
  obtain c where c: "check_config we c = (0, cfg, dbg)" by (rule main_start_checked [OF assms(1)])
  have "GetInt cfg' ''decryption_method'' 0 = GetInt cfg ''decryption_method'' 0"
    by (rule super_downgrade_GetInt [OF assms(2)]) simp_all
  moreover have "0 \<le> c_int (GetInt cfg ''decryption_method'' 0)"
    using check_config_settled_values(2) [OF c] by (simp add: in_range_def)
  ultimately show ?thesis using encrypt_init_opens [OF assms(3)] by (simp add: started_ok_def)
qed

section \<open>Properties\<close>

text \<open>From the command line to every moment of a worker: with any options and any configuration file that
  \<open>main\<close> accepts, and a method whose cipher can be opened, no callback and no job of a worker runs
  into undefined behaviour, however the connections and the threads interleave: the end of a
  connection is handled, a client for a thread finds one, and every queue is processed to its end.\<close>

theorem system_never_undefined:
  assumes "main_start we files args ls = Inr (cfg, dbg, daemonize)"
    and "super_downgrade getgr getpw set_ok cfg = (calls, Inr cfg')"
    and "ciphers_open lib tmem (c_int (GetInt cfg ''decryption_method'' 0))"
    and "\<And>t. mcrypt_enc_set_state lib t (mcrypt_enc_get_state lib t) = t"
    and "system_reach lib tmem cfg' s"
  shows "system_defined lib s"
  by (rule system_inv_defined [OF system_reach_inv [OF assms(5) main_started_ok [OF assms(1-3)]] assms(4)])

lemma ex_main_start:
  "main_start True (\<lambda>_. Some []) [(CHR ''f'', None), (CHR ''n'', Some ''1''), (CHR ''t'', Some ''1'')] (log_initial 9)
     = Inr (ex_settings, False, False)"
proof -
  have "snprintf 10 (show_int 1) = ''1''" by code_simp
  then show ?thesis
    by (simp add: main_start_def option_step_def main_config_def initial_options_def read_config_def
        read_config_loop.simps override_settings_def check_config_def Let_def GetInt_def new_config_def
        setConfigPath_def c_int_id ex_settings_def Set_def)
qed

lemma ex_open:
  "super_downgrade (\<lambda>_. None) (\<lambda>_. None) (\<lambda>_. False) ex_settings = ([], Inr ex_settings)"
  "ciphers_open feedback_cipher (\<lambda>_ _. True) (c_int (GetInt ex_settings ''decryption_method'' 0))"
  by (simp_all add: super_downgrade_def Get_def ciphers_open_def GetInt_def ex_settings_def Set_def
      setConfigPath_def new_config_def nsca_consts)

lemma system_never_undefined_witness:
  "\<exists>s :: byte system. system_reach feedback_cipher (\<lambda>_ _. True) ex_settings s
     \<and> pool_clients (pool s) \<noteq> {#} \<and> system_defined feedback_cipher s"
proof -
  obtain s :: "byte system" where s: "system_reach feedback_cipher (\<lambda>_ _. True) ex_settings s"
    "pool_clients (pool s) \<noteq> {#}"
    by (rule ex_system_job [OF length_replicate, of 0])
  from system_never_undefined [OF ex_main_start ex_open feedback_state_law s(1)] s show ?thesis by blast
qed

text \<open>The exit status a daemon's starter sees tells about the settings only: 0 exactly when options and
  settings are accepted and the fork succeeds. When another instance holds the lock the background
  process ends with 1, which no one sees: its standard streams lead to \<open>/dev/null\<close>.\<close>

theorem daemon_status:
  assumes "parse_options args (initial_options ls) = Inr opts" "opt_daemonize opts"
    and "\<forall>x. me_freopen e x"
  shows "(0 < me_fork e \<longrightarrow>
      (main_program we e args ls T w = Status 0 \<longleftrightarrow> (\<exists>r. main_config we (me_files e) opts = Inr r)))
    \<and> (me_fork e = 0 \<and> (\<exists>r. main_config we (me_files e) opts = Inr r)
        \<and> (me_lock_open e < 0 \<or> \<not> me_lock_ok e) \<longrightarrow> main_program we e args ls T w = Status 1)"
proof -
  have dev: "devnull_output (me_freopen e) \<noteq> None"
    using assms(3) by (simp add: devnull_output_def)
  have bad: "x = 1" if "main_config we (me_files e) opts = Inl x" for x
    using that by (auto simp: main_config_def read_config_def Let_def case_prod_beta split: option.splits if_splits)
  have lock: "mainloop e cfg T w = Status 1" if "me_lock_open e < 0 \<or> \<not> me_lock_ok e" for cfg
    using that by (auto simp: mainloop_def mainloop_start_def pm_lock_def setPids_def Let_def nsca_consts)
  show ?thesis
    using assms(1,2) dev bad lock
    by (auto simp: main_program_def main_daemonize_def split: sum.splits prod.splits)
qed

definition ex_main_env :: main_env where
  "ex_main_env =
     \<lparr>me_files = (\<lambda>_. Some []), me_freopen = (\<lambda>_. True), me_fork = 7, me_time = 0, me_lock_open = 3,
      me_lock_ok = False, me_pid = 77, me_pid_file = True,
      me_workers = (\<lambda>i. \<lparr>fork_pid = 100 + int i, fork_time = 0, fork_mypid = 0, fork_ppid = 0\<rparr>),
      me_getgr = (\<lambda>_. None), me_getpw = (\<lambda>_. None), me_set_id = (\<lambda>_. True), me_rounds = []\<rparr>"

lemma daemon_status_witness:
  "main_program True ex_main_env [] (log_initial 9) TYPE(byte process_manager) spool_world = Status 0
   \<and> main_program True (ex_main_env\<lparr>me_fork := 0\<rparr>) [] (log_initial 9) TYPE(byte process_manager) spool_world = Status 1"
proof -
  have p: "parse_options [] (initial_options (log_initial 9)) = Inr (initial_options (log_initial 9))" by simp
  have d: "opt_daemonize (initial_options (log_initial 9))" by (simp add: initial_options_def)
  have c: "\<exists>r. main_config True (\<lambda>_. Some []) (initial_options (log_initial 9)) = Inr r"
    by (simp add: main_config_def initial_options_def read_config_def read_config_loop.simps
        override_settings_def check_config_def Let_def GetInt_def new_config_def setConfigPath_def c_int_id) blast
  from daemon_status [OF p d, of ex_main_env True "TYPE(byte process_manager)" spool_world]
    daemon_status [OF p d, of "ex_main_env\<lparr>me_fork := 0\<rparr>" True "TYPE(byte process_manager)" spool_world] c
  show ?thesis by (simp add: ex_main_env_def)
qed

end
