(* ===== verification/Nsca_System_Delivery.thy ===== *)
theory Nsca_System_Delivery
  imports Nsca_Program
begin

text \<open>
  From the command line to the monitoring core: a client that makes its cipher from the password of
  the configuration and the IV of the greeting it was sent has its checks delivered, by whichever
  thread takes its job or by the event loop itself.
\<close>

section \<open>One client\<close>

text \<open>The greeting carries the IV the server's instance for the connection is made from.\<close>

lemma greeting_carries_iv:
  "length (greeting_iv n c) = TRANSMITTED_IV_SIZE \<Longrightarrow> take TRANSMITTED_IV_SIZE (greeting n' c) = greeting_iv n c"
  if "transmission_iv c = None \<longrightarrow> shared_transmission_iv n' = shared_transmission_iv n"
  using that by (auto simp: greeting_def greeting_iv_def split: option.splits)

text \<open>
  \<open>processed lib env s k c n res\<close>: in the state \<open>s\<close>, the queue of the client \<open>c\<close> is processed as number
  \<open>k\<close>, by a thread that has taken its job or by the callback at the end of its connection; \<open>n\<close> is the
  \<open>network\<close> at that moment, and \<open>res\<close> the outcome.
\<close>

inductive processed :: "'td mcrypt \<Rightarrow> (nat \<Rightarrow> send_env) \<Rightarrow> 'td system \<Rightarrow> nat \<Rightarrow> 'td network_client \<Rightarrow>
    'td network \<Rightarrow> ('td network \<times> world) option \<Rightarrow> bool" for lib env s where
  in_thread: "thread_at (pool s) k = Some (t, CIp) \<Longrightarrow> tpc t = T_run j \<Longrightarrow>
    processed lib env s k (networkClient j) (net (event_loop s))
      (map_option (\<lambda>(_, n, w). (n, w))
        (run_job lib True env k j (CIp, net (event_loop s), w_world (event_loop s))))"
| in_loop: "i < length (conns (event_loop s)) \<Longrightarrow>
    eventcb lib mem alloc (generator (event_loop s)) (net (event_loop s)) (conns (event_loop s) ! i)
      = Some (n, r, Process c) \<Longrightarrow>
    processed lib env s 0 c n
      (map_option (\<lambda>(_, n', _, w). (n', w))
        (process_queue lib True env 0 (client_instance n c) (n, c, w_world (event_loop s))))"

lemma client_delivers:
  assumes "server_cipher lib n (greeting_iv n c) R" "fifos_ok tid n" "client_ok lib n c" "0 \<le> decryption_method n"
    and "cipher_laws lib"
    and "encrypt_init lib mem (password n) (decryption_method n) (Some (greeting_iv n c)) r = (OK, S, r')"
    and "\<forall>p \<in> set ps. acceptable n p"
    and "send_packets lib (password n) (decryption_method n) S (map seal_packet ps) = Some ws"
    and "data_packets c = as_queue ws"
    and "deliver_spec env tid 1 (map check_of ps) (n, (0, 0), w) = (n1, (g, b), w1)"
  shows "\<exists>R' c'. process_queue lib True env tid R (n, c, w) =
    Some (R', report_success_failed (word_of_int g) (word_of_int b) n1, c', w1)"
proof (rule process_queue_sent)
  show "in_step lib (decryption_method n) S R"
    using cipher_of_in_step [OF assms(6,1,4)] assms(3,5) by (simp add: client_ok_def)
  show "deliver_spec env tid 1 (map check_of ps) (n, (d_success c, d_failed c), w) = (n1, (g, b), w1)"
    using assms(3,10) by (simp add: client_ok_def)
  show "mcrypt_enc_set_state lib t (mcrypt_enc_get_state lib t) = t" for t
    using assms(5) by (simp add: cipher_laws_def)
qed (use assms in simp_all)

lemma set_CI_keeps [simp]:
  "data_packets (set_CI ref c) = data_packets c" "transmission_iv (set_CI ref c) = transmission_iv c"
  "d_success (set_CI ref c) = d_success c" "d_failed (set_CI ref c) = d_failed c"
  "has_own_CI (set_CI ref c) = has_own_CI c" "own_CI (set_CI ref c) = own_CI c"
  "greeting_iv n (set_CI ref c) = greeting_iv n c" "client_ok lib n (set_CI ref c) = client_ok lib n c"
  by (simp_all add: set_CI_def greeting_iv_def client_ok_def)

lemma processed_delivers:
  assumes "system_inv lib s" "processed lib env s k c n res" "cipher_laws lib"
    and "encrypt_init lib mem (password n) (decryption_method n)
           (Some (take TRANSMITTED_IV_SIZE (greeting n c))) r = (OK, S, r')"
    and "\<forall>p \<in> set ps. acceptable n p"
    and "send_packets lib (password n) (decryption_method n) S (map seal_packet ps) = Some ws"
    and "data_packets c = as_queue ws"
    and "deliver_spec env k 1 (map check_of ps) (n, (0, 0), w_world (event_loop s)) = (n1, (g, b), w1)"
  shows "res = Some (report_success_failed (word_of_int g) (word_of_int b) n1, w1)"
proof -
  let ?e = "event_loop s"
  have inv: "net_ok lib (net ?e)" "list_all (conn_ok (net ?e)) (conns ?e)" "pool_ok lib (net ?e) (pool s)"
    using assms(1) by (simp_all add: system_inv_def Let_def)
  note sent = client_delivers [OF _ _ _ _ assms(3) _ assms(5,6) _ assms(8)]
  show ?thesis
    using assms(2)
  proof cases
    case (in_thread t CIp j)
    have ok: "thread_ok lib (net ?e) (t, CIp)" by (rule thread_okD [OF inv(3) in_thread(4)])
    have j: "job_ok lib (net ?e) j" by (rule running_job_ok [OF ok in_thread(5)])
    then have c: "client_ok lib n c" using in_thread by (simp add: job_ok_def)
    then have "take TRANSMITTED_IV_SIZE (greeting n c) = greeting_iv n c"
      by (intro greeting_carries_iv) (simp_all add: client_ok_def)
    with assms(4,7) c inv(1) job_instance_cipher [OF ok j] thread_fifos [OF inv(3,1) in_thread(4)] in_thread
    have "\<exists>R' c'. process_queue lib True env k (job_instance CIp (networkClient j))
        (n, set_CI CI_thread (networkClient j), w_world ?e)
      = Some (R', report_success_failed (word_of_int g) (word_of_int b) n1, c', w1)"
      by (intro sent) (simp_all add: net_ok_def)
    with in_thread run_job_eq [OF ok j, of True env k "w_world ?e"] show ?thesis by auto
  next
    case (in_loop i mem' alloc' r2)
    have ci: "conn_ok (net ?e) (conns ?e ! i)" using inv(2) in_loop(3) by (simp add: list_all_length)
    note closed = eventcb_closed [OF in_loop(4) _ ci inv(1), of c]
    have st: "statics n = statics (net ?e)" by (rule statics_eventcb [OF in_loop(4)])
    have c: "closed_ok lib n c" using closed(1) closed_ok_same [OF st] by simp
    have n: "net_ok lib n" using inv(1) statics_net_ok [OF st] by simp
    have th: "nsca_threads_per_worker n = 0" using closed(2) n statics_eqD(2) [OF st] by (simp add: net_ok_def)
    have cl: "client_ok lib n c" using c by (simp add: closed_ok_def)
    then have "take TRANSMITTED_IV_SIZE (greeting n c) = greeting_iv n c"
      by (intro greeting_carries_iv) (simp_all add: client_ok_def)
    with assms(4,7) cl n client_instance_cipher [OF c n th] fifos_all_ok [of 1 n 0] th in_loop(1)
    have "\<exists>R' c'. process_queue lib True env 0 (client_instance n c) (n, c, w_world ?e)
      = Some (R', report_success_failed (word_of_int g) (word_of_int b) n1, c', w1)"
      by (intro sent [unfolded in_loop(1)]) (simp_all add: net_ok_def)
    with in_loop show ?thesis by auto
  qed
qed

section \<open>Properties\<close>



end
