(* ===== verification/Nsca_Parallel.thy ===== *)
theory Nsca_Parallel
  imports Nsca_System_Refine
begin

text \<open>
  Several threads at work at the same time. \<open>Nsca_System\<close> takes the processing of one queue by a
  thread as one step; here it is cut into the rounds of its loop and the loads and stores of
  \<open>report_success_failed\<close>, which takes no lock, and these are interleaved with those of the other
  threads and with the event loop (\<open>runners_step\<close>). The specification is \<open>deliveries_step\<close>: each
  thread has a list of checks, and single deliveries of any of them follow each other.
\<close>

section \<open>One queue in steps\<close>

text \<open>
  Where \<open>process_queue\<close> is: in the \<open>i\<close>-th round of the loop, at one of the two tests of the report, or
  between the load of a counter, whose value it holds, and the store.
\<close>

datatype phase = Round nat | Load_success | Add_success u64 | Load_failed | Add_failed u64 | Reported

text \<open>A thread in \<open>process_queue\<close>: the rest of the queue, the instance it decrypts with, the client.\<close>

record 'td runner =
  rn_phase :: phase
  rn_left :: "data_packet_pair list"
  rn_CI :: "'td crypt_instance option"
  rn_client :: "'td network_client"

definition queue_begin ::
    "bool \<Rightarrow> 'td network \<Rightarrow> 'td crypt_instance option \<Rightarrow> 'td network_client \<Rightarrow> 'td runner option" where
  "queue_begin alloc n CIp c =
     (let r = \<lparr>rn_phase = Round 1, rn_left = data_packets c, rn_CI = CIp, rn_client = c\<rparr>
      in if \<not> 1 < decryption_method n then Some r
         else if \<not> alloc then Some (r\<lparr>rn_phase := Load_success\<rparr>)
         else (case CIp of
                 None \<Rightarrow> None
               | Some ci \<Rightarrow>
                   (case IV ci of
                      None \<Rightarrow> None
                    | Some iv \<Rightarrow> Some (r\<lparr>rn_client := c\<lparr>
                        mcrypt_state := take (iv_size ci) iv @ replicate (128 - iv_size ci) 0,
                        mcrypt_state_size := iv_size ci\<rparr>\<rparr>))))"

text \<open>
  The loop that is taken, and one round of it: the loop on the first packet alone. The packet is left
  in the queue when it is rejected, which is the end of the loop.
\<close>

definition queue_loop ::
    "'td mcrypt \<Rightarrow> (nat \<Rightarrow> send_env) \<Rightarrow> nat \<Rightarrow> nat \<Rightarrow> data_packet_pair list \<Rightarrow> 'td crypt_instance option \<Rightarrow>
     'td proc_state \<Rightarrow> (data_packet_pair list \<times> 'td crypt_instance option \<times> 'td proc_state) option" where
  "queue_loop lib env tid i ps CIp s =
     (if 1 < decryption_method (fst s)
      then (case CIp of
              None \<Rightarrow> None
            | Some ci \<Rightarrow> map_option (\<lambda>(ps1, ci1, s1). (ps1, Some ci1, s1)) (mcrypt_loop lib env tid i ps ci s))
      else nomcrypt_loop lib env tid i ps CIp s)"

definition queue_round ::
    "'td mcrypt \<Rightarrow> send_env \<Rightarrow> nat \<Rightarrow> nat \<Rightarrow> data_packet_pair \<Rightarrow> 'td crypt_instance option \<Rightarrow>
     'td proc_state \<Rightarrow> (data_packet_pair list \<times> 'td crypt_instance option \<times> 'td proc_state) option" where
  "queue_round lib e tid i p = queue_loop lib (\<lambda>_. e) tid i [p]"

text \<open>The counts a runner reports, as \<open>uint16_t\<close>.\<close>

definition rn_success :: "'td runner \<Rightarrow> u16" where
  "rn_success r = word_of_int (d_success (rn_client r))"

definition rn_failed :: "'td runner \<Rightarrow> u16" where
  "rn_failed r = word_of_int (d_failed (rn_client r))"

definition runner_step ::
    "'td mcrypt \<Rightarrow> send_env \<Rightarrow> nat \<Rightarrow> 'td runner \<times> 'td network \<times> world \<Rightarrow>
     ('td runner \<times> 'td network \<times> world) option" where
  "runner_step lib e tid = (\<lambda>(r, n, w).
     (case rn_phase r of
        Round i \<Rightarrow>
          (case rn_left r of
             [] \<Rightarrow> Some (r\<lparr>rn_phase := Load_success\<rparr>, n, w)
           | p # ps \<Rightarrow>
               (case queue_round lib e tid i p (rn_CI r) (n, rn_client r, w) of
                  None \<Rightarrow> None
                | Some (rest, CIp, (n1, c1, w1)) \<Rightarrow>
                    Some (\<lparr>rn_phase = (if rest = [] then Round (i + 1) else Load_success),
                           rn_left = rest @ ps, rn_CI = CIp, rn_client = c1\<rparr>, n1, w1)))
      | Load_success \<Rightarrow>
          Some (r\<lparr>rn_phase := (if rn_success r \<noteq> 0 then Add_success (message_success n) else Load_failed)\<rparr>, n, w)
      | Add_success v \<Rightarrow>
          Some (r\<lparr>rn_phase := Load_failed\<rparr>, n\<lparr>message_success := v + ucast (rn_success r)\<rparr>, w)
      | Load_failed \<Rightarrow>
          Some (r\<lparr>rn_phase := (if rn_failed r \<noteq> 0 then Add_failed (message_failed n) else Reported)\<rparr>, n, w)
      | Add_failed v \<Rightarrow>
          Some (r\<lparr>rn_phase := Reported\<rparr>, n\<lparr>message_failed := v + ucast (rn_failed r)\<rparr>, w)
      | Reported \<Rightarrow> Some (r, n, w)))"

text \<open>
  All runners; the \<open>k\<close>-th is the thread with the number \<open>k\<close>. Meanwhile the event loop may do what it
  likes with the \<open>network\<close>, except for the settings, the FIFO clients and the two counters of results,
  and the clock goes on; \<open>T\<close> are the times it shows while the threads are at work.
\<close>

definition elsewhere :: "int set \<Rightarrow> 'td network \<times> world \<Rightarrow> 'td network \<times> world \<Rightarrow> bool" where
  "elsewhere T = (\<lambda>(n, w) (n', w').
     statics n' = statics n \<and> now n' \<in> T \<and> pipe w' = pipe w)"

type_synonym 'td runners = "'td runner list \<times> 'td network \<times> world"

inductive runners_step :: "'td mcrypt \<Rightarrow> int set \<Rightarrow> 'td runners \<Rightarrow> 'td runners \<Rightarrow> bool" for lib T where
  advance: "k < length rs \<Longrightarrow> rn_phase (rs ! k) \<noteq> Reported \<Longrightarrow>
    runner_step lib e k (rs ! k, n, w) = Some (r, n', w') \<Longrightarrow>
    runners_step lib T (rs, n, w) (rs[k := r], n', w')"
| other: "elsewhere T (n, w) (n', w') \<Longrightarrow> runners_step lib T (rs, n, w) (rs, n', w')"

inductive runners_reach :: "'td mcrypt \<Rightarrow> int set \<Rightarrow> 'td runners \<Rightarrow> 'td runners \<Rightarrow> bool" for lib T s where
  start: "runners_reach lib T s s"
| step: "runners_reach lib T s s' \<Longrightarrow> runners_step lib T s' s'' \<Longrightarrow> runners_reach lib T s s''"

inductive_cases runners_stepE: "runners_step lib T s s'"

section \<open>A thread on its own is \<open>process_queue\<close>\<close>

text \<open>Runs of one thread; \<open>env i\<close> is what the system answers in the \<open>i\<close>-th round.\<close>

fun run_alone ::
    "'td mcrypt \<Rightarrow> (nat \<Rightarrow> send_env) \<Rightarrow> nat \<Rightarrow> nat \<Rightarrow> 'td runner \<times> 'td network \<times> world \<Rightarrow>
     ('td runner \<times> 'td network \<times> world) option" where
  "run_alone lib env tid 0 s = Some s"
| "run_alone lib env tid (Suc m) s =
     (case runner_step lib (case rn_phase (fst s) of Round i \<Rightarrow> env i | _ \<Rightarrow> env 0) tid s of
        None \<Rightarrow> None
      | Some s' \<Rightarrow> run_alone lib env tid m s')"

lemma run_alone_add:
  "run_alone lib env tid (a + b) s =
     (case run_alone lib env tid a s of None \<Rightarrow> None | Some s' \<Rightarrow> run_alone lib env tid b s')"
  by (induction a arbitrary: s) (auto split: option.split)

lemma run_alone_reach:
  assumes "run_alone lib env k m (r, n, w) = Some (r', n', w')" "k < length rs"
    and "runners_reach lib T s (rs[k := r], n, w)"
  shows "runners_reach lib T s (rs[k := r'], n', w')"
  using assms(1,3)
proof (induction m arbitrary: r n w)
  case 0
  then show ?case by simp
next
  case (Suc m)
  define e where "e = (case rn_phase r of Round i \<Rightarrow> env i | _ \<Rightarrow> env 0)"
  from Suc.prems(1) obtain r1 n1 w1 where
      1: "runner_step lib e k (r, n, w) = Some (r1, n1, w1)" "run_alone lib env k m (r1, n1, w1) = Some (r', n', w')"
    by (auto simp: e_def split: option.splits)
  show ?case
  proof (cases "rn_phase r = Reported")
    case True
    with 1(1) have "(r1, n1, w1) = (r, n, w)" by (simp add: runner_step_def)
    with Suc.IH [OF 1(2)] Suc.prems(2) show ?thesis by simp
  next
    case False
    from runners_step.advance [of k "rs[k := r]" lib e n w r1 n1 w1 T] False 1(1) assms(2)
    have "runners_step lib T (rs[k := r], n, w) (rs[k := r1], n1, w1)" by simp
    with Suc.prems(2) Suc.IH [OF 1(2)] show ?thesis by (blast intro: runners_reach.step)
  qed
qed

lemma queue_loop_Nil [simp]:
  "queue_loop lib env tid i [] CIp s = (if 1 < decryption_method (fst s) \<and> CIp = None then None else Some ([], CIp, s))"
  by (auto simp: queue_loop_def split: option.split)

lemma mcrypt_loop_Cons:
  "mcrypt_loop lib env tid i (p # ps) ci s =
     (case mcrypt_loop lib (\<lambda>_. env i) tid i [p] ci s of
        None \<Rightarrow> None
      | Some (rest, ci1, s1) \<Rightarrow>
          if rest = [] then mcrypt_loop lib env tid (i + 1) ps ci1 s1 else Some (rest @ ps, ci1, s1))"
proof (cases s)
  case (fields n c w)
  show ?thesis
  proof (cases "\<exists>t iv. td ci = Some t \<and> IV ci = Some iv")
    case False
    then show ?thesis unfolding fields by (cases "td ci"; cases "IV ci") simp_all
  next
    case True
    then obtain t iv where ci: "td ci = Some t" "IV ci = Some iv" by blast
    define dec where "dec = decrypt_buffer lib (receive_packet p) sizeof_data_packet (password n) (decryption_method n)
        (Some (ci\<lparr>td := Some (if i = 1 then mcrypt_enc_set_state lib t (take (iv_size ci) iv)
           else mcrypt_enc_set_state lib t (take (mcrypt_state_size c) (mcrypt_state c)))\<rparr>))"
    show ?thesis
    proof (cases "\<exists>bs ci1. dec = Some (bs, Some ci1)")
      case False
      then show ?thesis unfolding fields using ci
        by (cases dec) (auto simp: Let_def dec_def split: option.splits)
    next
      case True
      then obtain bs ci1 where "dec = Some (bs, Some ci1)" by blast
      with ci show ?thesis unfolding fields
        by (cases "check_packet n (packet_length p) bs"; cases "fst (check_packet n (packet_length p) bs)")
          (simp_all add: Let_def dec_def split: option.split)
    qed
  qed
qed

lemma nomcrypt_loop_Cons:
  "nomcrypt_loop lib env tid i (p # ps) CIp s =
     (case nomcrypt_loop lib (\<lambda>_. env i) tid i [p] CIp s of
        None \<Rightarrow> None
      | Some (rest, CIp1, s1) \<Rightarrow>
          if rest = [] then nomcrypt_loop lib env tid (i + 1) ps CIp1 s1 else Some (rest @ ps, CIp1, s1))"
proof (cases s)
  case (fields n c w)
  show ?thesis
  proof (cases "decrypt_buffer lib (receive_packet p) sizeof_data_packet (password n) (decryption_method n) CIp")
    case None
    then show ?thesis unfolding fields by simp
  next
    case (Some r)
    then show ?thesis unfolding fields
      by (cases r; cases "check_packet n (packet_length p) (fst r)"; cases "fst (check_packet n (packet_length p) (fst r))")
        (simp_all split: option.split)
  qed
qed

lemma delivery_keeps_method: "delivery_keeps tid (\<lambda>n. decryption_method n = m)"
  unfolding delivery_keeps_def
  using net_core_eqD(1) [OF send_receive_message_core] by (metis (full_types))

text \<open>What every delivery and every use of the instance keeps, the loop keeps.\<close>

lemma queue_loop_keeps:
  assumes "delivery_keeps tid P" "kept lib Q" "P n" "Q CIp"
    and "queue_loop lib env tid i ps CIp (n, c, w) = Some (rest, CIp1, (n1, c1, w1))"
  shows "P n1 \<and> Q CIp1"
proof (cases "1 < decryption_method n")
  case True
  with assms(5) obtain ci ci1 where l: "mcrypt_loop lib env tid i ps ci (n, c, w) = Some (rest, ci1, (n1, c1, w1))"
      "CIp = Some ci" "CIp1 = Some ci1"
    by (auto simp: queue_loop_def simp del: mcrypt_loop.simps split: option.splits)
  with mcrypt_loop_keeps [OF assms(1-3) _ l(1)] assms(4) show ?thesis by simp
next
  case False
  with assms(5) have "nomcrypt_loop lib env tid i ps CIp (n, c, w) = Some (rest, CIp1, (n1, c1, w1))"
    by (simp add: queue_loop_def del: nomcrypt_loop.simps)
  from nomcrypt_loop_keeps [OF assms(1-4) this] show ?thesis .
qed

lemma queue_loop_method:
  assumes "queue_loop lib env tid i ps CIp (n, c, w) = Some (rest, CIp1, (n1, c1, w1))"
  shows "decryption_method n1 = decryption_method n \<and> (1 < decryption_method n \<longrightarrow> CIp1 \<noteq> None)"
proof -
  have "decryption_method n1 = decryption_method n \<and> True"
    by (rule queue_loop_keeps [OF delivery_keeps_method _ refl _ assms]) (simp_all add: kept_def)
  moreover have "CIp1 \<noteq> None" if "1 < decryption_method n"
    using assms that by (auto simp: queue_loop_def simp del: mcrypt_loop.simps split: option.splits)
  ultimately show ?thesis by simp
qed

lemma queue_loop_Cons:
  "queue_loop lib env tid i (p # ps) CIp (n, c, w) =
     (case queue_round lib (env i) tid i p CIp (n, c, w) of
        None \<Rightarrow> None
      | Some (rest, CIp1, s1) \<Rightarrow>
          if rest = [] then queue_loop lib env tid (i + 1) ps CIp1 s1 else Some (rest @ ps, CIp1, s1))"
proof -
  have "decryption_method (fst s1) = decryption_method n \<and> (1 < decryption_method n \<longrightarrow> CIp1 \<noteq> None)"
    if "queue_round lib (env i) tid i p CIp (n, c, w) = Some (rest, CIp1, s1)" for rest CIp1 s1
    using that queue_loop_method by (cases s1) (fastforce simp: queue_round_def simp del: nomcrypt_loop.simps)
  then show ?thesis
    by (auto simp: queue_loop_def queue_round_def mcrypt_loop_Cons [of lib env tid i p ps]
        nomcrypt_loop_Cons [of lib env tid i p ps] simp del: mcrypt_loop.simps nomcrypt_loop.simps
        split: option.splits if_splits)
qed

lemma queue_loop_alone:
  assumes "queue_loop lib env tid i ps CIp (n, c, w) = Some (rest, CIp', (n', c', w'))"
  shows "\<exists>m. run_alone lib env tid m (\<lparr>rn_phase = Round i, rn_left = ps, rn_CI = CIp, rn_client = c\<rparr>, n, w)
    = Some (\<lparr>rn_phase = Load_success, rn_left = rest, rn_CI = CIp', rn_client = c'\<rparr>, n', w')"
  using assms
proof (induction ps arbitrary: i CIp n c w)
  case Nil
  then show ?case by (intro exI [of _ 1]) (auto simp: runner_step_def split: if_splits)
next
  case (Cons p ps)
  from Cons.prems obtain rest1 CIp1 n1 c1 w1 where
      r: "queue_round lib (env i) tid i p CIp (n, c, w) = Some (rest1, CIp1, (n1, c1, w1))"
    and next': "(if rest1 = [] then queue_loop lib env tid (i + 1) ps CIp1 (n1, c1, w1)
        else Some (rest1 @ ps, CIp1, (n1, c1, w1))) = Some (rest, CIp', (n', c', w'))"
    by (auto simp: queue_loop_Cons split: option.splits)
  show ?case
  proof (cases "rest1 = []")
    case True
    with next' Cons.IH obtain m where
        "run_alone lib env tid m (\<lparr>rn_phase = Round (i + 1), rn_left = ps, rn_CI = CIp1, rn_client = c1\<rparr>, n1, w1)
          = Some (\<lparr>rn_phase = Load_success, rn_left = rest, rn_CI = CIp', rn_client = c'\<rparr>, n', w')"
      by fastforce
    with True r show ?thesis by (intro exI [of _ "Suc m"]) (simp add: runner_step_def)
  next
    case False
    with next' r show ?thesis by (intro exI [of _ 1]) (auto simp: runner_step_def)
  qed
qed

lemma report_alone:
  assumes "rn_phase r = Load_success"
  shows "\<exists>m. run_alone lib env tid m (r, n, w)
    = Some (r\<lparr>rn_phase := Reported\<rparr>, report_success_failed (rn_success r) (rn_failed r) n, w)"
proof -
  let ?m = "if rn_success r = 0 then 1 else 2" and ?m' = "if rn_failed r = 0 then 1 else 2"
  let ?n = "if rn_success r = 0 then n else n\<lparr>message_success := message_success n + ucast (rn_success r)\<rparr>"
  have 1: "run_alone lib env tid ?m (r, n, w) = Some (r\<lparr>rn_phase := Load_failed\<rparr>, ?n, w)"
    using assms by (simp add: runner_step_def numeral_2_eq_2 rn_success_def)
  have 2: "run_alone lib env tid ?m' (r\<lparr>rn_phase := Load_failed\<rparr>, ?n, w)
      = Some (r\<lparr>rn_phase := Reported\<rparr>, report_success_failed (rn_success r) (rn_failed r) n, w)"
    by (simp add: runner_step_def numeral_2_eq_2 rn_failed_def report_success_failed_def)
  from 1 2 show ?thesis
    by (intro exI [of _ "?m + ?m'"]) (simp only: run_alone_add option.case)
qed

lemma process_queue_begin:
  "process_queue lib alloc env tid CIp (n, c, w) =
     (case queue_begin alloc n CIp c of
        None \<Rightarrow> None
      | Some r \<Rightarrow>
          (case (if rn_phase r = Load_success then Some (rn_left r, rn_CI r, (n, rn_client r, w))
                 else queue_loop lib env tid 1 (rn_left r) (rn_CI r) (n, rn_client r, w)) of
             None \<Rightarrow> None
           | Some (ps, CIp1, (n1, c1, w1)) \<Rightarrow>
               Some (CIp1, report_success_failed (word_of_int (d_success c1)) (word_of_int (d_failed c1)) n1,
                     c1\<lparr>data_packets := ps\<rparr>, w1)))"
  by (auto simp: process_queue_def process_queue_mcrypt_def process_queue_nomcrypt_def queue_begin_def
      queue_loop_def Let_def simp del: mcrypt_loop.simps nomcrypt_loop.simps split: option.split)

lemma process_queue_alone:
  assumes "process_queue lib alloc env tid CIp (n, c, w) = Some (CIp', n', c', w')"
  shows "\<exists>r m r'. queue_begin alloc n CIp c = Some r \<and> run_alone lib env tid m (r, n, w) = Some (r', n', w')
    \<and> rn_phase r' = Reported \<and> rn_CI r' = CIp' \<and> c' = (rn_client r')\<lparr>data_packets := rn_left r'\<rparr>"
proof -
  from assms obtain r ps n1 c1 where r: "queue_begin alloc n CIp c = Some r"
    and loop: "(if rn_phase r = Load_success then Some (rn_left r, rn_CI r, (n, rn_client r, w))
        else queue_loop lib env tid 1 (rn_left r) (rn_CI r) (n, rn_client r, w)) = Some (ps, CIp', (n1, c1, w'))"
    and n': "n' = report_success_failed (word_of_int (d_success c1)) (word_of_int (d_failed c1)) n1"
      "c' = c1\<lparr>data_packets := ps\<rparr>"
    by (auto simp: process_queue_begin split: option.splits)
  let ?r = "\<lparr>rn_phase = Load_success, rn_left = ps, rn_CI = CIp', rn_client = c1\<rparr>"
  have "\<exists>m. run_alone lib env tid m (r, n, w) = Some (?r, n1, w')"
  proof (cases "rn_phase r = Load_success")
    case True
    with loop show ?thesis by (intro exI [of _ 0]) (cases r, simp)
  next
    case False
    with r have "r = \<lparr>rn_phase = Round 1, rn_left = rn_left r, rn_CI = rn_CI r, rn_client = rn_client r\<rparr>"
      by (cases r) (auto simp: queue_begin_def Let_def split: if_splits option.splits)
    with queue_loop_alone [of lib env tid 1 "rn_left r" "rn_CI r" n "rn_client r" w] loop False show ?thesis by metis
  qed
  then obtain m where m: "run_alone lib env tid m (r, n, w) = Some (?r, n1, w')" by blast
  obtain m' where m': "run_alone lib env tid m' (?r, n1, w') = Some (?r\<lparr>rn_phase := Reported\<rparr>, n', w')"
    using report_alone [of ?r lib env tid n1 w'] n'(1) by (auto simp: rn_success_def rn_failed_def)
  with m have "run_alone lib env tid (m + m') (r, n, w) = Some (?r\<lparr>rn_phase := Reported\<rparr>, n', w')"
    by (simp add: run_alone_add)
  with r n'(2) show ?thesis by force
qed

section \<open>The specification: single deliveries\<close>

text \<open>
  What a thread still has to do: the checks to deliver, whether a packet after them is rejected, and
  the counts of successes and failures so far.
\<close>

type_synonym todo = "check list \<times> bool \<times> int \<times> int"

inductive deliveries_step ::
    "int set \<Rightarrow> todo list \<times> 'td network \<times> world \<Rightarrow> todo list \<times> 'td network \<times> world \<Rightarrow> bool" for T where
  deliver: "k < length ts \<Longrightarrow> ts ! k = (chk # chks, stop, g, b) \<Longrightarrow>
    send_result e k chk n w = (n', ok, w') \<Longrightarrow>
    deliveries_step T (ts, n, w) (ts[k := (chks, stop, if ok then (g + 1, b) else (g, b + 1))], n', w')"
| refuse: "k < length ts \<Longrightarrow> ts ! k = ([], True, g, b) \<Longrightarrow>
    deliveries_step T (ts, n, w) (ts[k := ([], False, g, b + 1)], n, w)"
| count: "deliveries_step T (ts, n, w) (ts, n\<lparr>message_success := x, message_failed := y\<rparr>, w)"
| other: "elsewhere T (n, w) (n', w') \<Longrightarrow> deliveries_step T (ts, n, w) (ts, n', w')"

inductive deliveries_reach ::
    "int set \<Rightarrow> todo list \<times> 'td network \<times> world \<Rightarrow> todo list \<times> 'td network \<times> world \<Rightarrow> bool" for T s where
  start: "deliveries_reach T s s"
| step: "deliveries_reach T s s' \<Longrightarrow> deliveries_step T s' s'' \<Longrightarrow> deliveries_reach T s s''"

text \<open>The abstraction: what is left of the queue, decrypted, up to the first packet that is rejected.\<close>

definition runner_decoded :: "'td mcrypt \<Rightarrow> 'td network \<Rightarrow> 'td runner \<Rightarrow> (nat \<times> byte list) list" where
  "runner_decoded lib n r =
     (case rn_phase r of
        Round i \<Rightarrow>
          if 1 < decryption_method n
          then (case rn_CI r of
                  Some ci \<Rightarrow> decoded_stream lib
                    (loop_cipher lib i (the (td ci)) (the (IV ci)) ci (rn_client r)) (rn_left r)
                | None \<Rightarrow> [])
          else decoded_plain (password n) (decryption_method n) (rn_CI r) (rn_left r)
      | _ \<Rightarrow> [])"

definition todo_of :: "'td network \<Rightarrow> (nat \<times> byte list) list \<Rightarrow> int \<times> int \<Rightarrow> todo" where
  "todo_of n ds gb =
     (let good = accepted_prefix n ds in (map packet_check good, length good < length ds, gb))"

definition runner_todo :: "'td mcrypt \<Rightarrow> 'td network \<Rightarrow> 'td runner \<Rightarrow> todo" where
  "runner_todo lib n r =
     todo_of n (runner_decoded lib n r) (d_success (rn_client r), d_failed (rn_client r))"

text \<open>No packet gets too old while the threads are at work.\<close>

definition timeless :: "int set \<Rightarrow> 'td network \<Rightarrow> (nat \<times> byte list) list \<Rightarrow> bool" where
  "timeless T n ds \<longleftrightarrow> (\<forall>t \<in> T. accepted_prefix (n\<lparr>now := t\<rparr>) ds = accepted_prefix n ds)"

definition same_checks :: "'td network \<Rightarrow> 'td network \<Rightarrow> bool" where
  "same_checks n0 n \<longleftrightarrow> decryption_method n = decryption_method n0 \<and> password n = password n0
     \<and> max_packet_age n = max_packet_age n0 \<and> max_packet_age_enabled n = max_packet_age_enabled n0"

lemma check_packet_cong:
  assumes "now n' = now n" "max_packet_age n' = max_packet_age n"
    "max_packet_age_enabled n' = max_packet_age_enabled n"
  shows "check_packet n' = check_packet n"
proof -
  have "packet_too_old n' = packet_too_old n" using assms by (simp add: packet_too_old_def fun_eq_iff)
  then show ?thesis by (simp only: check_packet_def fun_eq_iff) simp
qed

lemma timeless_accepted:
  assumes "timeless T n0 ds" "same_checks n0 n" "now n \<in> T"
  shows "accepted_prefix n ds = accepted_prefix n0 ds"
proof -
  have "check_packet n = check_packet (n0\<lparr>now := now n\<rparr>)"
    using assms(2) by (intro check_packet_cong) (simp_all add: same_checks_def)
  then have "accepted_prefix n ds = accepted_prefix (n0\<lparr>now := now n\<rparr>) ds"
    by (intro accepted_prefix_cong) simp
  with assms(1,3) show ?thesis by (simp add: timeless_def)
qed

lemma accepted_prefix_ConsE:
  assumes "accepted_prefix n ((plen, bs) # ds) = b # good"
  obtains "check_packet n plen bs = (Accepted, b)" "accepted_prefix n ds = good"
  using assms by (cases n plen bs rule: check_packet_cases) (auto split: verdict.splits)

lemma timeless_Cons:
  assumes "timeless T n0 ((plen, bs) # ds)" "accepted_prefix n0 ((plen, bs) # ds) = b # good"
  shows "timeless T n0 ds"
  unfolding timeless_def
proof
  fix t assume "t \<in> T"
  with assms have "accepted_prefix (n0\<lparr>now := t\<rparr>) ((plen, bs) # ds) = b # good" by (simp add: timeless_def)
  with assms(2) show "accepted_prefix (n0\<lparr>now := t\<rparr>) ds = accepted_prefix n0 ds"
    by (metis accepted_prefix_ConsE)
qed

text \<open>
  One round, in terms of the decrypted packet \<open>bs\<close>: \<open>c1\<close> is the client and \<open>CIp1\<close> the instance after the
  decryption.
\<close>

definition round_spec ::
    "send_env \<Rightarrow> nat \<Rightarrow> data_packet_pair \<Rightarrow> byte list \<Rightarrow> 'td crypt_instance option \<Rightarrow> 'td proc_state \<Rightarrow>
     data_packet_pair list \<times> 'td crypt_instance option \<times> 'td proc_state" where
  "round_spec e tid p bs CIp1 = (\<lambda>(n, c1, w).
     (case check_packet n (packet_length p) bs of
        (Accepted, bs1) \<Rightarrow>
          let (n', ok, w') = send_result e tid (packet_check bs1) n w in ([], CIp1, (n', tally ok c1, w'))
      | (_, bs1) \<Rightarrow> ([p\<lparr>receive_packet := bs1\<rparr>], CIp1, (n, count_failed c1, w))))"

lemma queue_round_mcrypt:
  assumes "1 < decryption_method n" "fifos_ok tid n" "td ci = Some t" "IV ci = Some iv"
    and d: "crypt_bytes (mdecrypt_generic lib) (loop_cipher lib i t iv ci c)
      (take sizeof_data_packet (receive_packet p)) = (d, t2)"
    and bs: "bs = d @ drop sizeof_data_packet (receive_packet p)"
  shows "queue_round lib e tid i p (Some ci) (n, c, w)
    = Some (round_spec e tid p bs (Some (ci\<lparr>td := Some t2\<rparr>)) (n, save_mcrypt_state lib t2 c, w))"
proof -
  have m: "decryption_method n \<noteq> ENCRYPT_NONE" "decryption_method n \<noteq> ENCRYPT_XOR"
    using assms(1) by (simp_all add: nsca_consts)
  note round = mcrypt_loop_round [OF m assms(3,4) d bs, of "\<lambda>_. e" tid "[]" w]
  show ?thesis
  proof (cases n "packet_length p" bs rule: check_packet_cases)
    case (ok bs1)
    with assms(1) show ?thesis
      by (simp add: queue_round_def queue_loop_def round_spec_def round send_receive_message_result [OF assms(2)]
          case_prod_beta Let_def del: mcrypt_loop.simps(2))
  next
    case (bad v bs1)
    with assms(1) show ?thesis
      by (cases v) (simp_all add: queue_round_def queue_loop_def round_spec_def round del: mcrypt_loop.simps(2))
  qed
qed

lemma queue_round_plain:
  assumes "decryption_method n = ENCRYPT_NONE \<or> decryption_method n = ENCRYPT_XOR" "fifos_ok tid n"
  shows "queue_round lib e tid i p CIp (n, c, w)
    = Some (round_spec e tid p (plain_decode (password n) (decryption_method n) CIp (receive_packet p)) CIp (n, c, w))"
proof -
  let ?bs = "plain_decode (password n) (decryption_method n) CIp (receive_packet p)"
  have m: "\<not> 1 < decryption_method n" using assms(1) by (auto simp: nsca_consts)
  note dec = decrypt_buffer_plain [OF assms(1), of lib "receive_packet p" "password n" CIp]
  show ?thesis
  proof (cases n "packet_length p" ?bs rule: check_packet_cases)
    case (ok bs1)
    with m dec show ?thesis
      by (simp add: queue_round_def queue_loop_def round_spec_def send_receive_message_result [OF assms(2)]
          case_prod_beta Let_def)
  next
    case (bad v bs1)
    with m dec show ?thesis by (cases v) (simp_all add: queue_round_def queue_loop_def round_spec_def)
  qed
qed

lemma queue_round_result:
  assumes "cipher_ready n CIp" "fifos_ok tid n" "0 < i"
    and law: "\<And>t. mcrypt_enc_set_state lib t (mcrypt_enc_get_state lib t) = t"
  obtains bs CIp1 c1 where "d_success c1 = d_success c" "d_failed c1 = d_failed c" "cipher_ready n CIp1"
    and "\<And>ok. runner_decoded lib n \<lparr>rn_phase = Round i, rn_left = p # ps, rn_CI = CIp, rn_client = c\<rparr>
      = (packet_length p, bs)
        # runner_decoded lib n \<lparr>rn_phase = Round (i + 1), rn_left = ps, rn_CI = CIp1, rn_client = tally ok c1\<rparr>"
    and "queue_round lib e tid i p CIp (n, c, w) = Some (round_spec e tid p bs CIp1 (n, c1, w))"
proof (cases "1 < decryption_method n")
  case True
  with assms(1) obtain ci t iv where ci: "CIp = Some ci" "td ci = Some t" "IV ci = Some iv"
    by (auto simp: cipher_ready_def)
  obtain d t2 where d: "crypt_bytes (mdecrypt_generic lib) (loop_cipher lib i t iv ci c)
      (take sizeof_data_packet (receive_packet p)) = (d, t2)" by fastforce
  have next': "loop_cipher lib (i + 1) t2 iv (ci\<lparr>td := Some t2\<rparr>) (tally ok (save_mcrypt_state lib t2 c)) = t2" for ok
    using assms(3) law by (simp add: loop_cipher_def)
  from queue_round_mcrypt [OF True assms(2) ci(2,3) d refl, of e w] True ci d next' assms(1) show thesis
    by (intro that [of "save_mcrypt_state lib t2 c" "Some (ci\<lparr>td := Some t2\<rparr>)"
          "d @ drop sizeof_data_packet (receive_packet p)"])
      (simp_all add: runner_decoded_def cipher_ready_def)
next
  case False
  with assms(1) have m: "decryption_method n = ENCRYPT_NONE \<or> decryption_method n = ENCRYPT_XOR"
    by (auto simp: cipher_ready_def nsca_consts)
  from queue_round_plain [OF m assms(2), of lib e i p CIp c w] False assms(1) show thesis
    by (intro that) (simp_all add: runner_decoded_def decoded_plain_def)
qed

section \<open>The threads implement the specification\<close>

text \<open>\<open>n0\<close> is the \<open>network\<close> at the start; a runner in the loop can decrypt, and its packets stay fresh.\<close>

definition runner_ok :: "'td mcrypt \<Rightarrow> int set \<Rightarrow> 'td network \<Rightarrow> 'td runner \<Rightarrow> bool" where
  "runner_ok lib T n0 r \<longleftrightarrow>
     (\<forall>i. rn_phase r = Round i \<longrightarrow>
        0 < i \<and> cipher_ready n0 (rn_CI r) \<and> timeless T n0 (runner_decoded lib n0 r))"

definition runners_inv :: "'td mcrypt \<Rightarrow> int set \<Rightarrow> 'td network \<Rightarrow> 'td runners \<Rightarrow> bool" where
  "runners_inv lib T n0 = (\<lambda>(rs, n, w). now n \<in> T \<and> same_checks n0 n
     \<and> (\<forall>k < length rs. fifos_ok k n) \<and> list_all (runner_ok lib T n0) rs)"

lemma same_checksD:
  assumes "same_checks n0 n"
  shows "runner_decoded lib n r = runner_decoded lib n0 r" "cipher_ready n CIp = cipher_ready n0 CIp"
  using assms by (simp_all add: same_checks_def runner_decoded_def cipher_ready_def split: phase.split)

lemma runner_todo_simps [simp]:
  "rn_phase r = Round i \<Longrightarrow> rn_left r = [] \<Longrightarrow> runner_todo lib n r = ([], False, d_success (rn_client r), d_failed (rn_client r))"
  "(\<forall>i. rn_phase r \<noteq> Round i) \<Longrightarrow> runner_todo lib n r = ([], False, d_success (rn_client r), d_failed (rn_client r))"
  by (auto simp: runner_todo_def todo_of_def runner_decoded_def decoded_plain_def split: option.split phase.split)

lemma todo_of_accepted:
  assumes "accepted_prefix n ((plen, bs) # ds) = b # accepted_prefix n ds"
  shows "todo_of n ((plen, bs) # ds) gb = (packet_check b # fst (todo_of n ds gb), snd (todo_of n ds gb))"
  using assms by (simp add: todo_of_def Let_def)

lemma send_result_fifos_others:
  assumes "fifos_ok tid n" "fifos_ok k n" "send_result e tid chk n w = (n', ok, w')"
  shows "fifos_ok k n'"
  using send_result_fifos_ok [OF assms(1,3)] send_result_length [OF assms(3)] assms(2)
  by (cases "fifoClients n"; cases "fifoClients n'") (auto simp: fifos_ok_def)

lemma send_result_same_checks:
  assumes "send_result e tid chk n w = (n', ok, w')" "same_checks n0 n"
  shows "same_checks n0 n'" "now n' = now n"
proof -
  have n': "n' = n\<lparr>fifoClients := fifoClients n'\<rparr>" by (rule send_result_keeps [OF assms(1)])
  show "same_checks n0 n'" using assms(2) by (subst n') (simp add: same_checks_def)
  show "now n' = now n" by (subst n') simp
qed

lemma round_accepted:
  assumes "timeless T n0 ((plen, bs) # ds)" "same_checks n0 n" "now n \<in> T"
    and "check_packet n plen bs = (Accepted, b)"
  shows "accepted_prefix n0 ((plen, bs) # ds) = b # accepted_prefix n0 ds" "timeless T n0 ds"
proof -
  have "accepted_prefix n0 ((plen, bs) # ds) = b # accepted_prefix n ds"
    using timeless_accepted [OF assms(1-3)] assms(4) by simp
  then show a: "accepted_prefix n0 ((plen, bs) # ds) = b # accepted_prefix n0 ds"
    by (metis accepted_prefix_ConsE)
  show "timeless T n0 ds" by (rule timeless_Cons [OF assms(1) a])
qed

lemma round_rejected:
  assumes "timeless T n0 ((plen, bs) # ds)" "same_checks n0 n" "now n \<in> T"
    and "check_packet n plen bs = (v, b)" "v \<noteq> Accepted"
  shows "accepted_prefix n0 ((plen, bs) # ds) = []"
  using timeless_accepted [OF assms(1-3)] assms(4,5) by (cases v) simp_all

lemma round_simulation:
  assumes step: "runner_step lib e k (r, n, w) = Some (r', n', w')" and r: "rn_phase r = Round i" "rn_left r = p # ps"
    and ok: "runner_ok lib T n0 r" and n: "same_checks n0 n" "now n \<in> T" "fifos_ok k n"
    and ts: "k < length ts" "ts ! k = runner_todo lib n0 r"
    and law: "\<And>t. mcrypt_enc_set_state lib t (mcrypt_enc_get_state lib t) = t"
  shows "runner_ok lib T n0 r' \<and> same_checks n0 n' \<and> now n' = now n \<and> (\<forall>j. fifos_ok j n \<longrightarrow> fifos_ok j n')
    \<and> deliveries_step T (ts, n, w) (ts[k := runner_todo lib n0 r'], n', w')"
proof -
  have r_eq: "r = \<lparr>rn_phase = Round i, rn_left = p # ps, rn_CI = rn_CI r, rn_client = rn_client r\<rparr>"
    using r by (cases r) simp
  have ready: "cipher_ready n (rn_CI r)" "0 < i" using ok r same_checksD(2) [OF n(1)] by (auto simp: runner_ok_def)
  obtain bs CIp1 c1 where c1: "d_success c1 = d_success (rn_client r)" "d_failed c1 = d_failed (rn_client r)"
      "cipher_ready n CIp1"
    and dec: "\<And>b. runner_decoded lib n r = (packet_length p, bs)
      # runner_decoded lib n \<lparr>rn_phase = Round (i + 1), rn_left = ps, rn_CI = CIp1, rn_client = tally b c1\<rparr>"
    and round: "queue_round lib e k i p (rn_CI r) (n, rn_client r, w) = Some (round_spec e k p bs CIp1 (n, c1, w))"
    by (rule queue_round_result [OF ready(1) n(3) ready(2) law, of "rn_client r" p ps e w, folded r_eq]) (rule that)
  note dec = dec [unfolded same_checksD(1) [OF n(1)]]
  obtain ds where ds: "runner_decoded lib n0 r = (packet_length p, bs) # ds" using dec by blast
  have fresh: "timeless T n0 ((packet_length p, bs) # ds)" using ok r(1) ds by (simp add: runner_ok_def)
  show ?thesis
  proof (cases n "packet_length p" bs rule: check_packet_cases)
    case (ok b)
    note acc = round_accepted [OF fresh n(1,2) ok]
    obtain n1 good w1 where s: "send_result e k (packet_check b) n w = (n1, good, w1)" by (metis prod_cases3)
    with step r round ok have r': "r' = \<lparr>rn_phase = Round (i + 1), rn_left = ps, rn_CI = CIp1, rn_client = tally good c1\<rparr>"
        "n' = n1" "w' = w1" by (simp_all add: runner_step_def round_spec_def)
    have ds': "runner_decoded lib n0 r' = ds" using dec [of good] ds r'(1) by simp
    have "ts ! k = (packet_check b # fst (todo_of n0 ds (d_success c1, d_failed c1)), length (accepted_prefix n0 ds) < length ds,
        d_success c1, d_failed c1)"
      using ts(2) ds c1 todo_of_accepted [OF acc(1), of "(d_success c1, d_failed c1)"]
      by (simp add: runner_todo_def) (simp add: todo_of_def Let_def)
    from deliveries_step.deliver [OF ts(1) this s, of T]
    have "deliveries_step T (ts, n, w) (ts[k := runner_todo lib n0 r'], n', w')"
      using r' ds' by (cases good) (simp_all add: runner_todo_def todo_of_def Let_def)
    moreover have "runner_ok lib T n0 r'"
      using acc(2) ds' c1(3) same_checksD(2) [OF n(1)] r'(1) by (simp add: runner_ok_def)
    ultimately show ?thesis
      using send_result_same_checks [OF s n(1)] send_result_fifos_others [OF n(3) _ s] r' by simp
  next
    case (bad v b)
    from step r round bad have r': "rn_phase r' = Load_success" "rn_client r' = count_failed c1" "n' = n" "w' = w"
      by (cases v; auto simp: runner_step_def round_spec_def)+
    have "ts ! k = ([], True, d_success c1, d_failed c1)"
      using ts(2) ds c1 round_rejected [OF fresh n(1,2) bad] by (simp add: runner_todo_def todo_of_def)
    from deliveries_step.refuse [OF ts(1) this, of T n w]
    have "deliveries_step T (ts, n, w) (ts[k := runner_todo lib n0 r'], n', w')"
      using r' by (simp add: count_failed_def)
    with r' n(1) show ?thesis by (simp add: runner_ok_def)
  qed
qed

text \<open>The other steps of a runner: the end of the loop, and the loads and stores of the report.\<close>

lemma runner_step_report:
  assumes "runner_step lib e k (r, n, w) = Some (r', n', w')"
    and "\<forall>i p ps. rn_phase r = Round i \<longrightarrow> rn_left r \<noteq> p # ps"
  shows "rn_client r' = rn_client r \<and> (\<forall>i. rn_phase r' \<noteq> Round i) \<and> w' = w
    \<and> n' = n\<lparr>message_success := message_success n', message_failed := message_failed n'\<rparr>"
proof (cases "rn_phase r")
  case (Round i)
  with assms show ?thesis by (cases "rn_left r") (auto simp: runner_step_def)
qed (use assms(1) in \<open>auto simp: runner_step_def split: if_splits\<close>)

lemma report_simulation:
  assumes "runner_step lib e k (r, n, w) = Some (r', n', w')"
    and "\<forall>i p ps. rn_phase r = Round i \<longrightarrow> rn_left r \<noteq> p # ps"
    and "same_checks n0 n" "ts ! k = runner_todo lib n0 r"
  shows "runner_ok lib T n0 r' \<and> same_checks n0 n' \<and> now n' = now n \<and> (\<forall>j. fifos_ok j n \<longrightarrow> fifos_ok j n')
    \<and> ts ! k = runner_todo lib n0 r' \<and> deliveries_step T (ts, n, w) (ts, n', w')"
proof -
  note r' = runner_step_report [OF assms(1,2)]
  then have n': "n' = n\<lparr>message_success := message_success n', message_failed := message_failed n'\<rparr>" "w' = w" by simp_all
  have n'': "same_checks n0 n'" "now n' = now n" "fifos_ok j n' = fifos_ok j n" for j
    using assms(3) by (subst n'(1), simp add: same_checks_def fifos_ok_def)+
  have "runner_todo lib n0 r = ([], False, d_success (rn_client r), d_failed (rn_client r))"
  proof (cases "\<exists>i. rn_phase r = Round i")
    case True
    with assms(2) show ?thesis by (cases "rn_left r") auto
  qed simp
  with r' assms(4) have "ts ! k = runner_todo lib n0 r'" by simp
  moreover have "runner_ok lib T n0 r'" using r' by (simp add: runner_ok_def)
  moreover have "deliveries_step T (ts, n, w) (ts, n', w')"
    using deliveries_step.count [of T ts n w] n' by metis
  ultimately show ?thesis using n'' by simp
qed

lemma runner_simulation:
  assumes "runner_step lib e k (r, n, w) = Some (r', n', w')"
    and "runner_ok lib T n0 r" "same_checks n0 n" "now n \<in> T" "fifos_ok k n"
    and "k < length ts" "ts ! k = runner_todo lib n0 r"
    and law: "\<And>t. mcrypt_enc_set_state lib t (mcrypt_enc_get_state lib t) = t"
  shows "runner_ok lib T n0 r' \<and> same_checks n0 n' \<and> now n' = now n \<and> (\<forall>j. fifos_ok j n \<longrightarrow> fifos_ok j n')
    \<and> deliveries_step T (ts, n, w) (ts[k := runner_todo lib n0 r'], n', w')"
proof (cases "\<exists>i p ps. rn_phase r = Round i \<and> rn_left r = p # ps")
  case True
  with round_simulation [OF assms(1) _ _ assms(2-7) law] show ?thesis by blast
next
  case False
  from report_simulation [OF assms(1) _ assms(3,7), of T] False show ?thesis
    by (metis list_update_id)
qed

lemma runners_simulation:
  assumes "runners_step lib T s s'" "runners_inv lib T n0 s"
    and law: "\<And>t. mcrypt_enc_set_state lib t (mcrypt_enc_get_state lib t) = t"
  shows "runners_inv lib T n0 s' \<and>
    deliveries_step T (map (runner_todo lib n0) (fst s), snd s) (map (runner_todo lib n0) (fst s'), snd s')"
  using assms(1)
proof (cases rule: runners_stepE [consumes 1, case_names advance other])
  case (advance k rs e n w r n' w')
  have inv: "now n \<in> T" "same_checks n0 n" "\<forall>j < length rs. fifos_ok j n" "list_all (runner_ok lib T n0) rs"
    using assms(2) advance(1) by (simp_all add: runners_inv_def)
  have ok: "runner_ok lib T n0 (rs ! k)" using inv(4) advance(3) by (simp add: list_all_length)
  have k: "k < length (map (runner_todo lib n0) rs)" "map (runner_todo lib n0) rs ! k = runner_todo lib n0 (rs ! k)"
    using advance(3) by simp_all
  from runner_simulation [OF advance(5) ok inv(2,1) _ k law] inv(3) advance(3)
  have "runner_ok lib T n0 r \<and> same_checks n0 n' \<and> now n' = now n \<and> (\<forall>j. fifos_ok j n \<longrightarrow> fifos_ok j n')
    \<and> deliveries_step T (map (runner_todo lib n0) rs, n, w) ((map (runner_todo lib n0) rs)[k := runner_todo lib n0 r], n', w')"
    by blast
  with inv advance(1,2) show ?thesis by (simp add: runners_inv_def list_all_update map_update)
next
  case (other n w n' w' rs)
  from other(3) have "statics n' = statics n" "now n' \<in> T" by (simp_all add: elsewhere_def)
  with assms(2) other(1,2) statics_eqD [of n' n] deliveries_step.other [OF other(3)] show ?thesis
    by (simp add: runners_inv_def same_checks_def fifos_ok_def)
qed

lemma runners_reach_deliver:
  assumes "runners_reach lib T s s'" "runners_inv lib T n0 s"
    and law: "\<And>t. mcrypt_enc_set_state lib t (mcrypt_enc_get_state lib t) = t"
  shows "runners_inv lib T n0 s' \<and> length (fst s') = length (fst s) \<and>
    deliveries_reach T (map (runner_todo lib n0) (fst s), snd s) (map (runner_todo lib n0) (fst s'), snd s')"
  using assms(1)
proof (induction rule: runners_reach.induct)
  case start
  then show ?case using assms(2) by (auto intro: deliveries_reach.start)
next
  case (step s' s'')
  have "length (fst s'') = length (fst s')"
    using step.hyps(2) by (cases rule: runners_step.cases) simp_all
  with step.IH runners_simulation [OF step.hyps(2) _ law] show ?case
    by (auto intro: deliveries_reach.step)
qed

text \<open>A runner that has not finished can go on, whatever the system answers.\<close>

lemma runner_defined:
  assumes "runners_inv lib T n0 (rs, n, w)" "k < length rs"
    and law: "\<And>t. mcrypt_enc_set_state lib t (mcrypt_enc_get_state lib t) = t"
  shows "runner_step lib e k (rs ! k, n, w) \<noteq> None"
proof (cases "\<exists>i p ps. rn_phase (rs ! k) = Round i \<and> rn_left (rs ! k) = p # ps")
  case True
  then obtain i p ps where r: "rn_phase (rs ! k) = Round i" "rn_left (rs ! k) = p # ps" by blast
  have inv: "same_checks n0 n" "fifos_ok k n" "runner_ok lib T n0 (rs ! k)"
    using assms(1,2) by (simp_all add: runners_inv_def list_all_length)
  have i: "0 < i" and ready: "cipher_ready n (rn_CI (rs ! k))"
    using inv(3) r(1) same_checksD(2) [OF inv(1)] by (simp_all add: runner_ok_def)
  have "queue_round lib e k i p (rn_CI (rs ! k)) (n, rn_client (rs ! k), w) \<noteq> None"
    by (rule queue_round_result [OF ready inv(2) i law, of "rn_client (rs ! k)" p ps e w]) simp
  with r show ?thesis by (auto simp: runner_step_def split: option.splits prod.splits)
next
  case False
  then show ?thesis by (auto simp: runner_step_def split: phase.split list.split)
qed

section \<open>In a worker\<close>

text \<open>What the callbacks of the event loop do while the threads are at work is allowed by \<open>elsewhere\<close>.\<close>

lemma pipe_timer: "timer_proxy e f t ct n w = (n', w') \<Longrightarrow> pipe w' = pipe w"
  by (auto simp: timer_proxy_def timer_tick_def save_statistics_def save_stats_def open_trunc_def Let_def
      case_prod_beta split: if_splits option.splits)

lemma callback_elsewhere:
  assumes "worker_step lib e e'" "handed e = []" "net_ok lib (net e)" "list_all (conn_ok (net e)) (conns e)"
    and "now (net e') \<in> T"
  shows "elsewhere T (net e, w_world e) (net e', w_world e')"
proof -
  have "pipe (w_world e') = pipe (w_world e)"
    using assms(1)
  proof (cases rule: worker_stepE
      [consumes 1, case_names accept accept_fails recv recv_refused send close process timer sigint])
    case (timer t f tn ct n w)
    from pipe_timer [OF timer(3)] timer(1) show ?thesis by simp
  qed (use assms(2) in simp_all)
  with callback_inv [OF assms(1-4)] assms(5) show ?thesis by (simp add: elsewhere_def)
qed

text \<open>A thread of the pool as a runner, and what it has to do.\<close>

definition thread_runner ::
    "'td network \<Rightarrow> 'td job crypt_thread \<times> 'td crypt_instance option \<Rightarrow> 'td runner option" where
  "thread_runner n = (\<lambda>(t, CIp).
     (case tpc t of
        T_run j \<Rightarrow> queue_begin True n (job_instance CIp (networkClient j)) (set_CI CI_thread (networkClient j))
      | _ \<Rightarrow> Some \<lparr>rn_phase = Reported, rn_left = [], rn_CI = CIp, rn_client = new_network_client\<rparr>))"

definition thread_decoded ::
    "'td mcrypt \<Rightarrow> 'td network \<Rightarrow> 'td job crypt_thread \<times> 'td crypt_instance option \<Rightarrow> (nat \<times> byte list) list" where
  "thread_decoded lib n = (\<lambda>(t, CIp).
     (case tpc t of
        T_run j \<Rightarrow> queue_decoded lib n (job_instance CIp (networkClient j)) (data_packets (networkClient j))
      | _ \<Rightarrow> []))"

lemma queue_begin_decoded:
  assumes "cipher_ready n CIp" "d_success c = 0" "d_failed c = 0"
  obtains r where "queue_begin True n CIp c = Some r" "rn_phase r = Round 1" "cipher_ready n (rn_CI r)"
    "runner_decoded lib n r = queue_decoded lib n CIp (data_packets c)" "d_success (rn_client r) = 0"
    "d_failed (rn_client r) = 0"
proof (cases "1 < decryption_method n")
  case True
  with assms(1) obtain ci t iv where "CIp = Some ci" "td ci = Some t" "IV ci = Some iv"
    by (auto simp: cipher_ready_def)
  with True assms show thesis
    by (intro that)
      (auto simp: queue_begin_def Let_def runner_decoded_def queue_decoded_def loop_cipher_def cipher_ready_def)
next
  case False
  with assms show thesis
    by (intro that) (auto simp: queue_begin_def Let_def runner_decoded_def queue_decoded_def cipher_ready_def)
qed

lemma thread_runner_ok:
  assumes "thread_ok lib n tc" "0 \<le> decryption_method n" "timeless T n (thread_decoded lib n tc)"
  shows "\<exists>r. thread_runner n tc = Some r \<and> runner_ok lib T n r
    \<and> runner_todo lib n r = todo_of n (thread_decoded lib n tc) (0, 0)
    \<and> (rn_phase r = (case tpc (fst tc) of T_run j \<Rightarrow> Round 1 | _ \<Rightarrow> Reported))"
proof -
  obtain t CIp where tc: "tc = (t, CIp)" by (cases tc)
  show ?thesis
  proof (cases "\<exists>j. tpc t = T_run j")
    case True
    then obtain j where t: "tpc t = T_run j" by blast
    have ok: "thread_ok lib n (t, CIp)" using assms(1) tc by simp
    have j: "job_ok lib n j" by (rule running_job_ok [OF ok t])
    then have c: "d_success (set_CI CI_thread (networkClient j)) = 0" "d_failed (set_CI CI_thread (networkClient j)) = 0"
      by (simp_all add: job_ok_def client_ok_def set_CI_def)
    have "cipher_ready n (job_instance CIp (networkClient j))"
      using job_instance_cipher [OF ok j] assms(2) cipher_of_ready by blast
    from queue_begin_decoded [OF this c, of lib] obtain r where
        "queue_begin True n (job_instance CIp (networkClient j)) (set_CI CI_thread (networkClient j)) = Some r"
        "rn_phase r = Round 1" "cipher_ready n (rn_CI r)" "d_success (rn_client r) = 0" "d_failed (rn_client r) = 0"
        "runner_decoded lib n r = queue_decoded lib n (job_instance CIp (networkClient j))
          (data_packets (set_CI CI_thread (networkClient j)))" by metis
    with t tc assms(3) show ?thesis
      by (intro exI [of _ r]) (simp add: thread_runner_def thread_decoded_def runner_ok_def runner_todo_def set_CI_def)
  next
    case False
    then show ?thesis
      by (cases "tpc t")
        (auto simp: tc thread_runner_def thread_decoded_def runner_ok_def todo_of_def new_network_client_def)
  qed
qed

lemma map_Some_exists: "(\<And>x. x \<in> set xs \<Longrightarrow> \<exists>y. f x = Some y \<and> P x y) \<Longrightarrow>
  \<exists>ys. map f xs = map Some ys \<and> list_all2 P xs ys"
proof (induction xs)
  case Nil
  then show ?case by simp
next
  case (Cons x xs)
  from Cons.prems [of x] obtain y where "f x = Some y" "P x y" by auto
  moreover from Cons obtain ys where "map f xs = map Some ys" "list_all2 P xs ys" by force
  ultimately show ?case by (intro exI [of _ "y # ys"]) simp
qed

text \<open>Every check and every rejection is counted exactly once.\<close>

fun todo_weight :: "todo \<Rightarrow> int" where
  "todo_weight (chks, stop, g, b) = int (length chks) + (if stop then 1 else 0) + g + b"

lemma deliveries_weight:
  "deliveries_reach T s s' \<Longrightarrow> map todo_weight (fst s') = map todo_weight (fst s)"
proof (induction rule: deliveries_reach.induct)
  case start
  then show ?case by simp
next
  case (step s' s'')
  from step.hyps(2) have "map todo_weight (fst s'') = map todo_weight (fst s')"
    by (cases rule: deliveries_step.cases) (auto simp: map_update list_update_same_conv)
  with step.IH show ?case by simp
qed

lemma runners_start:
  assumes "system_inv lib s" "crypt_threads (pool s) = Some tcs" "now (net (event_loop s)) \<in> T"
    and "\<forall>tc \<in> set tcs. timeless T (net (event_loop s)) (thread_decoded lib (net (event_loop s)) tc)"
  obtains rs where "map (thread_runner (net (event_loop s))) tcs = map Some rs"
    "runners_inv lib T (net (event_loop s)) (rs, net (event_loop s), w)"
    "map (runner_todo lib (net (event_loop s))) rs
      = map (\<lambda>tc. todo_of (net (event_loop s)) (thread_decoded lib (net (event_loop s)) tc) (0, 0)) tcs"
proof -
  let ?n = "net (event_loop s)"
  have inv: "net_ok lib ?n" "pool_ok lib ?n (pool s)" using assms(1) by (simp_all add: system_inv_def Let_def)
  have "thread_ok lib ?n tc" if "tc \<in> set tcs" for tc
    using inv(2) assms(2) that by (auto simp: pool_ok_def list_all_iff)
  then have "\<exists>r. thread_runner ?n tc = Some r \<and> (runner_ok lib T ?n r
      \<and> runner_todo lib ?n r = todo_of ?n (thread_decoded lib ?n tc) (0, 0))" if "tc \<in> set tcs" for tc
    using thread_runner_ok [of lib ?n tc T] that assms(4) inv(1) by (fastforce simp: net_ok_def)
  from map_Some_exists [of tcs "thread_runner ?n", OF this] obtain rs where rs: "map (thread_runner ?n) tcs = map Some rs"
      "list_all2 (\<lambda>tc r. runner_ok lib T ?n r \<and> runner_todo lib ?n r = todo_of ?n (thread_decoded lib ?n tc) (0, 0)) tcs rs"
    by blast
  have len: "length rs = length tcs" using rs(2) by (simp add: list_all2_lengthD)
  have "fifos_ok k ?n" if "k < length rs" for k
    using that len thread_fifos [OF inv(2,1), of k "tcs ! k"] assms(2) by (simp add: thread_at_def)
  then have "runners_inv lib T ?n (rs, ?n, w)"
    using assms(3) rs(2) len
    by (auto simp: runners_inv_def same_checks_def list_all_length list_all2_conv_all_nth)
  moreover have "map (runner_todo lib ?n) rs = map (\<lambda>tc. todo_of ?n (thread_decoded lib ?n tc) (0, 0)) tcs"
    using rs(2) len by (auto simp: list_all2_conv_all_nth intro: nth_equalityI)
  ultimately show thesis using that rs(1) by blast
qed

section \<open>Properties\<close>

text \<open>C8: Threads that process their queues at the same time, packet by packet and in any interleaving with each
  other and with the event loop, never run into undefined behaviour, and what they do is a sequence of
  single deliveries in which each thread delivers the accepted checks of its client in order, as long as
  no packet gets too old meanwhile; at the end each check and each rejection has been counted once.\<close>

theorem threads_deliver_in_parallel:
  assumes "system_reach lib tmem cfg s" "started_ok lib tmem cfg"
    and "\<And>t. mcrypt_enc_set_state lib t (mcrypt_enc_get_state lib t) = t"
    and "event_loop s = e" "net e = n0" "crypt_threads (pool s) = Some tcs" "now n0 \<in> T"
    and "\<forall>tc \<in> set tcs. timeless T n0 (thread_decoded lib n0 tc)"
  shows "\<exists>rs0. map (thread_runner n0) tcs = map Some rs0
    \<and> (\<forall>rs n w. runners_reach lib T (rs0, n0, w_world e) (rs, n, w) \<longrightarrow>
         deliveries_reach T (map (\<lambda>tc. todo_of n0 (thread_decoded lib n0 tc) (0, 0)) tcs, n0, w_world e)
           (map (runner_todo lib n0) rs, n, w)
         \<and> (\<forall>k < length tcs. (\<forall>env. runner_step lib env k (rs ! k, n, w) \<noteq> None)
             \<and> (rn_phase (rs ! k) = Reported \<longrightarrow>
                  d_success (rn_client (rs ! k)) + d_failed (rn_client (rs ! k))
                    = todo_weight (todo_of n0 (thread_decoded lib n0 (tcs ! k)) (0, 0)))))"
proof -
  have inv: "system_inv lib s" by (rule system_reach_inv [OF assms(1,2)])
  obtain rs0 where rs0: "map (thread_runner n0) tcs = map Some rs0" "runners_inv lib T n0 (rs0, n0, w_world e)"
      "map (runner_todo lib n0) rs0 = map (\<lambda>tc. todo_of n0 (thread_decoded lib n0 tc) (0, 0)) tcs"
    using runners_start [OF inv assms(6), of T "w_world e"] assms(4,5,7,8) by metis
  have "deliveries_reach T (map (runner_todo lib n0) rs0, n0, w_world e) (map (runner_todo lib n0) rs, n, w)
      \<and> (\<forall>k < length tcs. (\<forall>env. runner_step lib env k (rs ! k, n, w) \<noteq> None)
         \<and> (rn_phase (rs ! k) = Reported \<longrightarrow> d_success (rn_client (rs ! k)) + d_failed (rn_client (rs ! k))
              = todo_weight (runner_todo lib n0 (rs0 ! k))))"
    if "runners_reach lib T (rs0, n0, w_world e) (rs, n, w)" for rs n w
  proof -
    have r: "runners_inv lib T n0 (rs, n, w)" "length rs = length rs0"
        "deliveries_reach T (map (runner_todo lib n0) rs0, n0, w_world e) (map (runner_todo lib n0) rs, n, w)"
      using runners_reach_deliver [OF that rs0(2) assms(3)] by simp_all
    have len: "length rs0 = length tcs" using arg_cong [OF rs0(1), of length] by simp
    have "todo_weight (runner_todo lib n0 (rs ! k)) = todo_weight (runner_todo lib n0 (rs0 ! k))" if "k < length tcs" for k
      using deliveries_weight [OF r(3), THEN arg_cong, of "\<lambda>xs. xs ! k"] that r(2) len by simp
    with r len runner_defined [OF r(1) _ assms(3)] show ?thesis by fastforce
  qed
  moreover have "runner_todo lib n0 (rs0 ! k) = todo_of n0 (thread_decoded lib n0 (tcs ! k)) (0, 0)" if "k < length tcs" for k
    using arg_cong [OF rs0(3), of "\<lambda>xs. xs ! k"] arg_cong [OF rs0(1), of length] that by simp
  ultimately show ?thesis using rs0(1,3) by (intro exI [of _ rs0]) simp
qed

text \<open>The step the system takes for a whole queue is one of these interleavings: \<open>process_queue\<close> is the loop of the
  thread from its first round to the last store of its report, with nothing in between.\<close>

theorem process_queue_in_steps:
  assumes "process_queue lib alloc env k CIp (n, c, w) = Some (CIp', n', c', w')" "k < length rs"
  shows "\<exists>r r'. queue_begin alloc n CIp c = Some r \<and> runners_reach lib T (rs[k := r], n, w) (rs[k := r'], n', w')
    \<and> rn_phase r' = Reported \<and> rn_CI r' = CIp' \<and> c' = (rn_client r')\<lparr>data_packets := rn_left r'\<rparr>"
proof -
  from process_queue_alone [OF assms(1)] obtain r m r' where r: "queue_begin alloc n CIp c = Some r"
      "run_alone lib env k m (r, n, w) = Some (r', n', w')"
      "rn_phase r' = Reported" "rn_CI r' = CIp'" "c' = (rn_client r')\<lparr>data_packets := rn_left r'\<rparr>"
    by blast
  with run_alone_reach [OF r(2) assms(2) runners_reach.start] show ?thesis by blast
qed

lemma process_queue_in_steps_witness:
  "\<exists>r r' n' w'. queue_begin True (ex_network 0 :: byte network) None new_network_client = Some r
     \<and> runners_reach feedback_cipher {} ([r], ex_network 0, spool_world) ([r'], n', w')
     \<and> rn_phase r = Round 1 \<and> rn_phase r' = Reported"
proof -
  let ?n = "ex_network 0 :: byte network"
  have "process_queue feedback_cipher True ex_env 0 None (?n, new_network_client, spool_world)
      = Some (None, ?n, new_network_client, spool_world)"
    by (simp add: process_queue_def process_queue_nomcrypt_def ex_network_def new_network_client_def
        report_success_failed_def)
  from process_queue_in_steps [OF this, of "[undefined]" "{}"] obtain r r' where
      "queue_begin True ?n None new_network_client = Some r" "rn_phase r' = Reported"
      "runners_reach feedback_cipher {} ([r], ?n, spool_world) ([r'], ?n, spool_world)" by auto
  moreover from this(1) have "rn_phase r = Round 1" by (auto simp: queue_begin_def ex_network_def)
  ultimately show ?thesis by blast
qed

lemma threads_deliver_in_parallel_witness:
  "\<exists>(s :: byte system) r r' n w. system_reach feedback_cipher (\<lambda>_ _. True) ex_settings s
     \<and> rn_phase r = Round 1 \<and> length (rn_left r) = 1
     \<and> runners_reach feedback_cipher {now (net (event_loop s))}
         ([r], net (event_loop s), w_world (event_loop s)) ([r'], n, w)
     \<and> rn_phase r' = Reported \<and> d_success (rn_client r') + d_failed (rn_client r') = 1"
proof -
  let ?bs = "replicate sizeof_data_packet 0 :: byte list"
  obtain s :: "byte system" and CIp c t where s: "system_reach feedback_cipher (\<lambda>_ _. True) ex_settings s"
    "crypt_threads (pool s) = Some [(t, CIp)]" "tpc t = T_run (decrypt_job c)" "data_packets c = as_queue [?bs]"
    "decryption_method (net (event_loop s)) = 0"
    by (rule ex_system_running [OF length_replicate])
  let ?n = "net (event_loop s)" and ?w = "w_world (event_loop s)"
  let ?CI = "job_instance CIp c" and ?c = "set_CI CI_thread c"
  have n: "?n\<lparr>now := now ?n\<rparr> = ?n" by simp
  have "\<forall>tc \<in> set [(t, CIp)]. timeless {now ?n} ?n (thread_decoded feedback_cipher ?n tc)"
    by (simp only: timeless_def n) simp
  from threads_deliver_in_parallel [OF s(1) ex_settings_started feedback_state_law refl refl s(2), of "{now ?n}", OF _ this]
  obtain rs0 where rs0: "map (thread_runner ?n) [(t, CIp)] = map Some rs0"
    and all: "\<And>rs n w. runners_reach feedback_cipher {now ?n} (rs0, ?n, ?w) (rs, n, w) \<Longrightarrow>
      rn_phase (rs ! 0) = Reported \<Longrightarrow> d_success (rn_client (rs ! 0)) + d_failed (rn_client (rs ! 0))
        = todo_weight (todo_of ?n (thread_decoded feedback_cipher ?n (t, CIp)) (0, 0))"
    by fastforce
  from rs0 obtain r where r: "rs0 = [r]" "queue_begin True ?n ?CI ?c = Some r"
    using s(3) by (auto simp: thread_runner_def decrypt_job_def)
  have pool: "pool_ok feedback_cipher ?n (pool s)" "net_ok feedback_cipher ?n"
    using system_reach_inv [OF s(1) ex_settings_started] by (simp_all add: system_inv_def Let_def)
  have at: "thread_at (pool s) 0 = Some (t, CIp)" using s(2) by (simp add: thread_at_def)
  have "cipher_ready ?n ?CI" using s(5) by (simp add: cipher_ready_def)
  then obtain CIp' n' c' w' where "process_queue feedback_cipher True (\<lambda>_. undefined) 0 ?CI (?n, ?c, ?w) = Some (CIp', n', c', w')"
    using process_queue_defined [OF _ thread_fifos [OF pool at] feedback_state_law] by metis
  from process_queue_alone [OF this] r(2) obtain m r' where
      "run_alone feedback_cipher (\<lambda>_. undefined) 0 m (r, ?n, ?w) = Some (r', n', w')" and r': "rn_phase r' = Reported"
    by auto
  from run_alone_reach [OF this(1), of "[r]" "{now ?n}" "([r], ?n, ?w)"]
  have reach: "runners_reach feedback_cipher {now ?n} ([r], ?n, ?w) ([r'], n', w')"
    by (simp add: runners_reach.start)
  have "thread_decoded feedback_cipher ?n (t, CIp) = [(sizeof_data_packet, ?bs)]"
    using s(3-5) by (simp add: thread_decoded_def decrypt_job_def queue_decoded_def decoded_plain_def as_queue_def
        plain_decode_def nsca_consts split: option.split)
  then have "todo_weight (todo_of ?n (thread_decoded feedback_cipher ?n (t, CIp)) (0, 0)) = 1"
    by (simp add: todo_of_def check_packet_def be16_def nsca_consts)
  with all [of "[r']" n' w'] r(1) r' reach have "d_success (rn_client r') + d_failed (rn_client r') = 1" by simp
  moreover have "rn_phase r = Round 1" "length (rn_left r) = 1"
    using r(2) s(4,5) by (auto simp: queue_begin_def Let_def set_CI_def as_queue_def)
  ultimately show ?thesis using s(1) reach r' by blast
qed

end
