(* ===== verification/Nsca_Counters.thy ===== *)
theory Nsca_Counters
  imports Nsca_Parallel
begin

text \<open>
  The statistics of a worker with threads. \<open>report_success_failed\<close> adds to \<open>message_success\<close> with a
  load and a store and no lock, so that two reports at once can lose one; a comment in \<open>network.h\<close>
  accepts that (\<open>not threadsafe, and we dont care. only stats\<close>). What the counter shows is
  always the sum of some of the reports, never more than all of them together.
\<close>

section \<open>What the counter can show\<close>

lemma rn_counts_phase [simp]:
  "rn_success (r\<lparr>rn_phase := ph\<rparr>) = rn_success r" "rn_failed (r\<lparr>rn_phase := ph\<rparr>) = rn_failed r"
  by (simp_all add: rn_success_def rn_failed_def)

text \<open>The runners that have passed their store, or had nothing to add.\<close>

definition counted :: "'td runner \<Rightarrow> bool" where
  "counted r \<longleftrightarrow> (case rn_phase r of Load_failed \<Rightarrow> True | Add_failed v \<Rightarrow> True | Reported \<Rightarrow> True | _ \<Rightarrow> False)"

definition report_sum :: "'td runner list \<Rightarrow> nat set \<Rightarrow> u64" where
  "report_sum rs S = (\<Sum>k \<in> S. ucast (rn_success (rs ! k)))"

text \<open>A value of the counter that is the sum of reports of some of the runners that have counted.\<close>

definition partial_sum :: "u64 \<Rightarrow> 'td runner list \<Rightarrow> u64 \<Rightarrow> bool" where
  "partial_sum m0 rs x \<longleftrightarrow> (\<exists>S \<subseteq> {k. k < length rs \<and> counted (rs ! k)}. x = m0 + report_sum rs S)"

definition counts_inv :: "u64 \<Rightarrow> 'td runners \<Rightarrow> bool" where
  "counts_inv m0 = (\<lambda>(rs, n, w). partial_sum m0 rs (message_success n)
     \<and> (\<forall>k v. k < length rs \<longrightarrow> rn_phase (rs ! k) = Add_success v \<longrightarrow> partial_sum m0 rs v))"

lemma report_sum_update:
  assumes "k \<in> S \<Longrightarrow> k < length rs \<Longrightarrow> rn_success r = rn_success (rs ! k)"
  shows "report_sum (rs[k := r]) S = report_sum rs S"
  unfolding report_sum_def
proof (rule sum.cong [OF refl])
  fix x assume "x \<in> S"
  with assms show "ucast (rn_success (rs[k := r] ! x)) = (ucast (rn_success (rs ! x)) :: u64)"
    by (cases "k < length rs"; cases "x = k") (simp_all add: list_update_beyond)
qed

lemma partial_sum_update:
  assumes "partial_sum m0 rs x" "k < length rs"
    and "counted (rs ! k) \<Longrightarrow> counted r \<and> rn_success r = rn_success (rs ! k)"
  shows "partial_sum m0 (rs[k := r]) x"
proof -
  from assms(1) obtain S where S: "S \<subseteq> {k. k < length rs \<and> counted (rs ! k)}" "x = m0 + report_sum rs S"
    by (auto simp: partial_sum_def)
  have "report_sum (rs[k := r]) S = report_sum rs S"
    by (rule report_sum_update) (use S(1) assms(3) in auto)
  moreover have "S \<subseteq> {j. j < length (rs[k := r]) \<and> counted (rs[k := r] ! j)}"
    using S(1) assms(2,3) by (auto simp: nth_list_update)
  ultimately show ?thesis unfolding partial_sum_def S(2) by (intro exI [of _ S]) simp
qed

text \<open>The store of a runner adds its own report to the value it has loaded.\<close>

lemma partial_sum_store:
  assumes "partial_sum m0 rs v" "k < length rs" "\<not> counted (rs ! k)" "counted r"
    and "rn_success r = rn_success (rs ! k)"
  shows "partial_sum m0 (rs[k := r]) (v + ucast (rn_success r))"
proof -
  from assms(1) obtain S where S: "S \<subseteq> {k. k < length rs \<and> counted (rs ! k)}" "v = m0 + report_sum rs S"
    by (auto simp: partial_sum_def)
  have k: "k \<notin> S" "finite S" using S(1) assms(3) by (auto intro: finite_subset)
  have "report_sum (rs[k := r]) (insert k S) = report_sum rs S + ucast (rn_success r)"
  proof -
    have "report_sum (rs[k := r]) (insert k S) = ucast (rn_success r) + report_sum (rs[k := r]) S"
      using k assms(2) by (simp add: report_sum_def)
    moreover have "report_sum (rs[k := r]) S = report_sum rs S"
      by (rule report_sum_update) (use k(1) in simp)
    ultimately show ?thesis by simp
  qed
  moreover have "insert k S \<subseteq> {j. j < length (rs[k := r]) \<and> counted (rs[k := r] ! j)}"
    using S(1) assms(2,4) by (auto simp: nth_list_update)
  ultimately show ?thesis unfolding partial_sum_def S(2)
    by (intro exI [of _ "insert k S"]) (simp only: add.assoc)
qed

text \<open>What one step of a runner does to the counter.\<close>

lemma queue_loop_counters:
  assumes "queue_loop lib env tid i ps CIp (n, c, w) = Some (rest, CIp', (n', c', w'))"
  shows "message_success n' = message_success n"
proof -
  have d: "delivery_keeps tid (\<lambda>m. message_success m = message_success n)"
    unfolding delivery_keeps_def
    by (auto simp: send_receive_message_def Let_def case_prod_beta split: option.splits if_splits)
  have "message_success n' = message_success n \<and> True"
    by (rule queue_loop_keeps [OF d _ refl _ assms]) (simp_all add: kept_def)
  then show ?thesis by simp
qed

lemma runner_step_counters:
  assumes "runner_step lib e k (r, n, w) = Some (r', n', w')"
  shows "(counted r \<longrightarrow> counted r') \<and> (rn_phase r \<in> {Reported, Load_success, Load_failed} \<union> range Add_success \<union> range Add_failed
      \<longrightarrow> rn_client r' = rn_client r)
    \<and> (case rn_phase r of
         Add_success v \<Rightarrow> counted r' \<and> message_success n' = v + ucast (rn_success r)
       | _ \<Rightarrow> message_success n' = message_success n)
    \<and> (\<forall>v. rn_phase r' = Add_success v \<longrightarrow> v = message_success n \<and> message_success n' = message_success n)"
proof (cases "rn_phase r")
  case (Round i)
  show ?thesis
  proof (cases "rn_left r")
    case Nil
    with Round assms show ?thesis by (auto simp: runner_step_def counted_def)
  next
    case (Cons p ps)
    with Round assms obtain rest CIp c1 where
        q: "queue_round lib e k i p (rn_CI r) (n, rn_client r, w) = Some (rest, CIp, (n', c1, w'))"
      and r': "rn_phase r' = (if rest = [] then Round (i + 1) else Load_success)"
      by (auto simp: runner_step_def split: option.splits)
    from queue_loop_counters [OF q [unfolded queue_round_def]] r' Round show ?thesis
      by (auto simp: counted_def split: if_splits)
  qed
qed (use assms in \<open>auto simp: runner_step_def counted_def split: if_splits\<close>)

lemma counts_step:
  assumes "runners_step lib T s s'" "counts_inv m0 s"
  shows "counts_inv m0 s'"
  using assms(1)
proof (cases rule: runners_stepE [consumes 1, case_names advance other])
  case (advance k rs e n w r n' w')
  let ?r = "rs ! k"
  have inv: "partial_sum m0 rs (message_success n)"
      "\<And>j v. j < length rs \<Longrightarrow> rn_phase (rs ! j) = Add_success v \<Longrightarrow> partial_sum m0 rs v"
    using assms(2) advance(1) by (auto simp: counts_inv_def)
  note c = runner_step_counters [OF advance(5)]
  have keep: "counted r \<and> rn_success r = rn_success ?r" if "counted ?r"
    using that c by (auto simp: counted_def rn_success_def split: phase.splits)
  have upd: "partial_sum m0 (rs[k := r]) x" if "partial_sum m0 rs x" for x
    by (rule partial_sum_update [OF that advance(3) keep])
  have "partial_sum m0 (rs[k := r]) (message_success n')"
  proof (cases "\<exists>v. rn_phase ?r = Add_success v")
    case True
    then obtain v where v: "rn_phase ?r = Add_success v" by blast
    then have "rn_success r = rn_success ?r" "counted r" "\<not> counted ?r" "message_success n' = v + ucast (rn_success ?r)"
      using c by (auto simp: counted_def rn_success_def)
    with partial_sum_store [OF inv(2) [OF advance(3) v] advance(3)] show ?thesis by simp
  next
    case False
    then have "message_success n' = message_success n" using c by (auto split: phase.splits)
    with upd inv(1) show ?thesis by simp
  qed
  moreover have "partial_sum m0 (rs[k := r]) v"
    if j: "j < length rs" "rn_phase (rs[k := r] ! j) = Add_success v" for j v
  proof (cases "j = k")
    case True
    with j advance(3) c have "v = message_success n" by simp
    with upd inv(1) show ?thesis by simp
  next
    case False
    with j have "rn_phase (rs ! j) = Add_success v" by simp
    from upd [OF inv(2) [OF j(1) this]] show ?thesis .
  qed
  ultimately show ?thesis using advance(2) by (simp add: counts_inv_def)
next
  case (other n w n' w' rs)
  from other(3) have "message_success n' = message_success n"
    using statics_eqD(13) by (auto simp: elsewhere_def)
  with assms(2) other(1,2) show ?thesis by (simp add: counts_inv_def)
qed

lemma counts_reach:
  assumes "runners_reach lib T (rs0, n0, w0) s" "\<forall>r \<in> set rs0. \<forall>v. rn_phase r \<noteq> Add_success v"
  shows "counts_inv (message_success n0) s"
  using assms(1)
proof (induction rule: runners_reach.induct)
  case start
  have "partial_sum (message_success n0) rs0 (message_success n0)"
    unfolding partial_sum_def by (intro exI [of _ "{}"]) (simp add: report_sum_def)
  with assms(2) show ?case by (force simp: counts_inv_def)
next
  case (step s s')
  show ?case by (rule counts_step [OF step.hyps(2) step.IH])
qed

section \<open>Two reports at once\<close>

lemma list_update_two: "i \<noteq> j \<Longrightarrow> xs[i := x, j := y, i := x', j := y'] = xs[i := x', j := y']"
  by (metis list_update_overwrite list_update_swap)

lemma advance_reach:
  assumes "runners_reach lib T s (rs, n, w)" "k < length rs" "rn_phase (rs ! k) \<noteq> Reported"
    and "runner_step lib e k (rs ! k, n, w) = Some (r, n', w')"
  shows "runners_reach lib T s (rs[k := r], n', w')"
  by (rule runners_reach.step [OF assms(1) runners_step.advance [OF assms(2-4)]])

text \<open>From the test of the failures on, a runner gets to its end without touching the other counter.\<close>

lemma failed_reach:
  assumes "runners_reach lib T s (rs, n, w)" "k < length rs" "rn_phase (rs ! k) = Load_failed"
  shows "\<exists>n'. runners_reach lib T s (rs[k := (rs ! k)\<lparr>rn_phase := Reported\<rparr>], n', w) \<and> message_success n' = message_success n"
proof (cases "rn_failed (rs ! k) = 0")
  case True
  from advance_reach [OF assms(1,2), where r = "(rs ! k)\<lparr>rn_phase := Reported\<rparr>" and n' = n and w' = w] assms(3) True
  show ?thesis by (intro exI [of _ n]) (simp add: runner_step_def)
next
  case False
  let ?r = "(rs ! k)\<lparr>rn_phase := Add_failed (message_failed n)\<rparr>"
  let ?n = "n\<lparr>message_failed := message_failed n + ucast (rn_failed (rs ! k))\<rparr>"
  have 1: "runners_reach lib T s (rs[k := ?r], n, w)"
    by (rule advance_reach [OF assms(1,2)]) (use assms(3) False in \<open>simp_all add: runner_step_def\<close>)
  have "runners_reach lib T s (rs[k := ?r, k := ?r\<lparr>rn_phase := Reported\<rparr>], ?n, w)"
    by (rule advance_reach [OF 1]) (use assms(2) in \<open>simp_all add: runner_step_def\<close>)
  then show ?thesis by (intro exI [of _ ?n]) simp
qed

section \<open>Properties\<close>

text \<open>C35: The counter of delivered results is not safe among threads, which \<open>network.h\<close> accepts. Whatever the interleaving, it shows the
  start value plus the reports of some of the threads that have reported, but not always of all: of any
  two threads that are about to report there is an interleaving after which the report of one is lost.\<close>

theorem result_counts_race:
  assumes "\<forall>r \<in> set rs. \<forall>v. rn_phase r \<noteq> Add_success v"
    and "a < length rs" "b < length rs" "a \<noteq> b"
    and "rn_phase (rs ! a) = Load_success" "rn_phase (rs ! b) = Load_success"
    and "rn_success (rs ! a) \<noteq> 0" "rn_success (rs ! b) \<noteq> 0"
  shows "(\<forall>rs' n' w'. runners_reach lib T (rs, n, w) (rs', n', w') \<longrightarrow>
            (\<exists>S \<subseteq> {k. k < length rs' \<and> counted (rs' ! k)}. message_success n' = message_success n + report_sum rs' S))
    \<and> (\<exists>rs' n'. runners_reach lib T (rs, n, w) (rs', n', w)
         \<and> rs' = rs[a := (rs ! a)\<lparr>rn_phase := Reported\<rparr>, b := (rs ! b)\<lparr>rn_phase := Reported\<rparr>]
         \<and> message_success n' = message_success n + ucast (rn_success (rs ! b)))"
proof (intro conjI allI impI)
  fix rs' n' w' assume "runners_reach lib T (rs, n, w) (rs', n', w')"
  from counts_reach [OF this assms(1)]
  show "\<exists>S \<subseteq> {k. k < length rs' \<and> counted (rs' ! k)}. message_success n' = message_success n + report_sum rs' S"
    by (simp add: counts_inv_def partial_sum_def)
next
  let ?m = "message_success n" and ?ra = "rs ! a" and ?rb = "rs ! b"
  let ?a = "?ra\<lparr>rn_phase := Add_success ?m\<rparr>" and ?b = "?rb\<lparr>rn_phase := Add_success ?m\<rparr>"
  let ?a' = "?ra\<lparr>rn_phase := Load_failed\<rparr>" and ?b' = "?rb\<lparr>rn_phase := Load_failed\<rparr>"
  let ?n1 = "n\<lparr>message_success := ?m + ucast (rn_success ?ra)\<rparr>"
  let ?n2 = "n\<lparr>message_success := ?m + ucast (rn_success ?rb)\<rparr>"
  note facts = assms(2-8) assms(4) [symmetric] runner_step_def
  have 1: "runners_reach lib T (rs, n, w) (rs[a := ?a], n, w)"
    by (rule advance_reach [OF runners_reach.start]) (simp_all add: facts)
  have 2: "runners_reach lib T (rs, n, w) (rs[a := ?a, b := ?b], n, w)"
    by (rule advance_reach [OF 1]) (simp_all add: facts)
  have 3: "runners_reach lib T (rs, n, w) (rs[a := ?a, b := ?b, a := ?a'], ?n1, w)"
    by (rule advance_reach [OF 2]) (simp_all add: facts)
  have 4: "runners_reach lib T (rs, n, w) (rs[a := ?a, b := ?b, a := ?a', b := ?b'], ?n2, w)"
    by (rule advance_reach [OF 3]) (simp_all add: facts)
  have eq: "rs[a := ?a, b := ?b, a := ?a', b := ?b'] = rs[a := ?a', b := ?b']"
    by (simp only: list_update_two [OF assms(4)])
  obtain n3 where n3: "runners_reach lib T (rs, n, w) (rs[a := ?a', b := ?b', a := ?a'\<lparr>rn_phase := Reported\<rparr>], n3, w)"
      "message_success n3 = message_success ?n2"
    using failed_reach [OF 4 [unfolded eq], of a] assms(2-4) by auto
  obtain n4 where n4: "runners_reach lib T (rs, n, w)
      (rs[a := ?a', b := ?b', a := ?a'\<lparr>rn_phase := Reported\<rparr>, b := ?b'\<lparr>rn_phase := Reported\<rparr>], n4, w)"
      "message_success n4 = message_success n3"
    using failed_reach [OF n3(1), of b] assms(2-4) by auto
  have "rs[a := ?a', b := ?b', a := ?a'\<lparr>rn_phase := Reported\<rparr>, b := ?b'\<lparr>rn_phase := Reported\<rparr>]
      = rs[a := ?ra\<lparr>rn_phase := Reported\<rparr>, b := ?rb\<lparr>rn_phase := Reported\<rparr>]"
    by (simp add: list_update_two [OF assms(4)])
  with n3(2) n4 show "\<exists>rs' n'. runners_reach lib T (rs, n, w) (rs', n', w)
      \<and> rs' = rs[a := ?ra\<lparr>rn_phase := Reported\<rparr>, b := ?rb\<lparr>rn_phase := Reported\<rparr>]
      \<and> message_success n' = ?m + ucast (rn_success ?rb)"
    by (intro exI [of _ n4] exI) auto
qed

text \<open>Two threads with three results each, reported as three.\<close>

lemma result_counts_race_witness:
  "\<exists>rs' n'. runners_reach feedback_cipher {}
       (replicate 2 \<lparr>rn_phase = Load_success, rn_left = [], rn_CI = None,
          rn_client = new_network_client\<lparr>d_success := 3\<rparr>\<rparr>, ex_network 0, spool_world) (rs', n', spool_world)
     \<and> (\<forall>r \<in> set rs'. rn_phase r = Reported \<and> d_success (rn_client r) = 3) \<and> message_success n' = 3"
proof -
  let ?r = "\<lparr>rn_phase = Load_success, rn_left = [], rn_CI = None,
    rn_client = new_network_client\<lparr>d_success := 3\<rparr>\<rparr> :: byte runner"
  have "rn_success ?r = 3" by (simp add: rn_success_def)
  with result_counts_race [of "replicate 2 ?r" 0 1 feedback_cipher "{}" "ex_network 0" spool_world]
  obtain rs' and n' :: "byte network" where "runners_reach feedback_cipher {} (replicate 2 ?r, ex_network 0, spool_world) (rs', n', spool_world)"
      "rs' = (replicate 2 ?r)[0 := ?r\<lparr>rn_phase := Reported\<rparr>, 1 := ?r\<lparr>rn_phase := Reported\<rparr>]"
      "message_success n' = message_success (ex_network 0 :: byte network) + 3"
    by auto
  then show ?thesis
    by (intro exI [of _ rs'] exI [of _ n']) (simp add: numeral_2_eq_2 ex_network_def)
qed

end
