(* ===== verification/Nsca_Writers.thy ===== *)
theory Nsca_Writers
  imports Nsca_Result_Writer
begin

text \<open>
  The threads of a worker write to the spool directory at the same time, and the file mode mask they
  change is one for the whole process. A call of \<open>write_result\<close> is here three steps: the first
  \<open>umask\<close>, \<open>writer_body\<close>, the second \<open>umask\<close>. \<open>writers_step\<close> interleaves the calls of several threads.
\<close>

section \<open>Calls in steps\<close>

record write_call =
  wc_env :: result_env
  wc_now :: int
  wc_cnow :: string
  wc_check :: check

text \<open>\<open>Inside\<close> and \<open>Written\<close> hold the mask the thread has saved, then the value it will return.\<close>

datatype write_phase = Not_started | Inside u32 | Written u32 int | Returned int

definition call_text :: "write_call \<Rightarrow> string" where
  "call_text c = result_text (wc_now c) (wc_cnow c) (wc_check c)"

definition call_file :: "string \<Rightarrow> write_call \<Rightarrow> string" where
  "call_file path c = mkstemp_name path (re_mkstemp_suffix (wc_env c))"

fun writer_move :: "string \<Rightarrow> write_call \<Rightarrow> world \<times> write_phase \<Rightarrow> (world \<times> write_phase) option" where
  "writer_move path c (w, Not_started) = Some (w\<lparr>umask := 0x3F\<rparr>, Inside (umask w))"
| "writer_move path c (w, Inside old_umask) =
     (let (rc, w') = writer_body (wc_env c) path (wc_now c) (wc_cnow c) (wc_check c) w
      in Some (w', Written old_umask rc))"
| "writer_move path c (w, Written old_umask rc) =
     (let (r, w') = writer_cleanup old_umask rc w in Some (w', Returned r))"
| "writer_move path c (w, Returned r) = None"

inductive writers_step ::
    "string \<Rightarrow> write_call list \<Rightarrow> world \<times> write_phase list \<Rightarrow> world \<times> write_phase list \<Rightarrow> bool"
    for path cs where
  move: "i < length cs \<Longrightarrow> i < length ps \<Longrightarrow> writer_move path (cs ! i) (w, ps ! i) = Some (w', p) \<Longrightarrow>
    writers_step path cs (w, ps) (w', ps[i := p])"

inductive writers_reach ::
    "string \<Rightarrow> write_call list \<Rightarrow> world \<Rightarrow> world \<times> write_phase list \<Rightarrow> bool" for path cs w where
  start: "writers_reach path cs w (w, replicate (length cs) Not_started)"
| step: "writers_reach path cs w s \<Longrightarrow> writers_step path cs s s' \<Longrightarrow> writers_reach path cs w s'"

text \<open>A call on its own is \<open>write_result_path\<close>.\<close>

lemma one_writer:
  assumes "write_result_path (wc_env c) path (wc_now c) (wc_cnow c) (wc_check c) w = (rc, w')"
  shows "writers_reach path [c] w (w', [Returned rc])"
proof -
  obtain r1 w1 where b: "writer_body (wc_env c) path (wc_now c) (wc_cnow c) (wc_check c) (w\<lparr>umask := 0x3F\<rparr>) = (r1, w1)"
    by fastforce
  note st = writers_reach.step writers_step.move [of 0 "[c]", simplified]
  have "writers_reach path [c] w (w, [Not_started])"
    using writers_reach.start [of path "[c]" w] by simp
  then have "writers_reach path [c] w (w\<lparr>umask := 0x3F\<rparr>, [Inside (umask w)])"
    using writers_step.move [of 0 "[c]" "[Not_started]" path w] by (auto intro: writers_reach.step)
  then have "writers_reach path [c] w (w1, [Written (umask w) r1])"
    using writers_step.move [of 0 "[c]" "[Inside (umask w)]" path "w\<lparr>umask := 0x3F\<rparr>"] b
    by (auto intro: writers_reach.step)
  then have "writers_reach path [c] w (w1\<lparr>umask := umask w\<rparr>, [Returned r1])"
    using writers_step.move [of 0 "[c]" "[Written (umask w) r1]" path w1]
    by (auto simp: writer_cleanup_def intro: writers_reach.step)
  with b assms show ?thesis by (simp add: write_result_path_def writer_cleanup_def)
qed

section \<open>Two calls at once\<close>

lemma writer_body_good:
  assumes "env_good (wc_env c) (call_text c)" "length path + 11 < FILENAME_MAX"
  shows "\<exists>f. writer_body (wc_env c) path (wc_now c) (wc_cnow c) (wc_check c) w = (0,
     w\<lparr>fs := (fs w)(call_file path c \<mapsto> \<lparr>file_mode = 0x180 AND NOT (umask w), file_data = call_text c\<rparr>,
        call_file path c @ ''.ok'' \<mapsto> f)\<rparr>)
    \<and> (fs w (call_file path c @ ''.ok'') = None \<longrightarrow> f = \<lparr>file_mode = 0x1B6 AND NOT (umask w), file_data = []\<rparr>)"
proof -
  have s: "suffix_ok (re_mkstemp_suffix (wc_env c))" using assms(1) by (simp add: env_good_def)
  then have "length (call_file path c) \<le> length path + 8"
    using assms(2) length_mkstemp_name by (simp add: call_file_def)
  then have "ok_name (call_file path c) = call_file path c @ ''.ok''"
    using assms(2) by (intro ok_name_append) simp
  with assms(1) show ?thesis
    by (cases "fs w (call_file path c @ ''.ok'')")
      (auto simp: writer_body_def env_good_def call_text_def call_file_def Let_def open_trunc_def)
qed

lemma call_files_differ:
  assumes "call_file path a \<noteq> call_file path b" "suffix_ok (re_mkstemp_suffix (wc_env a))"
  shows "call_file path b @ ''.ok'' \<noteq> call_file path a"
    and "call_file path b @ ''.ok'' \<noteq> call_file path a @ ''.ok''"
proof -
  have "\<not> is_marker (call_file path a)"
    unfolding call_file_def by (rule mkstemp_name_not_marker [OF assms(2)])
  then show "call_file path b @ ''.ok'' \<noteq> call_file path a" by (metis is_marker_ok)
  show "call_file path b @ ''.ok'' \<noteq> call_file path a @ ''.ok''" using assms(1) by simp
qed

section \<open>Properties\<close>

text \<open>C36: The mode mask is not safe among threads: of any two calls that succeed there is an interleaving
  after which the marker of one is open to whom the mask of the process lets it be, not to its owner
  only, and the process is left with the mask 077.\<close>

theorem writers_race_on_umask:
  assumes "env_good (wc_env a) (call_text a)" "env_good (wc_env b) (call_text b)"
    and "length path + 11 < FILENAME_MAX" "call_file path a \<noteq> call_file path b"
    and "fs w (call_file path b @ ''.ok'') = None"
  shows "\<exists>w' f. writers_reach path [a, b] w (w', [Returned 0, Returned 0]) \<and> umask w' = 0x3F
    \<and> fs w' (call_file path b @ ''.ok'') = Some f \<and> file_mode f = 0x1B6 AND NOT (umask w)"
proof -
  let ?u = "umask w" and ?bok = "call_file path b @ ''.ok''"
  define w1 where "w1 = w\<lparr>umask := 0x3F\<rparr>"
  obtain w2 where w2: "writer_body (wc_env a) path (wc_now a) (wc_cnow a) (wc_check a) w1 = (0, w2)"
      "fs w2 ?bok = None" "umask w2 = 0x3F"
    using writer_body_good [OF assms(1,3), of w1] call_files_differ [OF assms(4)] assms(1,5)
    by (auto simp: w1_def env_good_def)
  define w3 where "w3 = w2\<lparr>umask := ?u\<rparr>"
  obtain w4 where w4: "writer_body (wc_env b) path (wc_now b) (wc_cnow b) (wc_check b) w3 = (0, w4)"
      "fs w4 ?bok = Some \<lparr>file_mode = 0x1B6 AND NOT ?u, file_data = []\<rparr>"
    using writer_body_good [OF assms(2,3), of w3] w2(2) by (auto simp: w3_def)
  note step = writers_reach.step [where cs = "[a, b]" and path = path and w = w]
    and move = writers_step.move [where cs = "[a, b]" and path = path]
  have "writers_reach path [a, b] w (w, [Not_started, Not_started])"
    using writers_reach.start [of path "[a, b]" w] by simp
  from step [OF this move [of 0 _ w]]
  have "writers_reach path [a, b] w (w1, [Inside ?u, Not_started])" by (simp add: w1_def)
  from step [OF this move [of 1 _ w1]]
  have "writers_reach path [a, b] w (w1, [Inside ?u, Inside 0x3F])" by (simp add: w1_def)
  from step [OF this move [of 0 _ w1]]
  have "writers_reach path [a, b] w (w2, [Written ?u 0, Inside 0x3F])" by (simp add: w2)
  from step [OF this move [of 0 _ w2]]
  have "writers_reach path [a, b] w (w3, [Returned 0, Inside 0x3F])"
    by (simp add: writer_cleanup_def w3_def)
  from step [OF this move [of 1 _ w3]]
  have "writers_reach path [a, b] w (w4, [Returned 0, Written 0x3F 0])" by (simp add: w4)
  from step [OF this move [of 1 _ w4]]
  have "writers_reach path [a, b] w (w4\<lparr>umask := 0x3F\<rparr>, [Returned 0, Returned 0])"
    by (simp add: writer_cleanup_def)
  with w4(2) show ?thesis
    by (intro exI [of _ "w4\<lparr>umask := 0x3F\<rparr>"] exI [of _ "\<lparr>file_mode = 0x1B6 AND NOT ?u, file_data = []\<rparr>"]) simp
qed

lemma writers_race_on_umask_witness:
  "\<exists>a b w' f. writers_reach ''/spool'' [a, b] spool_world (w', [Returned 0, Returned 0]) \<and> umask w' = 0x3F
     \<and> fs w' (call_file ''/spool'' b @ ''.ok'') = Some f \<and> file_mode f = 0x1A4"
proof -
  let ?c = "\<lambda>sfx. \<lparr>wc_env = example_result_env\<lparr>re_mkstemp_suffix := sfx\<rparr>, wc_now = 1600000000,
      wc_cnow = ''now'', wc_check = (''web'', ''disk'', 2, ''full'')\<rparr>"
  have good: "env_good (wc_env (?c sfx)) (call_text (?c sfx))" if "suffix_ok sfx" for sfx
    using example_env_good [of 1600000000 "''now''" "(''web'', ''disk'', 2, ''full'')"] that
    by (simp add: env_good_def call_text_def example_result_env_def)
  have ne: "call_file ''/spool'' (?c ''Ab12Cd'') \<noteq> call_file ''/spool'' (?c ''Zz99Zz'')"
    by (simp add: call_file_def mkstemp_name_def Let_def)
  have "umask spool_world = 0x12" "fs spool_world = Map.empty" by (simp_all add: spool_world_def)
  with writers_race_on_umask [OF good good _ ne, of spool_world]
  show ?thesis by (fastforce simp: suffix_ok_def nsca_consts)
qed

end
