(* ===== verification/Nsca_Fine.thy ===== *)
theory Nsca_Fine
  imports Nsca_Parallel Nsca_Program
begin

text \<open>
  The whole worker process in its finest steps. \<open>Nsca_System\<close> lets a thread process a queue in one
  step; here a thread that has taken a job is a \<open>runner\<close> of \<open>Nsca_Parallel\<close>, and its rounds and the
  loads and stores of its report alternate with every other step of the system: callbacks of the event
  loop, new connections, new jobs, other threads. \<open>fine_step\<close> is the relation, \<open>fine_inv\<close> its invariant.
\<close>

section \<open>State and steps\<close>

text \<open>\<open>running k\<close>: how far thread \<open>k\<close> is with its job, when it is in \<open>process_queue\<close>.\<close>

record 'td fine =
  sys :: "'td system"
  running :: "nat \<Rightarrow> 'td runner option"

text \<open>The test before a job is processed (\<open>crypt_thread_t::loop\<close>).\<close>

definition job_runs :: "'td crypt_instance option \<Rightarrow> 'td job \<Rightarrow> bool" where
  "job_runs CIp j \<longleftrightarrow> job_method j = THREADMANAGER_METHOD_DECRYPT_PACKET \<and> CIp \<noteq> None"

definition job_begin ::
    "bool \<Rightarrow> 'td network \<Rightarrow> 'td crypt_instance option \<Rightarrow> 'td job \<Rightarrow> 'td runner option" where
  "job_begin alloc n CIp j =
     queue_begin alloc n (job_instance CIp (networkClient j)) (set_CI CI_thread (networkClient j))"

text \<open>The threads that are at a job stay there, with the same instance.\<close>

definition jobs_stay :: "('td job, 'td) thread_manager \<Rightarrow> ('td job, 'td) thread_manager \<Rightarrow> bool" where
  "jobs_stay p p' \<longleftrightarrow>
     (\<forall>k t CIp j. thread_at p k = Some (t, CIp) \<longrightarrow> tpc t = T_run j \<longrightarrow>
        (\<exists>t'. thread_at p' k = Some (t', CIp) \<and> tpc t' = T_run j))"

text \<open>
  \<open>shared\<close> is every step of the system but the processing of a queue. A job is begun, goes on and is
  finished by steps of its own; \<open>skipped\<close> is a job the loop does not process.
\<close>

inductive fine_step :: "'td mcrypt \<Rightarrow> 'td fine \<Rightarrow> 'td fine \<Rightarrow> bool" for lib where
  shared: "system_step lib (sys f) s \<Longrightarrow> jobs_stay (pool (sys f)) (pool s) \<Longrightarrow>
    fine_step lib f (f\<lparr>sys := s\<rparr>)"
| begun: "thread_at (pool (sys f)) k = Some (t, CIp) \<Longrightarrow> tpc t = T_run j \<Longrightarrow> running f k = None \<Longrightarrow>
    job_runs CIp j \<Longrightarrow> job_begin alloc (net (event_loop (sys f))) CIp j = Some r \<Longrightarrow>
    fine_step lib f (f\<lparr>running := (running f)(k \<mapsto> r)\<rparr>)"
| skipped: "thread_at (pool (sys f)) k = Some (t, CIp) \<Longrightarrow> tpc t = T_run j \<Longrightarrow> running f k = None \<Longrightarrow>
    \<not> job_runs CIp j \<Longrightarrow> ct_loop_step t = Some t' \<Longrightarrow>
    fine_step lib f (f\<lparr>sys := (sys f)\<lparr>pool := set_thread k (t', CIp) (pool (sys f))\<rparr>\<rparr>)"
| goes_on: "event_loop (sys f) = e \<Longrightarrow> running f k = Some r \<Longrightarrow> rn_phase r \<noteq> Reported \<Longrightarrow>
    runner_step lib env k (r, net e, w_world e) = Some (r', n, w) \<Longrightarrow>
    fine_step lib f (f\<lparr>sys := (sys f)\<lparr>event_loop := e\<lparr>net := n, w_world := w\<rparr>\<rparr>, running := (running f)(k \<mapsto> r')\<rparr>)"
| finished: "thread_at (pool (sys f)) k = Some (t, CIp) \<Longrightarrow> tpc t = T_run j \<Longrightarrow> running f k = Some r \<Longrightarrow>
    rn_phase r = Reported \<Longrightarrow> ct_loop_step t = Some t' \<Longrightarrow>
    CIp' = (if has_own_CI (networkClient j) then CIp else rn_CI r) \<Longrightarrow>
    fine_step lib f (f\<lparr>sys := (sys f)\<lparr>pool := set_thread k (t', CIp') (pool (sys f))\<rparr>,
      running := (running f)(k := None)\<rparr>)"

inductive fine_reach ::
    "'td mcrypt \<Rightarrow> (nat \<Rightarrow> alloc_site \<Rightarrow> bool) \<Rightarrow> config \<Rightarrow> 'td fine \<Rightarrow> bool" for lib tmem cfg where
  start: "system_start lib tmem cfg s \<Longrightarrow> fine_reach lib tmem cfg \<lparr>sys = s, running = Map.empty\<rparr>"
| step: "fine_reach lib tmem cfg f \<Longrightarrow> fine_step lib f f' \<Longrightarrow> fine_reach lib tmem cfg f'"

inductive_cases fine_stepE: "fine_step lib f f'"

section \<open>Every coarse run is a fine run\<close>

inductive fine_steps :: "'td mcrypt \<Rightarrow> 'td fine \<Rightarrow> 'td fine \<Rightarrow> bool" for lib where
  none: "fine_steps lib f f"
| more: "fine_steps lib f f' \<Longrightarrow> fine_step lib f' f'' \<Longrightarrow> fine_steps lib f f''"

lemma fine_steps_reach: "fine_steps lib f f' \<Longrightarrow> fine_reach lib tmem cfg f \<Longrightarrow> fine_reach lib tmem cfg f'"
  by (induction rule: fine_steps.induct) (auto intro: fine_reach.step)

lemma run_alone_fine:
  assumes "run_alone lib env k m (r, net (event_loop (sys f)), w_world (event_loop (sys f))) = Some (r', n, w)"
    and "running f k = Some r" "fine_steps lib f0 f"
  shows "fine_steps lib f0 (f\<lparr>sys := (sys f)\<lparr>event_loop := (event_loop (sys f))\<lparr>net := n, w_world := w\<rparr>\<rparr>,
    running := (running f)(k \<mapsto> r')\<rparr>)"
  using assms
proof (induction m arbitrary: r f)
  case 0
  then have "f\<lparr>sys := (sys f)\<lparr>event_loop := (event_loop (sys f))\<lparr>net := n, w_world := w\<rparr>\<rparr>,
    running := (running f)(k \<mapsto> r')\<rparr> = f" by (auto simp: fun_upd_idem)
  with 0(3) show ?case by (simp only:)
next
  case (Suc m)
  let ?e = "event_loop (sys f)"
  define en where "en = (case rn_phase r of Round i \<Rightarrow> env i | _ \<Rightarrow> env 0)"
  from Suc.prems(1) obtain r1 n1 w1 where
      1: "runner_step lib en k (r, net ?e, w_world ?e) = Some (r1, n1, w1)" "run_alone lib env k m (r1, n1, w1) = Some (r', n, w)"
    by (auto simp: en_def split: option.splits)
  show ?case
  proof (cases "rn_phase r = Reported")
    case True
    with 1(1) have "(r1, n1, w1) = (r, net ?e, w_world ?e)" by (simp add: runner_step_def)
    with Suc.IH [of r f] 1(2) Suc.prems(2,3) show ?thesis by simp
  next
    case False
    let ?f = "f\<lparr>sys := (sys f)\<lparr>event_loop := ?e\<lparr>net := n1, w_world := w1\<rparr>\<rparr>, running := (running f)(k \<mapsto> r1)\<rparr>"
    have "fine_steps lib f0 ?f"
      by (rule fine_steps.more [OF Suc.prems(3) fine_step.goes_on [OF refl Suc.prems(2) False 1(1)]])
    moreover have "running ?f k = Some r1" by simp
    ultimately show ?thesis using Suc.IH [of r1 ?f] 1(2) by (simp del: fun_upd_apply)
  qed
qed

lemma jobs_stay_callback: "jobs_stay p p"
  by (simp add: jobs_stay_def)

lemma jobs_stay_set_thread:
  assumes "thread_at p k = Some (t, CIp)" "\<And>j. tpc t = T_run j \<Longrightarrow> tpc t' = T_run j"
  shows "jobs_stay p (set_thread k (t', CIp) p)"
  using assms by (auto simp: jobs_stay_def thread_at_iff set_thread_def nth_list_update)

lemma jobs_stay_add_job:
  assumes "thread_at p (next_thread p) = Some (t, CIp)" "add_job j p = Some p'"
  shows "jobs_stay p p'"
proof -
  obtain ts where ts: "crypt_threads p = Some ts" "next_thread p < length ts" "ts ! next_thread p = (t, CIp)"
    using assms(1) by (auto simp: thread_at_iff)
  then have "crypt_threads p' = Some (ts[next_thread p := (ct_push j t, CIp)])"
    using assms(2) by (auto simp: add_job_def next_thread_def Let_def split: if_splits)
  with ts show ?thesis by (auto simp: jobs_stay_def thread_at_iff nth_list_update ct_push_def)
qed

lemma run_job_cases:
  assumes "run_job lib alloc env k j (CIp, n, w) = Some (CIp', n', w')"
  obtains (skips) "\<not> job_runs CIp j" "CIp' = CIp" "n' = n" "w' = w"
  | (processes) q c' where "job_runs CIp j"
      "process_queue lib alloc env k (job_instance CIp (networkClient j)) (n, set_CI CI_thread (networkClient j), w)
        = Some (q, n', c', w')"
      "CIp' = (if has_own_CI (networkClient j) then CIp else q)"
proof (cases "job_runs CIp j")
  case False
  with assms skips show thesis by (auto simp: run_job_def job_runs_def)
next
  case True
  have "has_own_CI (set_CI CI_thread (networkClient j)) = has_own_CI (networkClient j)"
    "own_CI (set_CI CI_thread (networkClient j)) = own_CI (networkClient j)" by (simp_all add: set_CI_def)
  with True assms processes show thesis
    by (auto simp: run_job_def job_runs_def job_instance_def Let_def split: if_splits option.splits)
qed

lemma thread_runs_fine:
  assumes "thread_at (pool s) k = Some (t, CIp)" "tpc t = T_run j"
    and "run_job lib alloc env k j (CIp, net (event_loop s), w_world (event_loop s)) = Some (CIp', n, w)"
    and "ct_loop_step t = Some t'"
  shows "fine_steps lib \<lparr>sys = s, running = Map.empty\<rparr>
    \<lparr>sys = s\<lparr>event_loop := (event_loop s)\<lparr>net := n, w_world := w\<rparr>, pool := set_thread k (t', CIp') (pool s)\<rparr>,
     running = Map.empty\<rparr>"
  using assms(3)
proof (cases rule: run_job_cases)
  case skips
  have "fine_step lib \<lparr>sys = s, running = Map.empty\<rparr>
      (\<lparr>sys = s, running = Map.empty\<rparr>\<lparr>sys := s\<lparr>pool := set_thread k (t', CIp) (pool s)\<rparr>\<rparr>)"
    using fine_step.skipped [of "\<lparr>sys = s, running = Map.empty\<rparr>" k t CIp j t' lib] assms(1,2,4) skips(1) by simp
  with skips(2-4) show ?thesis by (auto intro: fine_steps.more [OF fine_steps.none])
next
  case (processes q c')
  let ?e = "event_loop s" and ?f0 = "\<lparr>sys = s, running = Map.empty\<rparr>"
  from process_queue_alone [OF processes(2)] obtain r m r' where
      r: "job_begin alloc (net ?e) CIp j = Some r"
      "run_alone lib env k m (r, net ?e, w_world ?e) = Some (r', n, w)" "rn_phase r' = Reported" "rn_CI r' = q"
    by (auto simp: job_begin_def)
  let ?f1 = "?f0\<lparr>running := [k \<mapsto> r]\<rparr>"
  let ?f2 = "?f1\<lparr>sys := s\<lparr>event_loop := ?e\<lparr>net := n, w_world := w\<rparr>\<rparr>, running := [k \<mapsto> r']\<rparr>"
  have "fine_step lib ?f0 ?f1"
    using fine_step.begun [of ?f0 k t CIp j alloc r lib] assms(1,2) processes(1) r(1) by simp
  then have 1: "fine_steps lib ?f0 ?f1" by (rule fine_steps.more [OF fine_steps.none])
  have 2: "fine_steps lib ?f0 ?f2"
    using run_alone_fine [of lib env k m r ?f1 r' n w, OF _ _ 1] r(2) by simp
  have "fine_step lib ?f2 (?f2\<lparr>sys := (sys ?f2)\<lparr>pool := set_thread k (t', CIp') (pool (sys ?f2))\<rparr>,
      running := (running ?f2)(k := None)\<rparr>)"
    by (rule fine_step.finished) (use assms(1,2,4) processes(3) r(3,4) in auto)
  from fine_steps.more [OF 2 this] show ?thesis by simp
qed

lemma system_step_fine:
  assumes "system_step lib s s'"
  shows "fine_steps lib \<lparr>sys = s, running = Map.empty\<rparr> \<lparr>sys = s', running = Map.empty\<rparr>"
proof -
  have shared: ?thesis if "jobs_stay (pool s) (pool s')"
    using fine_step.shared [of lib "\<lparr>sys = s, running = Map.empty\<rparr>" s'] assms that
    by (auto intro: fine_steps.more [OF fine_steps.none])
  from assms show ?thesis
  proof (cases rule: system_stepE [consumes 1, case_names callback to_thread at_once thread_moves
        thread_wakes thread_notified thread_runs])
    case (callback e)
    then show ?thesis by (intro shared) (simp add: jobs_stay_callback)
  next
    case (at_once i mem alloc n g c alloc' env CIp n' c' w)
    then show ?thesis by (intro shared) (simp add: jobs_stay_callback)
  next
    case (to_thread i mem alloc n g c t CIp p)
    with jobs_stay_add_job [OF to_thread(4,6)] show ?thesis by (intro shared) simp
  next
    case (thread_moves k t CIp t')
    with jobs_stay_set_thread [OF thread_moves(2), of t'] show ?thesis by (intro shared) simp
  next
    case (thread_wakes k t CIp)
    with jobs_stay_set_thread [OF thread_wakes(2), of "ct_wake t"] show ?thesis by (intro shared) simp
  next
    case (thread_notified k t CIp)
    with jobs_stay_set_thread [OF thread_notified(2), of "ct_wake (t\<lparr>notifying := False\<rparr>)"] show ?thesis
      by (intro shared) simp
  next
    case (thread_runs k t CIp j alloc env CIp' n w t')
    from thread_runs_fine [OF thread_runs(2,3,4,5)] show ?thesis unfolding thread_runs(1) .
  qed
qed

lemma system_reach_fine:
  "system_reach lib tmem cfg s \<Longrightarrow> fine_reach lib tmem cfg \<lparr>sys = s, running = Map.empty\<rparr>"
proof (induction rule: system_reach.induct)
  case (start s)
  then show ?case by (rule fine_reach.start)
next
  case (step s s')
  from fine_steps_reach [OF system_step_fine [OF step.hyps(2)] step.IH] show ?case .
qed

section \<open>The invariant\<close>

text \<open>
  What holds of a thread at a job: the instance it decrypts with is made from the IV the client was
  greeted with; it has come to its \<open>i\<close>-th packet with every one before it counted once; and what it
  will decrypt is what it would decrypt alone, whatever the other threads have done meanwhile.
\<close>

definition decoded_alone ::
    "'td mcrypt \<Rightarrow> 'td network \<Rightarrow> 'td crypt_instance option \<Rightarrow> 'td network_client \<Rightarrow> (nat \<times> byte list) list" where
  "decoded_alone lib n CIp c = queue_decoded lib n (job_instance CIp c) (data_packets c)"

definition counted_packets :: "'td runner \<Rightarrow> int" where
  "counted_packets r = d_success (rn_client r) + d_failed (rn_client r)"

definition round_ok ::
    "'td mcrypt \<Rightarrow> 'td network \<Rightarrow> 'td crypt_instance option \<Rightarrow> 'td network_client \<Rightarrow> 'td runner \<Rightarrow> nat \<Rightarrow> bool" where
  "round_ok lib n CIp c r i \<longleftrightarrow> 0 < i \<and> rn_left r = drop (i - 1) (data_packets c) \<and> i - 1 \<le> length (data_packets c)
     \<and> runner_decoded lib n r = drop (i - 1) (decoded_alone lib n CIp c) \<and> counted_packets r = int (i - 1)"

text \<open>
  After the loop: all packets are counted, or those up to the first that was rejected, or none (when the
  state buffer could not be allocated).
\<close>

definition loop_over :: "'td network_client \<Rightarrow> 'td runner \<Rightarrow> bool" where
  "loop_over c r \<longleftrightarrow>
     (rn_left r = [] \<and> counted_packets r = int (length (data_packets c)))
     \<or> (rn_left r \<noteq> [] \<and> length (rn_left r) \<le> length (data_packets c)
         \<and> counted_packets r = int (length (data_packets c) - length (rn_left r)) + 1)
     \<or> (rn_left r = data_packets c \<and> counted_packets r = 0)"

definition phase_ok ::
    "'td mcrypt \<Rightarrow> 'td network \<Rightarrow> 'td crypt_instance option \<Rightarrow> 'td network_client \<Rightarrow> 'td runner \<Rightarrow> bool" where
  "phase_ok lib n CIp c r \<longleftrightarrow> (case rn_phase r of Round i \<Rightarrow> round_ok lib n CIp c r i | _ \<Rightarrow> loop_over c r)"

definition runner_job ::
    "'td mcrypt \<Rightarrow> 'td network \<Rightarrow> 'td crypt_instance option \<Rightarrow> 'td network_client \<Rightarrow> 'td runner \<Rightarrow> bool" where
  "runner_job lib n CIp c r \<longleftrightarrow>
     server_cipher lib n (greeting_iv n c) (rn_CI r) \<and> phase_ok lib n CIp c r"

definition fine_inv :: "'td mcrypt \<Rightarrow> 'td fine \<Rightarrow> bool" where
  "fine_inv lib f \<longleftrightarrow> system_inv lib (sys f)
     \<and> (\<forall>k r. running f k = Some r \<longrightarrow>
          (\<exists>t CIp j. thread_at (pool (sys f)) k = Some (t, CIp) \<and> tpc t = T_run j
             \<and> runner_job lib (net (event_loop (sys f))) CIp (networkClient j) r))"

lemma fine_invD:
  assumes "fine_inv lib f" "running f k = Some r"
  obtains t CIp j where "thread_at (pool (sys f)) k = Some (t, CIp)" "tpc t = T_run j"
    "runner_job lib (net (event_loop (sys f))) CIp (networkClient j) r"
  using assms unfolding fine_inv_def by blast

text \<open>It depends on the settings of the \<open>network\<close> only.\<close>

lemma same_settings_decoded:
  assumes "same_settings n n'"
  shows "runner_decoded lib n' r = runner_decoded lib n r" "decoded_alone lib n' CIp c = decoded_alone lib n CIp c"
    "greeting_iv n' c = greeting_iv n c"
  using assms
  by (simp_all add: same_settings_def runner_decoded_def decoded_alone_def queue_decoded_def greeting_iv_def
      split: phase.split option.split)

lemma runner_job_same:
  assumes "same_settings n n'"
  shows "runner_job lib n' CIp c r = runner_job lib n CIp c r"
proof -
  have "round_ok lib n' CIp c r i = round_ok lib n CIp c r i" for i
    by (simp add: round_ok_def same_settings_decoded [OF assms])
  then show ?thesis using assms
    by (simp add: runner_job_def phase_ok_def same_settings_decoded [OF assms] same_settings_def split: phase.split)
qed

lemma run_job_settings:
  assumes "run_job lib alloc env k j (CIp, n, w) = Some (CIp', n', w')"
  shows "same_settings n n'"
  using assms
proof (cases rule: run_job_cases)
  case skips
  then show ?thesis by (simp add: same_settings_def)
next
  case (processes q c')
  from net_core_eqD [OF process_queue_core [OF processes(2)]] show ?thesis by (simp add: same_settings_def)
qed

lemma system_step_settings:
  assumes "system_step lib s s'" "system_inv lib s"
  shows "same_settings (net (event_loop s)) (net (event_loop s'))"
  using assms(1)
proof (cases rule: system_stepE [consumes 1, case_names callback to_thread at_once thread_moves
      thread_wakes thread_notified thread_runs])
  case (callback e)
  from callback_inv [OF callback(2) system_invD(1-3) [OF assms(2)]] show ?thesis
    unfolding callback(1) by (simp add: statics_settings)
next
  case (to_thread i mem alloc n g c t CIp p)
  from statics_settings [OF statics_eventcb [OF to_thread(3)]] show ?thesis unfolding to_thread(1) by simp
next
  case (at_once i mem alloc n g c alloc' env CIp n' c' w)
  have "same_settings (net (event_loop s)) n" by (rule statics_settings [OF statics_eventcb [OF at_once(3)]])
  moreover have "same_settings n (keep_instance c CIp n')"
    using net_core_eqD [OF process_queue_core [OF at_once(4)]]
    by (simp add: same_settings_def keep_instance_def shared_crypt_instance_def)
  ultimately show ?thesis unfolding at_once(1) by (simp add: same_settings_def)
next
  case (thread_runs k t CIp j alloc env CIp' n w t')
  from run_job_settings [OF thread_runs(4)] have "same_settings (net (event_loop s)) n" .
  then show ?thesis unfolding thread_runs(1) by simp
qed (simp_all add: same_settings_def)

section \<open>The steps of a runner keep it\<close>

lemma runner_step_CI:
  assumes "runner_step lib e k (r, n, w) = Some (r', n', w')"
    and "\<forall>i p ps. rn_phase r = Round i \<longrightarrow> rn_left r \<noteq> p # ps"
  shows "rn_CI r' = rn_CI r" "rn_left r' = rn_left r"
  using assms by (auto simp: runner_step_def split: phase.splits list.splits)

lemma round_keeps:
  assumes "queue_round lib e k i p CIp (n, c, w) = Some (rest, CIp', (n', c', w'))" "net_ok lib n"
    and "k < max 1 (nat (nsca_threads_per_worker n))" "server_cipher lib n iv CIp"
  shows "same_settings n n' \<and> net_ok lib n' \<and> server_cipher lib n iv CIp'"
proof -
  let ?K = "max 1 (nat (nsca_threads_per_worker n))"
  have "delivery_keeps k (\<lambda>m. net_core m = net_core n \<and> fifos_all ?K m)"
    unfolding delivery_keeps_def using fifos_all_send [OF _ assms(3)] send_receive_message_core by (metis (full_types))
  from queue_loop_keeps [OF this kept_cipher_of _ assms(4) assms(1) [unfolded queue_round_def]] assms(2)
  have k: "net_core n' = net_core n" "fifos_all ?K n'" "server_cipher lib n iv CIp'" by (simp_all add: net_ok_def)
  note core = net_core_eqD [OF k(1)]
  with k assms(2) show ?thesis by (simp add: same_settings_def net_ok_def)
qed

lemma runner_step_keeps:
  assumes "runner_step lib e k (r, n, w) = Some (r', n', w')" "net_ok lib n"
    and "k < max 1 (nat (nsca_threads_per_worker n))" "server_cipher lib n iv (rn_CI r)"
  shows "same_settings n n' \<and> net_ok lib n' \<and> server_cipher lib n iv (rn_CI r')"
proof (cases "\<exists>i p ps. rn_phase r = Round i \<and> rn_left r = p # ps")
  case True
  then obtain i p ps where r: "rn_phase r = Round i" "rn_left r = p # ps" by blast
  with assms(1) obtain rest c1 where "queue_round lib e k i p (rn_CI r) (n, rn_client r, w)
      = Some (rest, rn_CI r', (n', c1, w'))"
    by (auto simp: runner_step_def split: option.splits)
  from round_keeps [OF this assms(2-4)] show ?thesis .
next
  case False
  then have no: "\<forall>i p ps. rn_phase r = Round i \<longrightarrow> rn_left r \<noteq> p # ps" by blast
  from runner_step_report [OF assms(1) no]
  have n': "n' = n\<lparr>message_success := message_success n', message_failed := message_failed n'\<rparr>" by blast
  have "same_settings n n'" by (subst n') (simp add: same_settings_def shared_crypt_instance_def)
  moreover have "net_ok lib n'"
    using assms(2) by (subst n') (simp add: net_ok_def fifos_all_def shared_crypt_instance_def)
  ultimately show ?thesis using runner_step_CI(1) [OF assms(1) no] assms(4) by simp
qed

text \<open>One round of a runner, on the packet it would decrypt alone.\<close>

lemma drop_next: "drop (i - 1) xs = y # ys \<Longrightarrow> 0 < i \<Longrightarrow> drop i xs = ys \<and> i \<le> length xs"
  by (cases i) (auto simp: drop_Suc dest: arg_cong [of _ _ tl] arg_cong [of _ _ length] simp flip: drop_tl)

lemma round_as_alone:
  assumes r: "rn_phase r = Round i" "rn_left r = p # ps" and job: "runner_job lib n CIp c r"
    and n: "net_ok lib n" "k < max 1 (nat (nsca_threads_per_worker n))"
    and law: "\<And>t. mcrypt_enc_set_state lib t (mcrypt_enc_get_state lib t) = t"
  obtains bs CIp1 c1 where "drop (i - 1) (decoded_alone lib n CIp c) = (packet_length p, bs) # drop i (decoded_alone lib n CIp c)"
    "\<And>ok. round_ok lib n CIp c \<lparr>rn_phase = Round (i + 1), rn_left = ps, rn_CI = CIp1, rn_client = tally ok c1\<rparr> (i + 1)"
    "\<And>ph q CIp2. loop_over c \<lparr>rn_phase = ph, rn_left = q # ps, rn_CI = CIp2, rn_client = count_failed c1\<rparr>"
    "d_success c1 = d_success (rn_client r)" "d_failed c1 = d_failed (rn_client r)"
    "queue_round lib e k i p (rn_CI r) (n, rn_client r, w) = Some (round_spec e k p bs CIp1 (n, c1, w))"
proof -
  have ok: "round_ok lib n CIp c r i" and ci: "server_cipher lib n (greeting_iv n c) (rn_CI r)"
    using job r(1) by (simp_all add: runner_job_def phase_ok_def)
  have ready: "cipher_ready n (rn_CI r)" using ci n(1) cipher_of_ready by (fastforce simp: net_ok_def)
  have fifo: "fifos_ok k n" using n fifos_all_ok by (auto simp: net_ok_def)
  have i: "0 < i" "drop (i - 1) (data_packets c) = p # ps"
    "drop (i - 1) (decoded_alone lib n CIp c) = runner_decoded lib n r"
    "d_success (rn_client r) + d_failed (rn_client r) = int (i - 1)"
    using ok r(2) by (simp_all add: round_ok_def counted_packets_def)
  have r_eq: "r = \<lparr>rn_phase = Round i, rn_left = p # ps, rn_CI = rn_CI r, rn_client = rn_client r\<rparr>"
    using r by (cases r) simp
  obtain bs CIp1 c1 where c1: "d_success c1 = d_success (rn_client r)" "d_failed c1 = d_failed (rn_client r)"
    and dec: "\<And>b. runner_decoded lib n r = (packet_length p, bs)
      # runner_decoded lib n \<lparr>rn_phase = Round (i + 1), rn_left = ps, rn_CI = CIp1, rn_client = tally b c1\<rparr>"
    and round: "queue_round lib e k i p (rn_CI r) (n, rn_client r, w) = Some (round_spec e k p bs CIp1 (n, c1, w))"
    by (rule queue_round_result [OF ready fifo i(1) law, of "rn_client r" p ps e w, folded r_eq]) (rule that)
  note packets = drop_next [OF i(2,1)]
  have alone: "drop i (decoded_alone lib n CIp c)
      = runner_decoded lib n \<lparr>rn_phase = Round (i + 1), rn_left = ps, rn_CI = CIp1, rn_client = tally b c1\<rparr>" for b
    using drop_next [OF trans [OF i(3) dec [of b]] i(1)] by simp
  have len: "length (data_packets c) = i + length ps"
    using arg_cong [OF i(2), of length] packets i(1) by simp
  show thesis
  proof (rule that)
    show "drop (i - 1) (decoded_alone lib n CIp c) = (packet_length p, bs) # drop i (decoded_alone lib n CIp c)"
      using i(3) dec alone by simp
    show "round_ok lib n CIp c \<lparr>rn_phase = Round (i + 1), rn_left = ps, rn_CI = CIp1, rn_client = tally ok c1\<rparr> (i + 1)" for ok
      using packets alone [of ok] i(1,4) c1 by (simp add: round_ok_def counted_packets_def)
    show "loop_over c \<lparr>rn_phase = ph, rn_left = q # ps, rn_CI = CIp2, rn_client = count_failed c1\<rparr>" for ph q CIp2
      using len i(1,4) c1 by (simp add: loop_over_def counted_packets_def count_failed_def)
  qed (rule c1 round)+
qed

text \<open>What a round does, as a step of the runner.\<close>

definition round_effect ::
    "send_env \<Rightarrow> nat \<Rightarrow> byte list \<Rightarrow> verdict \<Rightarrow> nat \<Rightarrow> 'td runner \<times> 'td network \<times> world \<Rightarrow>
     'td runner \<times> 'td network \<times> world \<Rightarrow> bool" where
  "round_effect e k b v i = (\<lambda>(r, n, w) (r', n', w').
     (if v = Accepted
      then rn_phase r' = Round (i + 1)
        \<and> (\<exists>ok. send_result e k (packet_check b) n w = (n', ok, w')
             \<and> d_success (rn_client r') = d_success (rn_client r) + (if ok then 1 else 0)
             \<and> d_failed (rn_client r') = d_failed (rn_client r) + (if ok then 0 else 1))
      else rn_phase r' = Load_success \<and> n' = n \<and> w' = w
        \<and> d_success (rn_client r') = d_success (rn_client r)
        \<and> d_failed (rn_client r') = d_failed (rn_client r) + 1))"

lemma round_of_job:
  assumes r: "rn_phase r = Round i" "rn_left r = p # ps" and job: "runner_job lib n CIp c r"
    and n: "net_ok lib n" "k < max 1 (nat (nsca_threads_per_worker n))"
    and law: "\<And>t. mcrypt_enc_set_state lib t (mcrypt_enc_get_state lib t) = t"
  obtains bs v b r' n' w' where
    "drop (i - 1) (decoded_alone lib n CIp c) = (packet_length p, bs) # drop i (decoded_alone lib n CIp c)"
    "check_packet n (packet_length p) bs = (v, b)"
    "runner_step lib e k (r, n, w) = Some (r', n', w')" "phase_ok lib n CIp c r'"
    "round_effect e k b v i (r, n, w) (r', n', w')"
proof -
  obtain bs CIp1 c1 where
      alone: "drop (i - 1) (decoded_alone lib n CIp c) = (packet_length p, bs) # drop i (decoded_alone lib n CIp c)"
    and next': "\<And>ok. round_ok lib n CIp c \<lparr>rn_phase = Round (i + 1), rn_left = ps, rn_CI = CIp1, rn_client = tally ok c1\<rparr> (i + 1)"
    and over: "\<And>ph q CIp2. loop_over c \<lparr>rn_phase = ph, rn_left = q # ps, rn_CI = CIp2, rn_client = count_failed c1\<rparr>"
    and c1: "d_success c1 = d_success (rn_client r)" "d_failed c1 = d_failed (rn_client r)"
    and round: "queue_round lib e k i p (rn_CI r) (n, rn_client r, w) = Some (round_spec e k p bs CIp1 (n, c1, w))"
    by (rule round_as_alone [OF r job n law, of e w]) (rule that)
  show thesis
  proof (cases n "packet_length p" bs rule: check_packet_cases)
    case (ok b)
    obtain n1 good w1 where s: "send_result e k (packet_check b) n w = (n1, good, w1)" by (metis prod_cases3)
    with r round ok have "runner_step lib e k (r, n, w)
        = Some (\<lparr>rn_phase = Round (i + 1), rn_left = ps, rn_CI = CIp1, rn_client = tally good c1\<rparr>, n1, w1)"
      by (simp add: runner_step_def round_spec_def)
    from that [OF alone ok this] next' s c1 show thesis by (simp add: phase_ok_def round_effect_def)
  next
    case (bad v b)
    from r round bad have "runner_step lib e k (r, n, w)
        = Some (\<lparr>rn_phase = Load_success, rn_left = p\<lparr>receive_packet := b\<rparr> # ps, rn_CI = CIp1,
            rn_client = count_failed c1\<rparr>, n, w)"
      by (cases v) (simp_all add: runner_step_def round_spec_def)
    from that [OF alone bad(1) this] over bad(2) c1 show thesis
      by (simp add: phase_ok_def round_effect_def count_failed_def)
  qed
qed

lemma report_keeps_job:
  assumes "runner_step lib e k (r, n, w) = Some (r', n', w')" "phase_ok lib n CIp c r"
    and no: "\<forall>i p ps. rn_phase r = Round i \<longrightarrow> rn_left r \<noteq> p # ps"
  shows "phase_ok lib n CIp c r'"
proof -
  have "loop_over c r"
  proof (cases "rn_phase r")
    case (Round i)
    with assms(2) no have "rn_left r = []" "round_ok lib n CIp c r i"
      by (cases "rn_left r"; simp add: phase_ok_def)+
    then show ?thesis by (auto simp: round_ok_def loop_over_def)
  qed (use assms(2) in \<open>simp_all add: phase_ok_def\<close>)
  moreover have "rn_client r' = rn_client r" "\<forall>i. rn_phase r' \<noteq> Round i"
    using runner_step_report [OF assms(1) no] by simp_all
  ultimately have "loop_over c r'"
    using runner_step_CI(2) [OF assms(1) no] by (simp add: loop_over_def counted_packets_def)
  with \<open>\<forall>i. rn_phase r' \<noteq> Round i\<close> show ?thesis by (simp add: phase_ok_def split: phase.split)
qed

lemma runner_step_job:
  assumes step: "runner_step lib e k (r, n, w) = Some (r', n', w')" and job: "runner_job lib n CIp c r"
    and n: "net_ok lib n" "k < max 1 (nat (nsca_threads_per_worker n))"
    and law: "\<And>t. mcrypt_enc_set_state lib t (mcrypt_enc_get_state lib t) = t"
  shows "same_settings n n' \<and> net_ok lib n' \<and> runner_job lib n' CIp c r'"
proof -
  have p: "phase_ok lib n CIp c r" "server_cipher lib n (greeting_iv n c) (rn_CI r)"
    using job by (simp_all add: runner_job_def)
  note keeps = runner_step_keeps [OF step n p(2)]
  have "phase_ok lib n CIp c r'"
  proof (cases "\<exists>i p ps. rn_phase r = Round i \<and> rn_left r = p # ps")
    case True
    then obtain i q qs where "rn_phase r = Round i" "rn_left r = q # qs" by blast
    from round_of_job [OF this job n law, of e w] step show ?thesis by (metis option.inject prod.inject)
  next
    case False
    with report_keeps_job [OF step p(1)] show ?thesis by blast
  qed
  with keeps have "runner_job lib n CIp c r'" by (simp add: runner_job_def)
  with keeps runner_job_same [of n n'] show ?thesis by simp
qed

lemma runner_step_defined:
  assumes "runner_job lib n CIp c r" "net_ok lib n" "k < max 1 (nat (nsca_threads_per_worker n))"
    and law: "\<And>t. mcrypt_enc_set_state lib t (mcrypt_enc_get_state lib t) = t"
  shows "runner_step lib e k (r, n, w) \<noteq> None"
proof (cases "\<exists>i p ps. rn_phase r = Round i \<and> rn_left r = p # ps")
  case True
  then obtain i q qs where "rn_phase r = Round i" "rn_left r = q # qs" by blast
  from round_of_job [OF this assms(1-3) law, of e w] show ?thesis by (metis option.discI)
next
  case False
  then show ?thesis by (auto simp: runner_step_def split: phase.split list.split)
qed

lemma job_begin_ok:
  assumes "thread_ok lib n (t, CIp)" "tpc t = T_run j" "0 \<le> decryption_method n"
  obtains r where "job_begin alloc n CIp j = Some r" "runner_job lib n CIp (networkClient j) r"
proof -
  let ?CI = "job_instance CIp (networkClient j)" and ?c = "networkClient j"
  have j: "job_ok lib n j" by (rule running_job_ok [OF assms(1,2)])
  have ci: "server_cipher lib n (greeting_iv n ?c) ?CI" by (rule job_instance_cipher [OF assms(1) j])
  then have ready: "cipher_ready n ?CI" using assms(3) cipher_of_ready by blast
  have c: "d_success ?c = 0" "d_failed ?c = 0" using j by (simp_all add: job_ok_def client_ok_def)
  show thesis
  proof (cases "1 < decryption_method n")
    case True
    with ready obtain x y iv where "?CI = Some x" "td x = Some y" "IV x = Some iv" by (auto simp: cipher_ready_def)
    with True ci c show thesis
      by (cases alloc; intro that)
        (auto simp: job_begin_def queue_begin_def Let_def runner_job_def phase_ok_def round_ok_def loop_over_def
          counted_packets_def runner_decoded_def decoded_alone_def queue_decoded_def loop_cipher_def set_CI_def)
  next
    case False
    with ci c show thesis
      by (intro that)
        (auto simp: job_begin_def queue_begin_def Let_def runner_job_def phase_ok_def round_ok_def
          counted_packets_def runner_decoded_def decoded_alone_def queue_decoded_def set_CI_def)
  qed
qed

section \<open>Every step keeps the invariant\<close>

lemma thread_number:
  assumes "pool_ok lib n p" "thread_at p k = Some tc"
  shows "k < max 1 (nat (nsca_threads_per_worker n))"
  using assms by (auto simp: thread_at_iff pool_ok_def)

lemma fine_inv_sys:
  assumes "fine_inv lib f"
  shows "system_inv lib (sys f)" "net_ok lib (net (event_loop (sys f)))"
    "pool_ok lib (net (event_loop (sys f))) (pool (sys f))"
  using assms system_invD by (auto simp: fine_inv_def)

text \<open>The jobs of the other threads are not touched.\<close>

lemma fine_invI:
  assumes "system_inv lib (sys f')" "same_settings (net (event_loop (sys f))) (net (event_loop (sys f')))" "fine_inv lib f"
    and "\<And>k r. running f' k = Some r \<Longrightarrow>
      (running f k = Some r \<and> (\<forall>t CIp j. thread_at (pool (sys f)) k = Some (t, CIp) \<longrightarrow> tpc t = T_run j \<longrightarrow>
          (\<exists>t'. thread_at (pool (sys f')) k = Some (t', CIp) \<and> tpc t' = T_run j)))
      \<or> (\<exists>t CIp j. thread_at (pool (sys f')) k = Some (t, CIp) \<and> tpc t = T_run j
          \<and> runner_job lib (net (event_loop (sys f'))) CIp (networkClient j) r)"
  shows "fine_inv lib f'"
  unfolding fine_inv_def
proof (intro conjI allI impI)
  fix k r assume r: "running f' k = Some r"
  show "\<exists>t CIp j. thread_at (pool (sys f')) k = Some (t, CIp) \<and> tpc t = T_run j
      \<and> runner_job lib (net (event_loop (sys f'))) CIp (networkClient j) r"
  proof (rule disjE [OF assms(4) [OF r]])
    assume stays: "running f k = Some r \<and> (\<forall>t CIp j. thread_at (pool (sys f)) k = Some (t, CIp) \<longrightarrow> tpc t = T_run j \<longrightarrow>
          (\<exists>t'. thread_at (pool (sys f')) k = Some (t', CIp) \<and> tpc t' = T_run j))"
    then obtain t CIp j where "thread_at (pool (sys f)) k = Some (t, CIp)" "tpc t = T_run j"
        "runner_job lib (net (event_loop (sys f))) CIp (networkClient j) r"
      using fine_invD [OF assms(3)] by blast
    with stays runner_job_same [OF assms(2)] show ?thesis by blast
  qed
qed (rule assms(1))

lemma fine_inv_goes_on:
  assumes inv: "fine_inv lib f" and "running f k = Some r"
    and step: "runner_step lib env k (r, net (event_loop (sys f)), w_world (event_loop (sys f))) = Some (r', n, w)"
    and law: "\<And>t. mcrypt_enc_set_state lib t (mcrypt_enc_get_state lib t) = t"
  shows "fine_inv lib (f\<lparr>sys := (sys f)\<lparr>event_loop := (event_loop (sys f))\<lparr>net := n, w_world := w\<rparr>\<rparr>,
    running := (running f)(k \<mapsto> r')\<rparr>)"
proof -
  let ?e = "event_loop (sys f)"
  note ok = fine_inv_sys [OF inv] and sys = system_invD [OF fine_inv_sys(1) [OF inv]]
  obtain t CIp j where j: "thread_at (pool (sys f)) k = Some (t, CIp)" "tpc t = T_run j"
      "runner_job lib (net ?e) CIp (networkClient j) r" by (rule fine_invD [OF inv assms(2)])
  from runner_step_job [OF step j(3) ok(2) thread_number [OF ok(3) j(1)] law]
  have n: "same_settings (net ?e) n" "net_ok lib n" "runner_job lib n CIp (networkClient j) r'" by simp_all
  have "system_inv lib ((sys f)\<lparr>event_loop := ?e\<lparr>net := n, w_world := w\<rparr>\<rparr>)"
    using sys n(2) by (simp add: system_inv_def same_settings_oks [OF n(1)])
  with n(1,3) j(1,2) show ?thesis by (intro fine_invI [OF _ _ inv]) (auto split: if_splits)
qed

lemma fine_inv_finished:
  assumes inv: "fine_inv lib f" and t: "thread_at (pool (sys f)) k = Some (t, CIp)" "tpc t = T_run j"
    and r: "running f k = Some r" and "ct_loop_step t = Some t'"
    and CIp': "CIp' = (if has_own_CI (networkClient j) then CIp else rn_CI r)"
  shows "fine_inv lib (f\<lparr>sys := (sys f)\<lparr>pool := set_thread k (t', CIp') (pool (sys f))\<rparr>, running := (running f)(k := None)\<rparr>)"
proof -
  let ?n = "net (event_loop (sys f))"
  note ok = fine_inv_sys [OF inv] and sys = system_invD [OF fine_inv_sys(1) [OF inv]]
  have tok: "thread_ok lib ?n (t, CIp)" by (rule thread_okD [OF ok(3) t(1)])
  have j: "job_ok lib ?n j" by (rule running_job_ok [OF tok t(2)])
  have "runner_job lib ?n CIp (networkClient j) r" by (rule fine_invD [OF inv r]) (use t in simp)
  then have "server_cipher lib ?n (shared_transmission_iv ?n) CIp'"
    using tok j CIp' by (auto simp: runner_job_def thread_ok_def job_ok_def client_ok_def greeting_iv_def)
  then have "thread_ok lib ?n (t', CIp')" by (rule thread_ok_loop [OF tok assms(5)])
  then have "system_inv lib ((sys f)\<lparr>pool := set_thread k (t', CIp') (pool (sys f))\<rparr>)"
    using sys by (simp add: system_inv_def pool_ok_set_thread)
  moreover have "\<exists>t. thread_at (set_thread k (t', CIp') (pool (sys f))) k' = Some (t, CI)
      \<and> tpc t = T_run i"
    if "k' \<noteq> k" "thread_at (pool (sys f)) k' = Some (s, CI)" "tpc s = T_run i" for k' s CI i
    using that by (auto simp: thread_at_iff set_thread_def)
  ultimately show ?thesis by (intro fine_invI [OF _ _ inv]) (auto simp: same_settings_def split: if_splits)
qed

lemma fine_inv_step:
  assumes "fine_step lib f f'" and inv: "fine_inv lib f"
    and law: "\<And>t. mcrypt_enc_set_state lib t (mcrypt_enc_get_state lib t) = t"
  shows "fine_inv lib f'"
  using assms(1)
proof (cases rule: fine_stepE [consumes 1, case_names shared begun skipped goes_on finished])
  case (shared s)
  from system_inv_step [OF fine_inv_sys(1) [OF inv] shared(2)]
    system_step_settings [OF shared(2) fine_inv_sys(1) [OF inv]] shared(1,3)
  show ?thesis by (intro fine_invI [OF _ _ inv]) (auto simp: jobs_stay_def)
next
  case (begun k t CIp j alloc r)
  note ok = fine_inv_sys [OF inv]
  have tok: "thread_ok lib (net (event_loop (sys f))) (t, CIp)" by (rule thread_okD [OF ok(3) begun(2)])
  have "runner_job lib (net (event_loop (sys f))) CIp (networkClient j) r"
    using job_begin_ok [OF tok begun(3), of alloc] begun(6) ok(2) by (metis net_ok_def option.inject)
  with begun(1-3) ok(1) show ?thesis by (intro fine_invI [OF _ _ inv]) (auto simp: same_settings_def split: if_splits)
next
  case (skipped k t CIp j t')
  note ok = fine_inv_sys [OF inv]
  have tok: "thread_ok lib (net (event_loop (sys f))) (t, CIp)" by (rule thread_okD [OF ok(3) skipped(2)])
  with running_job_ok [OF tok skipped(3)] have "job_runs CIp j"
    by (auto simp: job_runs_def job_ok_def thread_ok_def cipher_of_def)
  with skipped(5) show ?thesis by simp
next
  case (goes_on k r env r' n w)
  from fine_inv_goes_on [OF inv goes_on(2) goes_on(4) law] goes_on(1) show ?thesis by simp
next
  case (finished k t CIp j r t')
  from fine_inv_finished [OF inv finished(2,3,4,6) refl] finished(1) show ?thesis by simp
qed

lemma fine_reach_inv:
  assumes "fine_reach lib tmem cfg f" "started_ok lib tmem cfg"
    and law: "\<And>t. mcrypt_enc_set_state lib t (mcrypt_enc_get_state lib t) = t"
  shows "fine_inv lib f"
  using assms(1)
proof (induction rule: fine_reach.induct)
  case (start s)
  from system_start_inv [OF this assms(2)] show ?case by (simp add: fine_inv_def)
next
  case (step f f')
  show ?case by (rule fine_inv_step [OF step.hyps(2) step.IH law])
qed

section \<open>Properties\<close>

text \<open>
  What can come next is defined: the callbacks and jobs of \<open>system_defined\<close>, the begin of a job, whether
  the state buffer can be allocated or not, and every step of a thread at work, whatever the system answers.
\<close>

definition fine_defined :: "'td mcrypt \<Rightarrow> 'td fine \<Rightarrow> bool" where
  "fine_defined lib f \<longleftrightarrow> system_defined lib (sys f)
     \<and> (\<forall>k t CIp j alloc. thread_at (pool (sys f)) k = Some (t, CIp) \<longrightarrow> tpc t = T_run j \<longrightarrow>
          job_runs CIp j \<and> job_begin alloc (net (event_loop (sys f))) CIp j \<noteq> None)
     \<and> (\<forall>k r env. running f k = Some r \<longrightarrow>
          runner_step lib env k (r, net (event_loop (sys f)), w_world (event_loop (sys f))) \<noteq> None)"

lemma job_can_begin:
  assumes "fine_inv lib f" "thread_at (pool (sys f)) k = Some (t, CIp)" "tpc t = T_run j"
  shows "job_runs CIp j \<and> job_begin alloc (net (event_loop (sys f))) CIp j \<noteq> None"
proof -
  note ok = fine_inv_sys [OF assms(1)]
  have tok: "thread_ok lib (net (event_loop (sys f))) (t, CIp)" by (rule thread_okD [OF ok(3) assms(2)])
  with running_job_ok [OF tok assms(3)] have "job_runs CIp j"
    by (auto simp: job_runs_def job_ok_def thread_ok_def cipher_of_def)
  moreover have "job_begin alloc (net (event_loop (sys f))) CIp j \<noteq> None"
    using job_begin_ok [OF tok assms(3), of alloc] ok(2) by (metis net_ok_def option.discI)
  ultimately show ?thesis ..
qed

lemma fine_inv_defined:
  assumes "fine_inv lib f" and law: "\<And>t. mcrypt_enc_set_state lib t (mcrypt_enc_get_state lib t) = t"
  shows "fine_defined lib f"
proof -
  note ok = fine_inv_sys [OF assms(1)]
  have "runner_step lib env k (r, net (event_loop (sys f)), w_world (event_loop (sys f))) \<noteq> None"
    if r: "running f k = Some r" for k r env
  proof -
    obtain t CIp j where j: "thread_at (pool (sys f)) k = Some (t, CIp)" "tpc t = T_run j"
        "runner_job lib (net (event_loop (sys f))) CIp (networkClient j) r"
      by (rule fine_invD [OF assms(1) r])
    show ?thesis by (rule runner_step_defined [OF j(3) ok(2) thread_number [OF ok(3) j(1)] law])
  qed
  with system_inv_defined [OF ok(1) law] job_can_begin [OF assms(1)] show ?thesis unfolding fine_defined_def by blast
qed


text \<open>A worker whose thread has begun the job of a client with one packet.\<close>

lemma ex_fine_running:
  obtains f :: "byte fine" and r p where "fine_reach feedback_cipher (\<lambda>_ _. True) ex_settings f" "running f 0 = Some r"
    "rn_phase r = Round 1" "rn_left r = [p]" "receive_packet p = replicate sizeof_data_packet 0"
    "packet_length p = sizeof_data_packet" "decryption_method (net (event_loop (sys f))) = 0"
proof -
  obtain s :: "byte system" and CIp c t where s: "system_reach feedback_cipher (\<lambda>_ _. True) ex_settings s"
    "crypt_threads (pool s) = Some [(t, CIp)]" "tpc t = T_run (decrypt_job c)"
    "data_packets c = as_queue [replicate sizeof_data_packet 0]" "decryption_method (net (event_loop s)) = 0"
    by (rule ex_system_running [OF length_replicate])
  let ?f = "\<lparr>sys = s, running = Map.empty\<rparr>"
  have reach: "fine_reach feedback_cipher (\<lambda>_ _. True) ex_settings ?f" by (rule system_reach_fine [OF s(1)])
  have at: "thread_at (pool (sys ?f)) 0 = Some (t, CIp)" using s(2) by (simp add: thread_at_def)
  have b: "job_runs CIp (decrypt_job c)" "job_begin True (net (event_loop s)) CIp (decrypt_job c) \<noteq> None"
    using job_can_begin [OF fine_reach_inv [OF reach ex_settings_started feedback_state_law] at s(3), of True] by simp_all
  then obtain r where r: "job_begin True (net (event_loop (sys ?f))) CIp (decrypt_job c) = Some r" by auto
  have "fine_step feedback_cipher ?f (?f\<lparr>running := (running ?f)(0 \<mapsto> r)\<rparr>)"
    by (rule fine_step.begun [OF at s(3) _ b(1) r]) simp
  from fine_reach.step [OF reach this] r s(4,5) show thesis
    by (intro that [of "?f\<lparr>running := (running ?f)(0 \<mapsto> r)\<rparr>" r])
      (auto simp: job_begin_def queue_begin_def Let_def set_CI_def as_queue_def decrypt_job_def)
qed


text \<open>C13: Whatever callbacks and other threads do between the rounds of a thread, the thread that is at a job works
  as if it were alone: in its \<open>i\<close>-th round it decrypts the \<open>i\<close>-th packet of the client to the bytes which
  decrypting the client's whole queue on its own gives there, delivers exactly the check in them when they
  are accepted, counts the packet once, and otherwise leaves FIFOs and files alone and ends the loop; in front of
  the \<open>i\<close>-th round \<open>i - 1\<close> packets are counted, and after the loop all up to the first rejected one.\<close>

theorem rounds_as_alone:
  assumes "fine_reach lib tmem cfg f" "started_ok lib tmem cfg"
    and "\<And>t. mcrypt_enc_set_state lib t (mcrypt_enc_get_state lib t) = t"
    and "running f k = Some r" "event_loop (sys f) = e" "net e = n"
  shows "\<exists>t CIp j. thread_at (pool (sys f)) k = Some (t, CIp) \<and> tpc t = T_run j
    \<and> (\<forall>i. rn_phase r = Round i \<longrightarrow> counted_packets r = int (i - 1)
        \<and> rn_left r = drop (i - 1) (data_packets (networkClient j))
        \<and> (\<forall>p ps env. rn_left r = p # ps \<longrightarrow>
            (\<exists>bs v b s'. drop (i - 1) (decoded_alone lib n CIp (networkClient j))
                = (packet_length p, bs) # drop i (decoded_alone lib n CIp (networkClient j))
              \<and> check_packet n (packet_length p) bs = (v, b)
              \<and> runner_step lib env k (r, n, w_world e) = Some s'
              \<and> round_effect env k b v i (r, n, w_world e) s')))
    \<and> ((\<forall>i. rn_phase r \<noteq> Round i) \<longrightarrow> loop_over (networkClient j) r)"
proof -
  have inv: "fine_inv lib f" by (rule fine_reach_inv [OF assms(1-3)])
  note ok = fine_inv_sys [OF inv, unfolded assms(5,6)]
  obtain t CIp j where j: "thread_at (pool (sys f)) k = Some (t, CIp)" "tpc t = T_run j"
      "runner_job lib n CIp (networkClient j) r"
    using fine_invD [OF inv assms(4)] assms(5,6) by metis
  let ?alone = "decoded_alone lib n CIp (networkClient j)"
  have "\<exists>bs v b s'. drop (i - 1) ?alone = (packet_length p, bs) # drop i ?alone \<and> check_packet n (packet_length p) bs = (v, b)
      \<and> runner_step lib env k (r, n, w_world e) = Some s' \<and> round_effect env k b v i (r, n, w_world e) s'"
    if "rn_phase r = Round i" "rn_left r = p # ps" for i p ps env
    using round_of_job [OF that j(3) ok(2) thread_number [OF ok(3) j(1)] assms(3), of env "w_world e"] by metis
  moreover have "phase_ok lib n CIp (networkClient j) r" using j(3) by (simp add: runner_job_def)
  ultimately show ?thesis using j(1,2)
    by (intro exI [of _ t] exI [of _ CIp] exI [of _ j])
      (auto simp: phase_ok_def round_ok_def split: phase.splits)
qed

lemma rounds_as_alone_witness:
  "\<exists>(f :: byte fine) r. fine_reach feedback_cipher (\<lambda>_ _. True) ex_settings f \<and> running f 0 = Some r \<and> rn_phase r = Round 1
     \<and> counted_packets r = 0
     \<and> (\<forall>env. \<exists>r' n' w'. runner_step feedback_cipher env 0 (r, net (event_loop (sys f)), w_world (event_loop (sys f)))
           = Some (r', n', w')
         \<and> rn_phase r' = Load_success \<and> d_failed (rn_client r') = d_failed (rn_client r) + 1)"
proof -
  let ?bs = "replicate sizeof_data_packet 0 :: byte list"
  obtain f :: "byte fine" and r p where f: "fine_reach feedback_cipher (\<lambda>_ _. True) ex_settings f" "running f 0 = Some r"
      "rn_phase r = Round 1" "rn_left r = [p]" "receive_packet p = ?bs" "decryption_method (net (event_loop (sys f))) = 0"
    by (rule ex_fine_running)
  let ?n = "net (event_loop (sys f))" and ?w = "w_world (event_loop (sys f))"
  from rounds_as_alone [OF f(1) ex_settings_started feedback_state_law f(2) refl refl]
  obtain CIp and j :: "byte job" where
    all: "\<forall>i. rn_phase r = Round i \<longrightarrow> counted_packets r = int (i - 1) \<and> rn_left r = drop (i - 1) (data_packets (networkClient j))
      \<and> (\<forall>q qs env. rn_left r = q # qs \<longrightarrow>
        (\<exists>bs v b s'. drop (i - 1) (decoded_alone feedback_cipher ?n CIp (networkClient j))
            = (packet_length q, bs) # drop i (decoded_alone feedback_cipher ?n CIp (networkClient j))
          \<and> check_packet ?n (packet_length q) bs = (v, b) \<and> runner_step feedback_cipher env 0 (r, ?n, ?w) = Some s'
          \<and> round_effect env 0 b v i (r, ?n, ?w) s'))"
    by (elim exE conjE) (rule that)
  have j: "counted_packets r = 0" "rn_left r = data_packets (networkClient j)" using all f(3) by simp_all
  have round: "\<exists>bs v b s'. decoded_alone feedback_cipher ?n CIp (networkClient j)
            = (packet_length p, bs) # drop 1 (decoded_alone feedback_cipher ?n CIp (networkClient j))
          \<and> check_packet ?n (packet_length p) bs = (v, b) \<and> runner_step feedback_cipher env 0 (r, ?n, ?w) = Some s'
          \<and> round_effect env 0 b v 1 (r, ?n, ?w) s'" for env
    using all [rule_format, OF f(3), THEN conjunct2, THEN conjunct2, rule_format, OF f(4), of env] by simp
  have "decoded_alone feedback_cipher ?n CIp (networkClient j) = [(packet_length p, ?bs)]"
    using f(5,6) by (simp add: decoded_alone_def queue_decoded_def decoded_plain_def plain_decode_def nsca_consts
        flip: j(2)) (simp add: f(4,5) nsca_consts split: option.split)
  moreover have "check_packet ?n (packet_length p) ?bs = (Bad_version, ?bs)"
    by (simp add: check_packet_def be16_def nsca_consts)
  ultimately have "\<exists>s'. runner_step feedback_cipher env 0 (r, ?n, ?w) = Some s'
      \<and> round_effect env 0 ?bs Bad_version 1 (r, ?n, ?w) s'" for env
    using round [of env] by auto
  then have "\<exists>r' n' w'. runner_step feedback_cipher env 0 (r, ?n, ?w) = Some (r', n', w')
      \<and> rn_phase r' = Load_success \<and> d_failed (rn_client r') = d_failed (rn_client r) + 1" for env
    by (fastforce simp: round_effect_def)
  with f(1-3) j(1) show ?thesis by (intro exI [of _ f] exI [of _ r]) simp
qed

end
