(* ===== verification/Nsca_Origin.thy ===== *)
theory Nsca_Origin
  imports Nsca_Fine
begin

text \<open>
  Where what the monitoring core sees comes from: of all the steps a worker can take (\<open>fine_step\<close>), only
  the delivery of a check from an accepted packet writes to the FIFO or the spool directory; besides
  these the statistics file is the only thing outside the process a worker changes.
\<close>

section \<open>Steps that leave the outside alone\<close>

definition same_outside :: "stat_writer \<Rightarrow> world \<Rightarrow> world \<Rightarrow> bool" where
  "same_outside sw w w' \<longleftrightarrow>
     pipe w' = pipe w \<and> umask w' = umask w \<and> (\<forall>f. f \<noteq> path_stat sw \<longrightarrow> fs w' f = fs w f)"

lemma same_outside_refl [simp]: "same_outside sw w w"
  by (simp add: same_outside_def)

lemma timer_outside:
  "timer_proxy e f t ct n w = (n', w') \<Longrightarrow> same_outside (StatWriter n) w w'"
  by (auto simp: timer_proxy_def timer_tick_def save_statistics_def save_stats_def open_trunc_def same_outside_def
      Let_def case_prod_beta split: if_splits option.splits)

lemma callback_outside:
  assumes "worker_step lib e e'" "handed e = []"
  shows "same_outside (StatWriter (net e)) (w_world e) (w_world e')"
  using assms(1)
proof (cases rule: worker_stepE
    [consumes 1, case_names accept accept_fails recv recv_refused send close process timer sigint])
  case (timer t f tn ct n w)
  from timer_outside [OF timer(3)] timer(1) show ?thesis by simp
qed (use assms(2) in simp_all)

text \<open>The event loop processes a queue itself when there are no threads.\<close>

definition delivers_queue ::
    "'td mcrypt \<Rightarrow> 'td network \<Rightarrow> 'td network_client \<Rightarrow> world \<Rightarrow> world \<Rightarrow> bool" where
  "delivers_queue lib n c w w' \<longleftrightarrow>
     (\<exists>env n' gb. deliver_spec env 0 1
        (map packet_check (accepted_prefix n (queue_decoded lib n (client_instance n c) (data_packets c))))
        (n, (0, 0), w) = (n', gb, w'))"

lemma process_queue_no_buffer:
  assumes "process_queue lib False env tid CIp (n, c, w) = Some (CIp', n', c', w')" "1 < decryption_method n"
  shows "w' = w"
  using assms by (auto simp: process_queue_def process_queue_mcrypt_def split: option.splits)

lemma process_queue_buffer:
  "\<not> 1 < decryption_method n \<Longrightarrow> process_queue lib alloc env tid CIp (n, c, w) = process_queue lib True env tid CIp (n, c, w)"
  by (simp add: process_queue_def)

lemma at_once_delivers:
  assumes "closed_ok lib n c" "net_ok lib n" "nsca_threads_per_worker n = 0"
    and law: "\<And>t. mcrypt_enc_set_state lib t (mcrypt_enc_get_state lib t) = t"
    and pq: "process_queue lib alloc env 0 (client_instance n c) (n, c, w) = Some (CIp, n', c', w')"
  shows "w' = w \<or> delivers_queue lib n c w w'"
proof (cases "alloc \<or> \<not> 1 < decryption_method n")
  case True
  then have pq: "process_queue lib True env 0 (client_instance n c) (n, c, w) = Some (CIp, n', c', w')"
    using pq process_queue_buffer [of n lib alloc] by auto
  have ready: "cipher_ready n (client_instance n c)"
    using client_instance_cipher [OF assms(1-3)] assms(2) cipher_of_ready by (fastforce simp: net_ok_def)
  have fifo: "fifos_ok 0 n" using assms(2,3) fifos_all_ok [of 1 n 0] by (simp add: net_ok_def)
  have c: "d_success c = 0" "d_failed c = 0" using assms(1) by (simp_all add: closed_ok_def client_ok_def)
  let ?D = "queue_decoded lib n (client_instance n c) (data_packets c)"
  obtain n1 g b w1 where d: "deliver_spec env 0 1 (map packet_check (accepted_prefix n ?D)) (n, (0, 0), w) = (n1, (g, b), w1)"
    by (metis prod_cases3 surj_pair)
  then have "loop_spec env 0 1 ?D (n, (d_success c, d_failed c), w)
      = (n1, (g, if length (accepted_prefix n ?D) = length ?D then b else b + 1), w1)"
    using c by (simp add: loop_spec_def)
  from process_queue_refines [OF ready fifo law this] pq have "w' = w1" by auto
  with d show ?thesis by (auto simp: delivers_queue_def)
next
  case False
  with pq process_queue_no_buffer [of lib env 0] show ?thesis by auto
qed

section \<open>Every step of a worker\<close>

text \<open>A thread delivers the check of the packet it is at.\<close>

definition delivers_packet :: "'td mcrypt \<Rightarrow> 'td fine \<Rightarrow> world \<Rightarrow> world \<Rightarrow> bool" where
  "delivers_packet lib f w w' \<longleftrightarrow>
     (\<exists>k r i p ps t CIp j bs b env n' ok.
        running f k = Some r \<and> rn_phase r = Round i \<and> rn_left r = p # ps
        \<and> thread_at (pool (sys f)) k = Some (t, CIp) \<and> tpc t = T_run j
        \<and> drop (i - 1) (decoded_alone lib (net (event_loop (sys f))) CIp (networkClient j))
            = (packet_length p, bs) # drop i (decoded_alone lib (net (event_loop (sys f))) CIp (networkClient j))
        \<and> check_packet (net (event_loop (sys f))) (packet_length p) bs = (Accepted, b)
        \<and> send_result env k (packet_check b) (net (event_loop (sys f))) w = (n', ok, w'))"

lemma runner_outside:
  assumes inv: "fine_inv lib f" and r: "running f k = Some r"
    and step: "runner_step lib env k (r, net (event_loop (sys f)), w) = Some (r', n', w')"
    and law: "\<And>t. mcrypt_enc_set_state lib t (mcrypt_enc_get_state lib t) = t"
  shows "w' = w \<or> delivers_packet lib f w w'"
proof (cases "\<exists>i p ps. rn_phase r = Round i \<and> rn_left r = p # ps")
  case True
  then obtain i p ps where ph: "rn_phase r = Round i" "rn_left r = p # ps" by blast
  let ?n = "net (event_loop (sys f))"
  note ok = fine_inv_sys [OF inv]
  obtain t CIp j where j: "thread_at (pool (sys f)) k = Some (t, CIp)" "tpc t = T_run j"
      "runner_job lib ?n CIp (networkClient j) r"
    by (rule fine_invD [OF inv r])
  obtain bs v b r1 n1 w1 where
      alone: "drop (i - 1) (decoded_alone lib ?n CIp (networkClient j))
        = (packet_length p, bs) # drop i (decoded_alone lib ?n CIp (networkClient j))"
    and chk: "check_packet ?n (packet_length p) bs = (v, b)"
    and "runner_step lib env k (r, ?n, w) = Some (r1, n1, w1)" "round_effect env k b v i (r, ?n, w) (r1, n1, w1)"
    by (rule round_of_job [OF ph j(3) ok(2) thread_number [OF ok(3) j(1)] law, of env w]) (rule that)
  with step have eff: "round_effect env k b v i (r, ?n, w) (r', n', w')" by simp
  show ?thesis
  proof (cases "v = Accepted")
    case True
    with eff obtain ok where "send_result env k (packet_check b) ?n w = (n', ok, w')" by (auto simp: round_effect_def)
    with r ph j(1,2) alone chk True show ?thesis unfolding delivers_packet_def by blast
  next
    case False
    with eff show ?thesis by (simp add: round_effect_def)
  qed
next
  case False
  with runner_step_report [OF step] show ?thesis by blast
qed

lemma closing_outside:
  assumes "system_inv lib s" "i < length (conns (event_loop s))"
    and e: "eventcb lib mem alloc (generator (event_loop s)) (net (event_loop s)) (conns (event_loop s) ! i)
      = Some (n, r, Process c)"
    and pq: "process_queue lib alloc' env 0 (client_instance n c) (n, c, w_world (event_loop s)) = Some (CIp, n', c', w')"
    and law: "\<And>t. mcrypt_enc_set_state lib t (mcrypt_enc_get_state lib t) = t"
  shows "w' = w_world (event_loop s) \<or> delivers_queue lib n c (w_world (event_loop s)) w'"
proof -
  note inv = system_invD [OF assms(1)]
  have st: "statics n = statics (net (event_loop s))" by (rule statics_eventcb [OF e])
  have ci: "conn_ok (net (event_loop s)) (conns (event_loop s) ! i)" using inv(3) assms(2) by (simp add: list_all_length)
  note closed = eventcb_closed [OF e _ ci inv(2), of c]
  have "closed_ok lib n c" using closed(1) closed_ok_same [OF st] by simp
  moreover have n: "net_ok lib n" using inv(2) statics_net_ok [OF st] by simp
  moreover have "nsca_threads_per_worker n = 0"
    using closed(2) inv(2) statics_eqD(2) [OF st] by (simp add: net_ok_def)
  ultimately show ?thesis by (rule at_once_delivers [OF _ _ _ law pq])
qed

lemma shared_outside:
  assumes "system_step lib s s'" "jobs_stay (pool s) (pool s')" "system_inv lib s"
    and law: "\<And>t. mcrypt_enc_set_state lib t (mcrypt_enc_get_state lib t) = t"
  shows "same_outside (StatWriter (net (event_loop s))) (w_world (event_loop s)) (w_world (event_loop s'))
    \<or> (\<exists>i mem alloc n r c. i < length (conns (event_loop s))
        \<and> eventcb lib mem alloc (generator (event_loop s)) (net (event_loop s)) (conns (event_loop s) ! i)
            = Some (n, r, Process c)
        \<and> delivers_queue lib n c (w_world (event_loop s)) (w_world (event_loop s')))"
  using assms(1)
proof (cases rule: system_stepE [consumes 1, case_names callback to_thread at_once thread_moves
      thread_wakes thread_notified thread_runs])
  case (callback e)
  from callback_outside [OF callback(2) system_invD(1) [OF assms(3)]] callback(1) show ?thesis by simp
next
  case (at_once i mem alloc n r c alloc' env CIp n' c' w)
  from closing_outside [OF assms(3) at_once(2,3,4) law] at_once show ?thesis by auto
next
  case (thread_runs k t CIp j alloc env CIp' n w t')
  have "tpc t' = T_test" using thread_runs(3,5) by (auto simp: ct_loop_step_def)
  moreover have "thread_at (pool s') k = Some (t', CIp')"
    using thread_runs(1,2) by (auto simp: thread_at_iff set_thread_def)
  moreover obtain t2 where "thread_at (pool s') k = Some (t2, CIp)" "tpc t2 = T_run j"
    using assms(2) thread_runs(2,3) unfolding jobs_stay_def by blast
  ultimately show ?thesis by simp
qed simp_all

section \<open>Property\<close>

text \<open>C5: Whatever a worker does, in any interleaving of its event loop and its threads, the monitoring core sees only
  checks from accepted packets: a step that changes anything outside the process but the statistics file is the
  delivery of the check in the packet a thread is at, which is the decryption the client's queue has
  there and has passed the tests of version, checksum and age; or, without threads, the delivery of the
  accepted prefix of the queue of a connection that ends.\<close>

theorem core_sees_accepted_checks:
  assumes "fine_reach lib tmem cfg f" "started_ok lib tmem cfg"
    and "\<And>t. mcrypt_enc_set_state lib t (mcrypt_enc_get_state lib t) = t"
    and "fine_step lib f f'" "event_loop (sys f) = e" "w_world (event_loop (sys f')) = w'"
  shows "same_outside (StatWriter (net e)) (w_world e) w'
    \<or> delivers_packet lib f (w_world e) w'
    \<or> (\<exists>i mem alloc n r c. i < length (conns e)
        \<and> eventcb lib mem alloc (generator e) (net e) (conns e ! i) = Some (n, r, Process c)
        \<and> delivers_queue lib n c (w_world e) w')"
  using assms(4)
proof (cases rule: fine_stepE [consumes 1, case_names shared begun skipped goes_on finished])
  case (shared s)
  note inv = fine_reach_inv [OF assms(1-3)]
  from shared_outside [OF shared(2,3) fine_inv_sys(1) [OF inv] assms(3)] shared(1) assms(5,6) show ?thesis by auto
next
  case (goes_on k r env r' n w)
  from runner_outside [OF fine_reach_inv [OF assms(1-3)] goes_on(2,4) assms(3)] goes_on(1) assms(5,6)
  show ?thesis by auto
qed (use assms(5,6) in simp_all)

lemma core_sees_accepted_checks_witness:
  "\<exists>(f :: byte fine) f' r. fine_reach feedback_cipher (\<lambda>_ _. True) ex_settings f \<and> running f 0 = Some r
     \<and> rn_left r \<noteq> [] \<and> fine_step feedback_cipher f f'
     \<and> (same_outside (StatWriter (net (event_loop (sys f)))) (w_world (event_loop (sys f))) (w_world (event_loop (sys f')))
        \<or> delivers_packet feedback_cipher f (w_world (event_loop (sys f))) (w_world (event_loop (sys f')))
        \<or> (\<exists>i mem alloc n r c. i < length (conns (event_loop (sys f)))
            \<and> eventcb feedback_cipher mem alloc (generator (event_loop (sys f))) (net (event_loop (sys f)))
                (conns (event_loop (sys f)) ! i) = Some (n, r, Process c)
            \<and> delivers_queue feedback_cipher n c (w_world (event_loop (sys f))) (w_world (event_loop (sys f')))))"
proof -
  fix env :: send_env
  obtain f :: "byte fine" and r p where f: "fine_reach feedback_cipher (\<lambda>_ _. True) ex_settings f" "running f 0 = Some r"
      "rn_phase r = Round 1" "rn_left r = [p]" by (rule ex_fine_running)
  let ?e = "event_loop (sys f)"
  have "fine_defined feedback_cipher f"
    by (rule fine_inv_defined [OF fine_reach_inv [OF f(1) ex_settings_started feedback_state_law] feedback_state_law])
  then have "runner_step feedback_cipher env 0 (r, net ?e, w_world ?e) \<noteq> None"
    using f(2) unfolding fine_defined_def by blast
  then obtain r' n w where step: "runner_step feedback_cipher env 0 (r, net ?e, w_world ?e) = Some (r', n, w)"
    by (metis option.exhaust prod_cases3)
  have "rn_phase r \<noteq> Reported" using f(3) by simp
  from fine_step.goes_on [OF refl f(2) this step] obtain f' where f': "fine_step feedback_cipher f f'" by blast
  from core_sees_accepted_checks [OF f(1) ex_settings_started feedback_state_law f' refl refl] f f' show ?thesis
    by (intro exI [of _ f] exI [of _ f'] exI [of _ r]) simp
qed

end
