(* ===== verification/Spec2Isabelle.thy ===== *)
theory Spec2Isabelle
  imports Nsca_System_Delivery Nsca_Counters Nsca_Writers Nsca_Origin
begin

text \<open>
  \<^bold>\<open>nsca\_fast: a verification development of the daemon.\<close>

  The program (C++, libevent, libmcrypt) is a server for passive checks of a monitoring system.
  Clients connect, get a greeting with an IV and a time, send encrypted packets of 4304 bytes (or
  one of 720 bytes, the old protocol) and close; the server decrypts the packets, checks version,
  CRC-32 and age, and hands each result to the monitoring core, by its command FIFO or by a file in
  its spool directory. A master process keeps several worker processes alive; a worker is one event
  loop and, if configured, threads that process the queues of closed connections.

  \<^bold>\<open>Parts and theories.\<close> Paths are below \<open>src/\<close>.
  \<^item> \<open>Nsca_Prelude\<close>: words, bytes and strings of C, \<open>snprintf\<close>, decimal printing, \<open>strtol\<close>.
  \<^item> \<open>Nsca_Crc32\<close> (\<open>nsca_utils.cpp\<close>): the table and the checksum on 64-bit words. It computes the
    bit-serial CRC-32, and a burst of up to four bytes changes it.
  \<^item> \<open>Nsca_Crypt\<close> (\<open>nsca_utils.cpp\<close>): crypt instance, \<open>encrypt_init\<close>, the two buffer routines, the
    clean-up, the IV generators. libmcrypt is the record \<open>mcrypt\<close> of the calls the code makes, and
    the locale \<open>stream_cipher\<close> is what the loops need of a cipher; the code's exclusive or is its
    interpretation. Decryption inverts encryption.
  \<^item> \<open>Nsca_Packet\<close> (\<open>nsca_common.h\<close>): the layout of \<open>data_packet\<close>, and the encoder a client would use.
  \<^item> \<open>Nsca_World\<close>: the FIFO and the spool directory as the monitoring core sees them, the locales
    \<open>result_sink\<close> (one back end) and \<open>fallback_sinks\<close> (a first one and a second for what it refuses).
  \<^item> \<open>Nsca_Fifo\<close> (\<open>fifo_client.cpp\<close>), \<open>Nsca_Result_Writer\<close> and \<open>Nsca_Result_Path\<close>
    (\<open>result_path_client.cpp\<close>, and \<open>result_path_writer.cpp\<close>, a copy that is not built): the two
    back ends, each an interpretation of \<open>result_sink\<close>, and the count of files kept by inotify.
    \<open>Nsca_Writers\<close>: the writes of several threads, interleaved around the process's one \<open>umask\<close>.
  \<^item> \<open>Nsca_Config\<close> (\<open>config.cpp\<close>): \<open>trim\<close>, the parser, the store (locale \<open>config_store\<close>), \<open>check_config\<close>.
  \<^item> \<open>Nsca_Stats\<close> (\<open>stat_writer.cpp\<close>), \<open>Nsca_Log\<close> (\<open>log.cpp\<close>).
  \<^item> \<open>Nsca_Network\<close> (\<open>network.cpp\<close>): the state of a worker, constructor, address, timer, statistics, shutdown.
  \<^item> \<open>Nsca_Client\<close> (\<open>network_client.cpp\<close>): a connection, from accept to the delivery of its results;
    the record \<open>network_client\<close> and one definition for each member function.
  \<^item> \<open>Nsca_Receive\<close>: the callbacks of one connection as a step relation (\<open>conn_reach\<close>) and its
    invariant; \<open>Nsca_Worker\<close>: a whole worker (\<open>worker_step\<close>) and its counter of connections.
  \<^item> \<open>Nsca_Delivery\<close>: what processing a queue means (\<open>loop_spec\<close>: decode, take the accepted prefix,
    deliver it in order), and the refinement of both loops of the code to it; the interpretation
    \<open>sinks\<close> of \<open>fallback_sinks\<close> on the two back ends. \<open>Nsca_Protocol\<close>: sender and receiver together.
    \<open>Nsca_Session\<close>: whole connections.
  \<^item> \<open>Nsca_Threads\<close> (\<open>crypt_thread_t.cpp\<close>, \<open>threadManager.cpp\<close>): a thread's loop with \<open>add\<close> and \<open>join\<close>
    as interleaved steps, the manager and its round robin (locale \<open>job_queue\<close>).
  \<^item> \<open>Nsca_Process\<close> (\<open>processManager.cpp\<close>): workers, signals, the loop of the master, limits and privileges.
  \<^item> \<open>Nsca_Main\<close> (\<open>main.cpp\<close>): options, settings, the start of the daemon, start and end of \<open>work\<close>.
  \<^item> \<open>Nsca_System\<close>: a worker process as a whole, its event loop and its threads as one step relation
    (\<open>system_step\<close>), from \<open>work\<close> on. \<open>Nsca_Handshake\<close>: an instance made from a password and an IV
    (\<open>cipher_of\<close>), what use keeps of it, and that two of them are in step; the law of libmcrypt the
    code relies on (\<open>cipher_laws\<close>). \<open>Nsca_System_Inv\<close>: the invariant of the system (\<open>system_inv\<close>: the
    instance every client will be decrypted with is made from the IV of its greeting, every thread
    has its FIFO client, the round robin stays in the array). \<open>Nsca_System_Refine\<close>: every reachable
    state is defined, the system implements \<open>worker_step\<close>, and the threads can always finish.
  \<^item> \<open>Nsca_Parallel\<close>: the threads at work at the same time, cut into the rounds of their loops and the
    loads and stores of \<open>report_success_failed\<close>, and their refinement of \<open>deliveries_step\<close>, single
    deliveries in the order of each thread. \<open>Nsca_Counters\<close>: what the unlocked counters can show.
    \<open>Nsca_Fine\<close>: the whole worker in these steps (\<open>fine_step\<close>: callbacks, new jobs and the rounds of
    all threads alternate), which contains every run of \<open>system_step\<close>, and its invariant: each thread
    decrypts what it would decrypt alone, and nothing is undefined. \<open>Nsca_Origin\<close>: of all these steps
    only the delivery of an accepted packet is seen by the monitoring core.
  \<^item> \<open>Nsca_Program\<close> (\<open>main.cpp\<close>): the whole of \<open>main\<close> up to the exit status, help and exit handler, and
    the way from the command line to the states of a worker. \<open>Nsca_System_Delivery\<close>: from the command
    line to the monitoring core.
  \<^item> \<open>Nsca_Examples\<close>: concrete objects for the examples.

  \<^bold>\<open>How the model corresponds to the code.\<close> Every class is a record with the members of the class,
  every member function a definition of nearly the same name that takes and returns the objects it
  changes. Integers have the width of the code where it matters (\<open>u16\<close>, \<open>u32\<close>, \<open>u64\<close>, \<open>c_int\<close> for
  a conversion to \<open>int\<close>). What the system answers (descriptors, times, process ids, whether a call
  succeeds) is an argument, so that every error path is a branch; a result of \<open>None\<close> is undefined
  behaviour, \<open>Inl\<close> an exit status, an error code or an exception. Calls that only matter to the
  outside (signals, changes of identity, watches, what is freed) are returned as lists.
  Singletons are arguments.

  \<^bold>\<open>What is shown\<close>, beside the properties numbered below and in the other theories:
  \<^item> this theory: end to end, what a sender seals is delivered, in order and once, and what is damaged,
    too old or rejected leaves no trace; the conditions (packets that arrive in time) are sharp;
  \<^item> invariants of a connection, a worker, a thread, the master and the spool count over all
    reachable states, by rule induction on the step relations;
  \<^item> the composition: the event loop with its threads refines the worker relation, in which any client
    that was handed over may be processed at any time, and never runs into undefined behaviour, for
    all settings \<open>main\<close> accepts whose cipher can be opened; threads that work at the same time deliver
    what each would deliver alone, but can lose counts; nothing else ever reaches the core;
  \<^item> functional behaviour and error paths of the two back ends, of parsing and checking the
    configuration, and of the start of the daemon;
  \<^item> where the code does not do what it means to, a theorem about what it does.

  \<^bold>\<open>Bounds.\<close> Loops of the code are structural recursion, except for \<open>rtrim\<close>, \<open>read_config\<close> and the parser
  of inotify events, which have a measure. The master's loop takes a list of rounds: 15 are enough
  after a shutdown request. A thread needs four steps of its own for each job.

  \<^bold>\<open>Not modelled.\<close> libmcrypt's algorithms, libevent's dispatch (the step relations allow any order of
  callbacks), sockets, the peer's address (only logged), log lines at the places where they are
  written, and destructors that only release memory. \<open>bytes_received\<close> is a natural number (it would
  wrap after \<open>2^64\<close> bytes), and the two updates of \<open>workers_running\<close> by the main flow and a handler are
  atomic. The processing of one queue by a thread is one step of \<open>system_step\<close>; \<open>Nsca_Parallel\<close> and
  \<open>Nsca_Fine\<close> cut it into rounds, and there one delivery is still one step (the spool files and the \<open>umask\<close> are cut
  further in \<open>Nsca_Writers\<close>) and the memory is sequentially consistent: a data race is undefined
  behaviour for the language, and the model shows what is left when loads and stores behave.
  \<open>system_step\<close> ends with the event loop;
  \<open>work_end\<close> is what follows.
\<close>

section \<open>From the wire to the monitoring core\<close>



text \<open>End to end, for every method: the packets a sender with the same password and IV seals and
  encrypts one after the other are all accepted when the queue is processed, and their checks are
  delivered in order; nothing else is delivered, and the statistics get the outcome.\<close>

theorem sent_packets_delivered:
  assumes "in_step lib (decryption_method n) S R" "fifos_ok tid n"
    and "\<forall>t. mcrypt_enc_set_state lib t (mcrypt_enc_get_state lib t) = t"
    and "\<forall>p \<in> set ps. acceptable n p"
    and "send_packets lib (password n) (decryption_method n) S (map seal_packet ps) = Some ws"
    and "data_packets c = as_queue ws"
    and "deliver_spec env tid 1 (map check_of ps) (n, (d_success c, d_failed c), w) = (n1, (g, b), w1)"
  shows "\<exists>R' c'. process_queue lib True env tid R (n, c, w) =
     Some (R', report_success_failed (word_of_int g) (word_of_int b) n1, c', w1)"
  using process_queue_sent [OF assms(1,2) _ assms(4-7)] assms(3) by blast

lemma sent_packets_delivered_witness:
  "\<exists>ws. send_packets feedback_cipher ''secret'' 3 (Some ex_ci) (map seal_packet [ex_packet, ex_packet]) = Some ws
     \<and> (case deliver_spec ex_env 0 1 [check_of ex_packet, check_of ex_packet]
                (ex_network 3, (0, 0), spool_world) of
          (n1, (g, b), w1) \<Rightarrow>
            \<exists>R' c'. process_queue feedback_cipher True ex_env 0 (Some (ex_ci\<lparr>td := Some 55\<rparr>))
                      (ex_network 3, ex_client\<lparr>data_packets := as_queue ws\<rparr>, spool_world)
                    = Some (R', report_success_failed (word_of_int g) (word_of_int b) n1, c', w1))"
proof -
  have "\<exists>ws. send_packets feedback_cipher ''secret'' 3 (Some ex_ci)
      (map seal_packet [ex_packet, ex_packet]) = Some ws"
    by (rule send_packets_total) (simp_all add: ex_ci_def)
  then obtain ws where ws: "send_packets feedback_cipher ''secret'' 3 (Some ex_ci)
      (map seal_packet [ex_packet, ex_packet]) = Some ws" by blast
  obtain n1 g b w1 where d: "deliver_spec ex_env 0 1 (map check_of [ex_packet, ex_packet])
      (ex_network 3, (d_success (ex_client\<lparr>data_packets := as_queue ws\<rparr>),
        d_failed (ex_client\<lparr>data_packets := as_queue ws\<rparr>)), spool_world) = (n1, (g, b), w1)"
    by (metis prod_cases3 surj_pair)
  have "\<exists>R' c'. process_queue feedback_cipher True ex_env 0 (Some (ex_ci\<lparr>td := Some 55\<rparr>))
      (ex_network 3, ex_client\<lparr>data_packets := as_queue ws\<rparr>, spool_world)
      = Some (R', report_success_failed (word_of_int g) (word_of_int b) n1, c', w1)"
    by (rule sent_packets_delivered [OF _ ex_fifos_ok _ _ _ _ d, where ws = ws and S = "Some ex_ci"])
      (simp_all add: ex_in_step feedback_state_law ex_acceptable ws del: list.map send_packets.simps)
  with ws d show ?thesis by (intro exI [of _ ws]) (simp del: send_packets.simps)
qed

text \<open>C4: Processing a queue delivers the checks of exactly those packets that come before the first one
  the checks of version, checksum and age reject, in order, each once; a rejected packet adds one
  failure and what follows it is dropped.\<close>

theorem accepted_prefix_delivered:
  assumes "cipher_ready n CIp" "fifos_ok tid n"
    and "\<forall>t. mcrypt_enc_set_state lib t (mcrypt_enc_get_state lib t) = t"
    and "deliver_spec env tid 1
           (map packet_check (accepted_prefix n (queue_decoded lib n CIp (data_packets c))))
           (n, (d_success c, d_failed c), w) = (n1, (g, b), w1)"
  shows "\<exists>CIp' c' b'. process_queue lib True env tid CIp (n, c, w) =
      Some (CIp', report_success_failed (word_of_int g) (word_of_int b') n1, c', w1)
    \<and> b' = (if length (accepted_prefix n (queue_decoded lib n CIp (data_packets c)))
               = length (queue_decoded lib n CIp (data_packets c)) then b else b + 1)
    \<and> g + b = d_success c + d_failed c
        + int (length (accepted_prefix n (queue_decoded lib n CIp (data_packets c))))"
proof -
  let ?D = "queue_decoded lib n CIp (data_packets c)"
  define b' where "b' = (if length (accepted_prefix n ?D) = length ?D then b else b + 1)"
  have "loop_spec env tid 1 ?D (n, (d_success c, d_failed c), w) = (n1, (g, b'), w1)"
    using assms(4) by (simp add: loop_spec_def Let_def b'_def)
  from process_queue_refines [OF assms(1,2) _ this] assms(3) deliver_spec_count [OF assms(4)]
  show ?thesis by (auto simp: b'_def)
qed

lemma ex_garbage_rejected:
  "accepted_prefix (ex_network m) ((k, replicate sizeof_data_packet 0) # ds) = []"
  by (simp add: check_packet_def be16_def nsca_consts)

lemma accepted_prefix_delivered_witness:
  "\<exists>CIp' c'. process_queue feedback_cipher True ex_env 0 (Some ex_ci)
      (ex_network 0, ex_client\<lparr>data_packets := as_queue [replicate sizeof_data_packet 0, seal_packet ex_packet]\<rparr>,
       spool_world)
    = Some (CIp', report_success_failed 0 1 (ex_network 0), c', spool_world)"
proof -
  let ?c = "ex_client\<lparr>data_packets := as_queue [replicate sizeof_data_packet 0, seal_packet ex_packet]\<rparr>"
  have q: "queue_decoded feedback_cipher (ex_network 0) (Some ex_ci) (data_packets ?c)
      = [(sizeof_data_packet, replicate sizeof_data_packet 0), (sizeof_data_packet, seal_packet ex_packet)]"
    by (simp add: queue_decoded_def decoded_plain_def as_queue_def plain_decode_def ENCRYPT_XOR_def)
  have "deliver_spec ex_env 0 1 (map packet_check (accepted_prefix (ex_network 0)
      (queue_decoded feedback_cipher (ex_network 0) (Some ex_ci) (data_packets ?c))))
      (ex_network 0, (d_success ?c, d_failed ?c), spool_world) = (ex_network 0, (0, 0), spool_world)"
    unfolding q ex_garbage_rejected by simp
  from accepted_prefix_delivered [OF _ ex_fifos_ok _ this] show ?thesis
    unfolding q ex_garbage_rejected by (auto simp: cipher_ready_def feedback_state_law)
qed

text \<open>C9: Damage on the wire: when up to four neighbouring bytes of a packet are changed (all in its
  checksum or none), it is not delivered, the packets before it are, and those after it are
  dropped; without encryption and with the exclusive or.\<close>

theorem damaged_packet_stops_queue:
  assumes "m = ENCRYPT_NONE \<or> m = ENCRYPT_XOR" "decryption_method n = m" "fifos_ok tid n"
    and "\<forall>p \<in> set ps. acceptable n p" "packet_wf q"
    and "burst (plain_decode (password n) m CIp (seal_packet q)) wire'"
    and "data_packets c = as_queue (map (\<lambda>p. plain_decode (password n) m CIp (seal_packet p)) ps @ wire' # later)"
    and "\<forall>t. mcrypt_enc_set_state lib t (mcrypt_enc_get_state lib t) = t"
    and "deliver_spec env tid 1 (map check_of ps) (n, (d_success c, d_failed c), w) = (n1, (g, b), w1)"
  shows "\<exists>CIp' c'. process_queue lib True env tid CIp (n, c, w) =
     Some (CIp', report_success_failed (word_of_int g) (word_of_int (b + 1)) n1, c', w1)"
proof -
  let ?dec = "plain_decode (password n) m CIp"
  have inv: "?dec (?dec xs) = xs" if "length xs = sizeof_data_packet" for xs
    using that assms(1) plain_decode_inverse [of m CIp CIp xs "password n"] by auto
  have len: "length (?dec (seal_packet q)) = sizeof_data_packet"
    using assms(5) by (auto simp: plain_decode_def split: option.split)
  have dam: "burst (seal_packet q) (?dec wire')"
    using plain_decode_burst [OF assms(1) len assms(6), of "password n" CIp]
      inv [of "seal_packet q"] assms(5) by simp
  have notm: "\<not> 1 < decryption_method n" using assms(1,2) by (auto simp: nsca_consts)
  have "?dec (?dec (seal_packet p)) = seal_packet p" if "p \<in> set ps" for p
    using inv [of "seal_packet p"] that assms(4) by (simp add: acceptable_def)
  then have "queue_decoded lib n CIp (data_packets c) = map (\<lambda>p. (sizeof_data_packet, seal_packet p)) ps
      @ (sizeof_data_packet, ?dec wire') # map (\<lambda>b. (sizeof_data_packet, ?dec b)) later"
    using notm assms(2) by (simp add: queue_decoded_def decoded_plain_def assms(7) as_queue_def)
  with loop_spec_damaged [OF assms(4,5) dam assms(9)]
  have "loop_spec env tid 1 (queue_decoded lib n CIp (data_packets c))
      (n, (d_success c, d_failed c), w) = (n1, (g, b + 1), w1)" by simp
  moreover have "cipher_ready n CIp" using assms(1,2) by (auto simp: cipher_ready_def nsca_consts)
  ultimately show ?thesis using process_queue_refines [OF _ assms(3)] assms(8) by blast
qed

lemma damaged_packet_stops_queue_witness:
  "\<exists>CIp' c'. process_queue feedback_cipher True ex_env 0 None
      (ex_network 0, ex_client\<lparr>data_packets := as_queue [(seal_packet ex_packet)[20 := NOT (seal_packet ex_packet ! 20)]]\<rparr>,
       spool_world)
    = Some (CIp', report_success_failed 0 1 (ex_network 0), c', spool_world)"
proof -
  let ?p = "seal_packet ex_packet" and ?d = "(seal_packet ex_packet)[20 := NOT (seal_packet ex_packet ! 20)]"
  let ?c = "ex_client\<lparr>data_packets := as_queue [?d]\<rparr>"
  have wf: "packet_wf ex_packet" using ex_acceptable [of 0] by (simp add: acceptable_def)
  then have l: "20 < length ?p" by (simp add: sizeof_data_packet_value)
  have ne: "?p ! 20 \<noteq> NOT (?p ! 20)" by (rule not_word_neq)
  have "burst ?p ?d" using l ne by (intro burst_update) (simp_all add: nsca_consts)
  then have b: "burst (plain_decode ''secret'' 0 None ?p) ?d" by (simp add: plain_decode_def)
  have d: "deliver_spec ex_env 0 1 (map check_of []) (ex_network 0, (d_success ?c, d_failed ?c), spool_world)
      = (ex_network 0, (0, 0), spool_world)" by simp
  show ?thesis
    using damaged_packet_stops_queue [where m = 0 and n = "ex_network 0" and tid = 0 and ps = "[]"
        and q = ex_packet and CIp = None and wire' = ?d and c = ?c and later = "[]"
        and lib = feedback_cipher and env = ex_env, OF _ _ ex_fifos_ok _ wf _ _ _ d] b
    by (simp add: ENCRYPT_NONE_def feedback_state_law)
qed

text \<open>C10: When processing a queue counts no success, the monitoring core sees nothing of it: no byte in
  the FIFO and no marker in the spool directory.\<close>

theorem failures_leave_no_trace:
  assumes "process_queue lib True env tid CIp (n, c, w) = Some (CIp', n', c', w')"
    and "d_success c' = d_success c" "cipher_ready n CIp" "fifos_ok tid n"
    and "\<forall>t. mcrypt_enc_set_state lib t (mcrypt_enc_get_state lib t) = t"
    and "\<forall>j. result_env_ok (se_result (env j))"
  shows "pipe w' = pipe w \<and> markers w' = markers w"
proof -
  let ?D = "queue_decoded lib n CIp (data_packets c)"
  obtain n1 g b w1 where l: "loop_spec env tid 1 ?D (n, (d_success c, d_failed c), w) = (n1, (g, b), w1)"
    by (metis prod_cases3 surj_pair)
  from process_queue_refines [OF assms(3,4) _ l] assms(1,2,5) have "w' = w1" "g = d_success c" by auto
  moreover obtain b0 where "deliver_spec env tid 1 (map packet_check (accepted_prefix n ?D))
      (n, (d_success c, d_failed c), w) = (n1, (g, b0), w1)"
    using l by (auto simp: loop_spec_def Let_def split: prod.splits)
  ultimately show ?thesis using deliver_spec_failed [OF _ assms(4,6)] by blast
qed

lemma failures_leave_no_trace_witness:
  "\<exists>CIp' n' c' w'. process_queue feedback_cipher True ex_env 0 (Some ex_ci)
      (ex_network 0, ex_client\<lparr>data_packets := as_queue [replicate sizeof_data_packet 0]\<rparr>, spool_world)
      = Some (CIp', n', c', w') \<and> pipe w' = [] \<and> markers w' = Map.empty"
proof -
  let ?c = "ex_client\<lparr>data_packets := as_queue [replicate sizeof_data_packet 0]\<rparr>"
  have q: "queue_decoded feedback_cipher (ex_network 0) (Some ex_ci) (data_packets ?c)
      = [(sizeof_data_packet, replicate sizeof_data_packet 0)]"
    by (simp add: queue_decoded_def decoded_plain_def as_queue_def plain_decode_def ENCRYPT_XOR_def)
  have l: "loop_spec ex_env 0 1 (queue_decoded feedback_cipher (ex_network 0) (Some ex_ci) (data_packets ?c))
      (ex_network 0, (d_success ?c, d_failed ?c), spool_world) = (ex_network 0, (0, 1), spool_world)"
    unfolding q loop_spec_def fst_conv ex_garbage_rejected by simp
  have ready: "cipher_ready (ex_network 0) (Some ex_ci)" by (simp add: cipher_ready_def)
  obtain CIp' n' c' where p: "process_queue feedback_cipher True ex_env 0 (Some ex_ci)
      (ex_network 0, ?c, spool_world) = Some (CIp', n', c', spool_world)" "d_success c' = 0"
    using process_queue_refines [OF ready ex_fifos_ok feedback_state_law l] by auto
  have "pipe spool_world = [] \<and> markers spool_world = Map.empty"
    by (simp add: spool_world_def markers_def fun_eq_iff)
  with failures_leave_no_trace [OF p(1) _ ready ex_fifos_ok] p ex_env_ok feedback_state_law
  show ?thesis by (intro exI conjI) auto
qed

text \<open>One accepted packet reaches at most one of the two back ends and is counted once, as a success
  or as a failure; the FIFO clients stay in order.\<close>

theorem result_counted_once:
  assumes "send_receive_message e tid pkt (n, c, w) = Some (n', c', w')" "fifos_ok tid n"
  shows "(pipe w' = pipe w \<or> markers w' = markers w)
    \<and> (d_success c' = d_success c + 1 \<and> d_failed c' = d_failed c
       \<or> d_success c' = d_success c \<and> d_failed c' = d_failed c + 1)
    \<and> fifos_ok tid n' \<and> n' = n\<lparr>fifoClients := fifoClients n'\<rparr>"
proof -
  obtain n1 ok w1 where s: "send_result e tid (packet_check pkt) n w = (n1, ok, w1)"
    by (metis prod_cases3)
  with assms send_receive_message_result [OF assms(2), of e pkt c w]
  have "n' = n1" "c' = tally ok c" "w' = w1" by simp_all
  with send_result_exclusive [OF assms(2) s] send_result_fifos_ok [OF assms(2) s] send_result_keeps [OF s]
  show ?thesis by auto
qed

lemma result_counted_once_witness:
  "\<exists>n' c' w'. send_receive_message (ex_env 1) 0 (seal_packet ex_packet) (ex_network 0, ex_client, spool_world)
      = Some (n', c', w') \<and> d_success c' + d_failed c' = 1"
proof -
  obtain n' c' w' where s: "send_receive_message (ex_env 1) 0 (seal_packet ex_packet)
      (ex_network 0, ex_client, spool_world) = Some (n', c', w')"
    unfolding send_receive_message_result [OF ex_fifos_ok] by (metis prod_cases3)
  from result_counted_once [OF s ex_fifos_ok] have "d_success c' + d_failed c' = 1" by auto
  with s show ?thesis by blast
qed


text \<open>The one packet more than the limit: with a limit of 0, after a packet and a byte.\<close>

definition ex_chunk :: "byte list" where
  "ex_chunk = replicate sizeof_data_packet 1 @ [2]"

lemma ex_conn_reach:
  "\<exists>c :: byte network_client. conn_reach 0 ex_chunk c \<and> length (data_packets c) = 1 \<and> in_buffer c = [2]"
proof -
  fix r0 :: rnd
  let ?n = "(ex_network 0)\<lparr>max_checks_per_connection := 0\<rparr>"
  obtain n' r' c0 where a: "listener_proxy True r0 ?n = (n', r', Open c0)"
    by (simp add: listener_proxy_def take_variables_def nc_init_events_def Let_def case_prod_beta)
  note c0 = listener_proxy_conn [OF a]
  have z: "length ex_chunk = sizeof_data_packet + 1" "0 < sizeof_data_packet"
    by (simp_all add: ex_chunk_def nsca_consts)
  obtain c where c: "received True ex_chunk ?n c0 = (?n, Open c)" "length (data_packets c) = 1"
      "in_buffer c = [2]"
    using c0 z by (simp add: received_def readcb_outcome count_read_def take_packet_def)
      (simp add: ex_chunk_def)
  have "conn_reach 0 ([] @ ex_chunk) c"
    using a c(1) by (intro conn_reach.recv conn_reach.accept [of True r0 ?n]) simp_all
  with c show ?thesis by auto
qed


text \<open>Packets that arrive in time are all queued, and the connection is not closed: with chunks that
  never let two packets pile up and no more packets than the limit allows, the queue is exactly
  the sequence of 4304-byte blocks of the stream.\<close>

theorem timely_connection_queues_all:
  assumes "listener_proxy bev_ok r0 n0 = (n', r', Open c)"
    and "timely 0 bss" "concat bss = concat ws" "\<forall>w \<in> set ws. length w = sizeof_data_packet"
    and "int (length ws) \<le> max_checks_per_connection n mod 2 ^ 64 + 1"
  shows "\<exists>c'. receive_all n bss c = Open c' \<and> data_packets c' = as_queue ws \<and> in_buffer c' = []"
  using session_queue [OF assms(1) refl assms(2-5)] by metis

lemma timely_connection_queues_all_witness:
  "\<exists>(c :: byte network_client) c'. receive_all (ex_network 0) [replicate 4304 1, replicate 304 2, replicate 4000 2] c = Open c'
     \<and> data_packets c' = as_queue [replicate 4304 1, replicate 4304 2] \<and> in_buffer c' = []"
proof -
  fix r0 :: rnd
  obtain n' r' and c :: "byte network_client" where c: "listener_proxy True r0 (ex_network 0) = (n', r', Open c)"
    using ex_accepts by blast
  have "concat [replicate 4304 1, replicate 304 2, replicate 4000 2]
      = concat [replicate 4304 1, replicate 4304 (2 :: byte)]"
    by (simp flip: replicate_add)
  then have "\<exists>c'. receive_all (ex_network 0) [replicate 4304 1, replicate 304 2, replicate 4000 2] c = Open c'
     \<and> data_packets c' = as_queue [replicate 4304 1, replicate 4304 2] \<and> in_buffer c' = []"
    by (intro timely_connection_queues_all [OF c]) (simp_all add: sizeof_data_packet_value)
  then show ?thesis by blast
qed

text \<open>C17: Only packets that arrive in time are safe: when a read brings two packets at once and the peer
  then closes the connection, the second one is lost, whatever the limit; it is left in libevent's
  buffer, and the end of the connection hands over the first alone.\<close>

theorem pipelined_packet_lost:
  assumes "listener_proxy bev_ok r0 n0 = (n', r', Open c)"
    and "length p = sizeof_data_packet" "length q = sizeof_data_packet"
    and "shared_crypt_instance n" "nsca_threads_per_worker n \<le> 0"
  shows "\<exists>c1. received True (p @ q) n c = (n, Open c1)
    \<and> data_packets c1 = as_queue [p] \<and> in_buffer c1 = q
    \<and> eventcb lib mem alloc r n c1 = Some (n\<lparr>connections := connections n - 1\<rparr>, r, Process c1)"
proof -
  note c = listener_proxy_conn [OF assms(1)]
  let ?c1 = "take_packet (count_read (c\<lparr>in_buffer := p @ q\<rparr>))"
  have r: "received True (p @ q) n c = (n, Open ?c1)"
    using c assms(2,3) by (simp add: received_def readcb_outcome count_read_def)
  have q: "data_packets ?c1 = as_queue [p]" "in_buffer ?c1 = q"
    using c assms(2,3) by (simp_all add: take_packet_def count_read_def as_queue_def)
  have inv: "conn_inv (max_checks_per_connection n) [] c" using c by (simp add: conn_inv_def)
  have "data_packets ?c1 \<noteq> []" using q by (simp add: as_queue_def)
  from eventcb_hands_over [OF conn_inv_received [OF inv refl r] this assms(4,5)] r q
  show ?thesis by blast
qed

lemma pipelined_packet_lost_witness:
  "\<exists>(c :: byte network_client) c1. received True (seal_packet ex_packet @ seal_packet ex_packet) (ex_network 0) c
       = (ex_network 0, Open c1) \<and> length (data_packets c1) = 1"
proof -
  fix r0 :: rnd
  obtain n' r' and c :: "byte network_client" where c: "listener_proxy True r0 (ex_network 0) = (n', r', Open c)"
    using ex_accepts by blast
  have l: "length (seal_packet ex_packet) = sizeof_data_packet"
    using ex_acceptable [of 0] by (simp add: acceptable_def)
  obtain c1 where "received True (seal_packet ex_packet @ seal_packet ex_packet) (ex_network 0) c
      = (ex_network 0, Open c1)" "data_packets c1 = as_queue [seal_packet ex_packet]"
    using pipelined_packet_lost [OF c l l, where n = "ex_network 0" and lib = feedback_cipher
        and mem = "\<lambda>_. True" and alloc = True and r = r0] by auto
  then show ?thesis by (intro exI [of _ c] exI [of _ c1]) (simp add: as_queue_def)
qed

text \<open>C18: A client of the old protocol, without encryption or with the exclusive or: its one packet of 720
  bytes, arrived in one piece, is recognised at the end of the connection, completed with zeros,
  and its check is the one delivered. When the same bytes arrive in two pieces, the first is
  counted twice, and the connection ends without a result.\<close>

theorem old_client_delivered:
  assumes "listener_proxy bev_ok r0 n0 = (n', r', Open c)"
    and "decryption_method n = ENCRYPT_NONE \<or> decryption_method n = ENCRYPT_XOR
           \<and> map_option transmitted_iv S = map_option transmitted_iv R"
    and "fifos_ok tid n" "old_acceptable n p"
    and "encrypt_buffer lib (seal_packet p) OLD_PACKET_LENGTH (password n) (decryption_method n) S
           = Some (wire, S')"
    and "received alloc wire n c = (n2, Open c')"
    and "\<forall>t. mcrypt_enc_set_state lib t (mcrypt_enc_get_state lib t) = t"
    and "deliver_spec env tid 1 [check_of p] (n, (0, 0), w) = (n1, (g, b), w1)"
  shows "(\<exists>c1 c2 R'. eventcb_queue True c' = Some c1
       \<and> process_queue lib True env tid R (n, c1, w)
           = Some (R', report_success_failed (word_of_int g) (word_of_int b) n1, c2, w1))
    \<and> (\<forall>u v nu cu nv cv. wire = u @ v \<longrightarrow> u \<noteq> [] \<longrightarrow> received alloc u n c = (nu, Open cu) \<longrightarrow>
         received alloc v nu cu = (nv, Open cv) \<longrightarrow>
         (\<exists>n3 r3. eventcb lib mem True r nv cv = Some (n3, r3, Deleted)))"
proof -
  note c = listener_proxy_conn [OF assms(1)]
  have l: "length (seal_packet p) = OLD_PACKET_LENGTH" using assms(4) by (simp add: old_acceptable_def)
  with length_encrypt_buffer [OF assms(5)] have wire: "length wire = OLD_PACKET_LENGTH" by simp
  from old_client_queue [OF c(1,2,5,4) wire assms(6)]
  obtain c1 where c1: "eventcb_queue True c' = Some c1" "data_packets c1 =
      [\<lparr>receive_packet = wire @ replicate (sizeof_data_packet - OLD_PACKET_LENGTH) 0,
        packet_length = OLD_PACKET_LENGTH\<rparr>]" by blast
  have "d_success c' = 0" "d_failed c' = 0"
    using c assms(6) by (auto simp: received_def readcb_outcome take_packet_def count_read_def split: if_splits)
  with c1(1) have cnt: "d_success c1 = 0" "d_failed c1 = 0"
    by (auto simp: eventcb_queue_def Let_def split: if_splits)
  have "OLD_PACKET_LENGTH \<le> sizeof_data_packet" by (simp add: OLD_PACKET_LENGTH_value sizeof_data_packet_value)
  with plain_decode_short [OF assms(2), of lib "seal_packet p" "password n" wire S'] assms(5) l
  obtain rest where rest: "plain_decode (password n) (decryption_method n) R
        (wire @ replicate (sizeof_data_packet - OLD_PACKET_LENGTH) 0) = seal_packet p @ rest"
      "length rest = sizeof_data_packet - OLD_PACKET_LENGTH" by auto
  have m: "\<not> 1 < decryption_method n" using assms(2) by (auto simp: nsca_consts)
  with c1(2) rest(1) have "queue_decoded lib n R (data_packets c1) = [(OLD_PACKET_LENGTH, seal_packet p @ rest)]"
    by (simp add: queue_decoded_def decoded_plain_def)
  with loop_spec_old [OF assms(4) rest(2)] assms(8) cnt
  have "loop_spec env tid 1 (queue_decoded lib n R (data_packets c1))
      (n, (d_success c1, d_failed c1), w) = (n1, (g, b), w1)" by simp
  moreover have "cipher_ready n R" using assms(2) by (auto simp: cipher_ready_def nsca_consts)
  ultimately have "\<exists>R' c2. process_queue lib True env tid R (n, c1, w)
      = Some (R', report_success_failed (word_of_int g) (word_of_int b) n1, c2, w1)"
    using process_queue_refines [OF _ assms(3)] assms(7) by blast
  with c1(1) old_client_in_pieces [OF c(1,2,5) wire] show ?thesis by blast
qed

lemma old_client_delivered_witness:
  "\<exists>(c' :: byte network_client) c1 c2 R' n1 g b w1. eventcb_queue True c' = Some c1
     \<and> process_queue feedback_cipher True ex_env 0 None (ex_network 0, c1, spool_world)
         = Some (R', report_success_failed (word_of_int g) (word_of_int b) n1, c2, w1)"
proof -
  fix r0 :: rnd
  let ?n = "ex_network 0"
  obtain n' r' c where c: "listener_proxy True r0 ?n = (n', r', Open c)" using ex_accepts by blast
  obtain n1 g b w1 where d: "deliver_spec ex_env 0 1 [check_of ex_old_packet] (?n, (0, 0), spool_world)
      = (n1, (g, b), w1)" by (metis prod_cases3 surj_pair)
  have "length (seal_packet ex_old_packet) < sizeof_data_packet"
    using ex_old_acceptable [of 0]
    by (simp add: old_acceptable_def OLD_PACKET_LENGTH_value sizeof_data_packet_value)
  then obtain n2 c' where r: "received True (seal_packet ex_old_packet) ?n c = (n2, Open c')"
    using listener_proxy_conn [OF c] by (simp add: received_def readcb_outcome)
  have e: "encrypt_buffer feedback_cipher (seal_packet ex_old_packet) OLD_PACKET_LENGTH (password ?n)
      (decryption_method ?n) None = Some (seal_packet ex_old_packet, None)"
    by (simp add: encrypt_buffer_def ENCRYPT_NONE_def)
  have "\<exists>c1 c2 R'. eventcb_queue True c' = Some c1
     \<and> process_queue feedback_cipher True ex_env 0 None (?n, c1, spool_world)
         = Some (R', report_success_failed (word_of_int g) (word_of_int b) n1, c2, w1)"
    by (rule old_client_delivered [OF c _ ex_fifos_ok ex_old_acceptable e r _ d, THEN conjunct1])
      (simp_all add: ENCRYPT_NONE_def feedback_state_law)
  then show ?thesis by blast
qed

text \<open>The client is greeted once: as long as the connection is open, either nothing has been written and
  the write event is still on, or what has been written is one greeting, the IV of the connection
  (or the shared one) and the time of the network at that moment, 132 bytes when the shared IV has
  its 128.\<close>

theorem greeting_sent_once:
  assumes "conn_reach m s (c :: 'td network_client)"
  shows "connection_state c = 0 \<and> write_event c \<and> out_buffer c = []
    \<or> connection_state c = 1 \<and> (\<exists>n :: 'td network. out_buffer c = greeting n c
        \<and> (length (shared_transmission_iv n) = TRANSMITTED_IV_SIZE \<longrightarrow> length (out_buffer c) = 132))"
  using conn_reach_greeting [OF assms] length_greeting conn_reach_iv [OF assms]
  unfolding greeting_inv_def by metis

lemma greeting_sent_once_witness:
  "\<exists>c :: byte network_client. conn_reach 0 ex_chunk c \<and> (out_buffer c = [] \<or> (\<exists>n. out_buffer c = greeting n c))"
  using ex_conn_reach greeting_sent_once by blast

text \<open>C19: The age of a packet that arrived as it was sealed is checked exactly, in both directions, as long
  as the two times differ by less than \<open>2^31\<close> seconds; a packet from \<open>2^31\<close> seconds or more in the
  future is accepted, as its age overflows to a negative number.\<close>

theorem packet_age_exact:
  assumes "packet_wf p" "packet_version p = NSCA_PACKET_VERSION_3"
    and "0 \<le> now n" "now n < 2 ^ 63"
    and "max_packet_age_enabled n \<noteq> 0" "0 < max_packet_age n"
  shows "(\<bar>now n - uint (timestamp p)\<bar> < 2 ^ 31 \<longrightarrow>
      fst (check_packet n sizeof_data_packet (seal_packet p))
        = (if max_packet_age n < \<bar>now n - uint (timestamp p)\<bar> then Too_old else Accepted))
    \<and> (2 ^ 31 \<le> uint (timestamp p) - now n \<longrightarrow>
      fst (check_packet n sizeof_data_packet (seal_packet p)) = Accepted)"
  using check_packet_age [OF assms(1,2), of n] packet_too_old_exact [OF assms(3,4) _ assms(5,6)]
    packet_too_old_wraps [OF assms(3) _ assms(6)]
  by simp

lemma packet_age_exact_witness:
  "fst (check_packet (ex_network 0) sizeof_data_packet (seal_packet (ex_packet\<lparr>timestamp := 1599999969\<rparr>))) = Too_old"
proof -
  let ?p = "ex_packet\<lparr>timestamp := 1599999969\<rparr>"
  have "packet_wf ?p" using ex_acceptable [of 0] by (simp add: acceptable_def packet_wf_def)
  moreover have "packet_version ?p = NSCA_PACKET_VERSION_3" by (simp add: ex_packet_def nsca_consts)
  moreover have "uint (timestamp ?p) = 1599999969" by simp
  moreover have "max_packet_age_enabled (ex_network 0) = 1" "max_packet_age (ex_network 0) = 30"
    by (simp_all add: ex_network_def)
  ultimately show ?thesis using packet_age_exact [of ?p "ex_network 0"] by simp
qed



text \<open>C30: The network of a worker is made of the settings that \<open>main\<close> has accepted, whatever the command line
  and the file say: its method, limits and number of threads are in range, there is a FIFO client
  for every thread exactly when a command file is set, all of them closed, and a worker without
  threads that shares its crypt instance has one.\<close>

theorem configured_network:
  assumes "main_config workers_enabled files opts = Inr (cfg, dbg)"
    and "new_network lib mem cfg t ct ifd iv r sw = Inr n"
  shows "decryption_method n \<in> {0..26} \<and> max_packet_age n \<in> {0..31449600}
    \<and> 1 \<le> max_checks_per_connection n \<and> nsca_threads_per_worker n \<in> {0..1000}
    \<and> fifoClients n = (if command_file n = [] then None
        else Some (replicate (max 1 (nat (nsca_threads_per_worker n))) (new_fifo_client (command_file n))))
    \<and> (resultPathClient n = None \<longleftrightarrow> check_result_path n = [])
    \<and> (use_network_CI n \<longleftrightarrow> shared_crypt_instance n \<and> nsca_threads_per_worker n = 0)
    \<and> (use_network_CI n \<longleftrightarrow> CI n \<noteq> None)"
proof -
  obtain c where "check_config workers_enabled c = (0, cfg, dbg)"
    using assms(1) by (rule main_config_checked)
  from check_config_settled_values [OF this] new_network_settings [OF assms(2)]
  show ?thesis unfolding in_range_def by (intro conjI) auto
qed

lemma configured_network_witness:
  "\<exists>cfg (n :: byte network). main_config True (\<lambda>_. Some []) (initial_options (log_initial 9)) = Inr (cfg, False)
     \<and> new_network feedback_cipher (\<lambda>_. True) cfg 0 ''now'' 3 (replicate 128 9) rnd_initial example_stat_writer = Inr n
     \<and> decryption_method n \<in> {0..26}"
proof -
  let ?c = "Set ''nsca_workers'' ''4'' (setConfigPath ''/etc/nagios/nsca.cfg'' new_config)"
  have "main_config True (\<lambda>_. Some []) (initial_options (log_initial 9)) = Inr (?c, False)"
    by (simp add: main_config_def initial_options_def read_config_def read_config_loop.simps
        override_settings_def check_config_def Let_def GetInt_def new_config_def setConfigPath_def c_int_id)
  moreover obtain n :: "byte network" where "new_network feedback_cipher (\<lambda>_. True) ?c 0 ''now'' 3
      (replicate 128 9) rnd_initial example_stat_writer = Inr n"
    by (simp add: new_network_def Let_def shared_crypt_instance_def GetInt_def Set_def new_config_def
        setConfigPath_def Get_def)
  ultimately show ?thesis using configured_network by blast
qed

end
